(* ===== verification/Prelude.thy ===== *)
theory Prelude
  imports Main "HOL-Library.Word"
begin

unbundle bit_operations_syntax

section \<open>Shared types, lemma collections and generic lemmas\<close>

text \<open>
  What the components share: the machine types of the C++ sources under short names, the lemma
  collections the component theories feed (\<open>wire_simps\<close> for the byte layout, \<open>stats_simps\<close> for
  the effect of an operation on the server's counters), the model of a memory access that must
  stay inside a buffer, and facts on lists and words that belong to no component.
\<close>

named_theorems wire_simps "byte layout of packets"
named_theorems stats_simps "effect of operations on the counters"

text \<open>
  \<open>std::uint8_t\<close> / \<open>char\<close> used as raw bytes, \<open>std::uint16_t\<close>, \<open>std::uint32_t\<close> and
  \<open>unsigned long long\<close>. A \<open>std::size_t\<close> that counts bytes or packets is a \<open>nat\<close>.
\<close>

type_synonym byte = "8 word"
type_synonym u16 = "16 word"
type_synonym u32 = "32 word"
type_synonym u64 = "64 word"

subsection \<open>Memory accesses\<close>

text \<open>
  The sources pass a pointer and a length and read with \<open>memcpy\<close>. A read of \<open>n\<close> bytes at
  \<open>off\<close> of a buffer is \<open>read_at\<close>: outside the buffer it is the fault \<open>OutOfBounds\<close>, which
  C++ leaves undefined. \<open>OutOfFuel\<close> is the outcome of a loop whose fuel was too small;
  the theorems that bound the fuel show it does not occur.
\<close>

datatype fault = OutOfBounds | OutOfFuel

definition read_at :: "'a list \<Rightarrow> nat \<Rightarrow> nat \<Rightarrow> fault + 'a list" where
  "read_at buf off n = (if off + n \<le> length buf then Inr (take n (drop off buf)) else Inl OutOfBounds)"

lemma read_at_ok [simp]: "off + n \<le> length buf \<Longrightarrow> read_at buf off n = Inr (take n (drop off buf))"
  by (simp add: read_at_def)

lemma read_at_length: "read_at buf off n = Inr xs \<Longrightarrow> length xs = n"
  by (auto simp: read_at_def split: if_splits)

subsection \<open>Operations that may throw\<close>

text \<open>
  An operation that may throw returns a sum, the exception on the left; \<open>then_do\<close> goes on with
  its value. It is transparent to recursive definitions.
\<close>

definition then_do :: "'e + 'a \<Rightarrow> ('a \<Rightarrow> 'e + 'b) \<Rightarrow> 'e + 'b" where
  "then_do m f = (case m of Inl e \<Rightarrow> Inl e | Inr x \<Rightarrow> f x)"

lemma then_do_simps [simp]: "then_do (Inl e) f = Inl e" "then_do (Inr x) f = f x"
  by (simp_all add: then_do_def)

lemma then_do_cong [fundef_cong]:
  "m = m' \<Longrightarrow> (\<And>x. m' = Inr x \<Longrightarrow> f x = g x) \<Longrightarrow> then_do m f = then_do m' g"
  by (simp add: then_do_def split: sum.split)

lemma then_do_eq_Inr: "then_do m f = Inr y \<longleftrightarrow> (\<exists>x. m = Inr x \<and> f x = Inr y)"
  by (simp add: then_do_def split: sum.split)

lemma then_do_eq_Inl: "then_do m f = Inl e \<longleftrightarrow> m = Inl e \<or> (\<exists>x. m = Inr x \<and> f x = Inl e)"
  by (auto simp: then_do_def split: sum.split)

subsection \<open>Lists\<close>

lemma take_append_take_drop: "take n xs @ take m (drop n xs) = take (n + m) xs"
  by (simp add: take_add)

lemma foldl_append_one: "foldl f s (xs @ [x]) = f (foldl f s xs) x"
  by simp

lemma nth_take_drop: "i < n \<Longrightarrow> off + n \<le> length xs \<Longrightarrow> take n (drop off xs) ! i = xs ! (off + i)"
  by simp

lemma list_eq_4:
  assumes "length xs = 4"
  shows "xs = [xs ! 0, xs ! 1, xs ! 2, xs ! 3]"
  using assms by (intro nth_equalityI) (auto simp: less_Suc_eq numeral_eq_Suc)

lemma list_split_last: "xs \<noteq> [] \<Longrightarrow> xs = butlast xs @ [last xs]"
  by simp

lemma find_Some_in: "find P xs = Some x \<Longrightarrow> x \<in> set xs \<and> P x"
  by (induction xs) (auto split: if_splits)

lemma square_plus_less: "m < n \<Longrightarrow> m * m + m < n * n" for m n :: nat
proof -
  assume "m < n"
  then have "Suc m * Suc m \<le> n * n" by (intro mult_le_mono) simp_all
  then show ?thesis by simp
qed

subsection \<open>Words\<close>

lemma and_one_word: "w AND 1 = of_bool (odd w)" for w :: "'a::len word"
  by (simp add: and_one_eq odd_iff_mod_2_eq_one)

lemma xor_cancel_right: "a XOR c = b XOR c \<Longrightarrow> a = b" for a b c :: "'a::len word"
  by (metis xor.assoc xor.right_neutral xor_self_eq)

lemma xor_eq_0_iff: "a XOR b = 0 \<longleftrightarrow> a = b" for a b :: "'a::len word"
  by (metis bit.xor_self xor.assoc xor.left_neutral xor.right_neutral)

lemma unat_u32_less: "unat (w :: u32) < 2 ^ 32"
  using unsigned_less [of w, where ?'a = nat] by simp

lemma unat_max_u32: "unat (- 1 :: u32) = 2 ^ 32 - 1"
proof -
  have "(- 1 :: u32) = 0xFFFFFFFF" by simp
  then show ?thesis by (simp only:) simp
qed

lemma unat_of_nat_u32: "n < 2 ^ 32 \<Longrightarrow> unat (of_nat n :: u32) = n"
  by (simp add: unsigned_of_nat take_bit_nat_eq_self)

subsection \<open>Decimal numbers\<close>

text \<open>
  What \<open>operator<<\<close> and \<open>std::to_string\<close> print for an unsigned number: its decimal digits.
\<close>

definition digit_char :: "nat \<Rightarrow> char" where
  "digit_char d = char_of (48 + d)"

fun show_nat :: "nat \<Rightarrow> string" where
  "show_nat n = (if n < 10 then [digit_char n] else show_nat (n div 10) @ [digit_char (n mod 10)])"

declare show_nat.simps [simp del]

definition is_digit :: "char \<Rightarrow> bool" where
  "is_digit c \<longleftrightarrow> 48 \<le> (of_char c :: nat) \<and> (of_char c :: nat) \<le> 57"

definition digit_val :: "char \<Rightarrow> nat" where
  "digit_val c = of_char c - 48"

lemma of_char_digit_char: "d < 10 \<Longrightarrow> (of_char (digit_char d) :: nat) = 48 + d"
  by (simp add: digit_char_def)

lemma digit_val_digit_char [simp]: "d < 10 \<Longrightarrow> digit_val (digit_char d) = d"
  by (simp add: digit_val_def of_char_digit_char)

lemma is_digit_digit_char [simp]: "d < 10 \<Longrightarrow> is_digit (digit_char d)"
  by (simp add: is_digit_def of_char_digit_char)

lemma show_nat_nonempty [simp]: "show_nat n \<noteq> []"
  by (subst show_nat.simps) simp

lemma show_nat_digits: "\<forall>c \<in> set (show_nat n). is_digit c"
proof (induction n rule: show_nat.induct)
  case (1 n)
  then show ?case by (subst show_nat.simps) auto
qed

text \<open>Reading the digits back, most significant first.\<close>

definition digits_value :: "string \<Rightarrow> nat" where
  "digits_value s = foldl (\<lambda>acc c. acc * 10 + digit_val c) 0 s"

lemma digits_value_show_nat [simp]: "digits_value (show_nat n) = n"
proof (induction n rule: show_nat.induct)
  case (1 n)
  then show ?case
    by (subst show_nat.simps) (auto simp: digits_value_def)
qed

end
