(* ===== verification/Crc32.thy ===== *)
theory Crc32
  imports Prelude
begin

unbundle bit_operations_syntax

section \<open>The CRC-32 of a batch (packet.hpp)\<close>

text \<open>
  \<open>crc32_update\<close> and \<open>crc32_compute\<close> of packet.hpp on 32-bit words, and what the checksum
  detects. The bit step is linear over exclusive or and has a trivial kernel, so two messages of
  equal length that differ only inside a window of four bytes have different checksums. The locale
  \<open>xor_linear_step\<close> states the two laws that the argument needs; the interpretation \<open>crc\<close>
  proves them for the bit step of the code.
\<close>

subsection \<open>The functions of the source\<close>

text \<open>One pass of the loop over the bits: \<open>mask\<close> is all ones or all zeros.\<close>

definition crc32_bit :: "u32 \<Rightarrow> u32" where
  "crc32_bit crc = (let mask = - (crc AND 1) in drop_bit 1 crc XOR (0xEDB88320 AND mask))"

definition crc32_update :: "u32 \<Rightarrow> byte \<Rightarrow> u32" where
  "crc32_update crc b = (crc32_bit ^^ 8) (crc XOR ucast b)"

definition crc32_compute :: "byte list \<Rightarrow> u32" where
  "crc32_compute data = foldl crc32_update 0xFFFFFFFF data XOR 0xFFFFFFFF"

subsection \<open>Evaluation on numerals\<close>

lemma crc32_bit_alt:
  "crc32_bit x = drop_bit 1 x XOR (if odd x then 0xEDB88320 else 0)"
  by (simp add: crc32_bit_def and_one_word)

lemma crc32_bit_num:
  "crc32_bit (numeral n) =
     drop_bit 1 (numeral n) XOR (if odd (numeral n :: u32) then 0xEDB88320 else 0)"
  "crc32_bit 0 = 0"
  "crc32_bit 1 = 0xEDB88320"
  by (simp_all add: crc32_bit_alt)

lemma crc32_update_steps:
  "crc32_update c b =
     crc32_bit (crc32_bit (crc32_bit (crc32_bit (crc32_bit (crc32_bit (crc32_bit (crc32_bit
       (c XOR ucast b))))))))"
  by (simp add: crc32_update_def numeral_eq_Suc)

text \<open>
  The equations for arguments that are numerals: the simplifier only unfolds a step once its
  argument is evaluated, so the work is linear in the number of bits.
\<close>

lemmas crc32_eval =
  crc32_bit_num
  crc32_update_steps [where c = "numeral m" and b = "numeral n" for m n]
  crc32_update_steps [where c = "numeral m" and b = 0 for m]
  crc32_update_steps [where c = "numeral m" and b = 1 for m]
  crc32_update_steps [where c = 0 and b = "numeral n" for n]
  crc32_update_steps [where c = 0 and b = 0]
  crc32_update_steps [where c = 0 and b = 1]
  crc32_update_steps [where c = 1 and b = "numeral n" for n]
  crc32_update_steps [where c = 1 and b = 0]
  crc32_update_steps [where c = 1 and b = 1]
  crc32_compute_def

subsection \<open>Steps that are linear over exclusive or\<close>

locale xor_linear_step =
  fixes step :: "'a::len word \<Rightarrow> 'a word"
  assumes step_xor: "step (a XOR b) = step a XOR step b"
    and step_kernel: "step a = 0 \<Longrightarrow> a = 0"
begin

lemma step_zero: "step 0 = 0"
  using step_xor [of 0 0] by simp

lemma iter_xor: "(step ^^ n) (a XOR b) = (step ^^ n) a XOR (step ^^ n) b"
  by (induction n) (simp_all add: step_xor)

lemma iter_zero: "(step ^^ n) 0 = 0"
  by (induction n) (simp_all add: step_zero)

lemma iter_kernel: "(step ^^ n) a = 0 \<Longrightarrow> a = 0"
  by (induction n) (auto dest: step_kernel)

lemma iter_inj: "(step ^^ n) a = (step ^^ n) b \<Longrightarrow> a = b"
  by (metis iter_kernel iter_xor xor_eq_0_iff)

end

lemma crc32_bit_xor: "crc32_bit (a XOR b) = crc32_bit a XOR crc32_bit b"
  by (auto simp: crc32_bit_alt even_xor_iff xor.assoc xor.left_commute xor.commute)

lemma crc32_bit_top: "bit (crc32_bit x) 31 = odd x"
proof -
  have "bit (0xEDB88320 :: u32) 31" by simp
  moreover have "\<not> bit x 32" by (simp add: bit_imp_le_length [of x 32, simplified] bit_word.rep_eq)
  ultimately show ?thesis by (simp add: crc32_bit_alt bit_xor_iff bit_drop_bit_eq)
qed

lemma crc32_bit_kernel: "crc32_bit x = 0 \<Longrightarrow> x = 0"
proof -
  assume z: "crc32_bit x = 0"
  have ev: "even x" using crc32_bit_top [of x] z by simp
  with z have d: "drop_bit 1 x = 0" by (simp add: crc32_bit_alt)
  show "x = 0"
  proof (rule bit_eqI)
    fix n
    show "bit x n = bit (0 :: u32) n"
    proof (cases n)
      case 0
      with ev show ?thesis by (simp add: bit_0)
    next
      case (Suc m)
      have "bit (drop_bit 1 x) m = bit x (Suc m)" by (simp add: bit_drop_bit_eq)
      with d Suc show ?thesis by simp
    qed
  qed
qed

interpretation crc: xor_linear_step crc32_bit
  by unfold_locales (rule crc32_bit_xor, rule crc32_bit_kernel)

subsection \<open>Linearity of the register over a message\<close>

lemma ucast_byte_xor: "(ucast (a XOR b) :: u32) = ucast a XOR ucast b" for a b :: byte
  by (rule bit_eqI) (auto simp: bit_simps)

lemma crc32_update_xor:
  "crc32_update (c XOR d) (a XOR b) = crc32_update c a XOR crc32_update d b"
proof -
  have "(c XOR d) XOR (ucast (a XOR b) :: u32) = (c XOR ucast a) XOR (d XOR ucast b)"
    by (simp add: ucast_byte_xor ac_simps)
  then show ?thesis by (simp add: crc32_update_def crc.iter_xor)
qed

definition xor_bytes :: "byte list \<Rightarrow> byte list \<Rightarrow> byte list" where
  "xor_bytes xs ys = map2 (XOR) xs ys"

lemma crc32_fold_xor:
  "length xs = length ys \<Longrightarrow>
     foldl crc32_update (c XOR d) (xor_bytes xs ys) =
       foldl crc32_update c xs XOR foldl crc32_update d ys"
proof (induction xs ys arbitrary: c d rule: list_induct2)
  case Nil
  then show ?case by (simp add: xor_bytes_def)
next
  case (Cons x xs y ys)
  then show ?case by (simp add: xor_bytes_def crc32_update_xor)
qed

lemma crc32_fold_zeros: "foldl crc32_update d (replicate n 0) = (crc32_bit ^^ (8 * n)) d"
proof (induction n arbitrary: d)
  case 0
  then show ?case by simp
next
  case (Suc n)
  have "8 * Suc n = 8 * n + 8" by simp
  then have "(crc32_bit ^^ (8 * Suc n)) d = (crc32_bit ^^ (8 * n)) ((crc32_bit ^^ 8) d)"
    by (simp only: funpow_add o_apply)
  with Suc show ?case by (simp add: crc32_update_def)
qed

lemma xor_bytes_self: "xor_bytes xs xs = replicate (length xs) 0"
  by (induction xs) (simp_all add: xor_bytes_def)

lemma xor_bytes_append:
  "length xs = length ys \<Longrightarrow> xor_bytes (xs @ xs') (ys @ ys') = xor_bytes xs ys @ xor_bytes xs' ys'"
  by (simp add: xor_bytes_def)

lemma xor_bytes_eq_zeros:
  "length xs = length ys \<Longrightarrow> xor_bytes xs ys = replicate (length xs) 0 \<Longrightarrow> xs = ys"
  by (induction xs ys rule: list_induct2) (auto simp: xor_bytes_def xor_eq_0_iff)

subsection \<open>Bursts\<close>

text \<open>On a register whose low bits are zero the bit step is a plain shift.\<close>

lemma crc32_bit_push1:
  assumes "\<not> bit w 31"
  shows "crc32_bit (push_bit 1 w) = w"
proof -
  have "crc32_bit (push_bit 1 w) = drop_bit 1 (push_bit 1 w)"
    by (simp add: crc32_bit_alt)
  also have "\<dots> = w"
  proof (rule bit_eqI)
    fix n
    show "bit (drop_bit 1 (push_bit 1 w)) n = bit w n"
      using assms bit_imp_le_length [of w n]
      by (cases "n = 31") (auto simp: bit_drop_bit_eq bit_push_bit_iff simp del: push_bit_Suc)
  qed
  finally show ?thesis .
qed

lemma crc32_bit_push:
  assumes "\<And>n. 32 - k \<le> n \<Longrightarrow> \<not> bit w n"
  shows "(crc32_bit ^^ k) (push_bit k w) = w"
  using assms
proof (induction k)
  case 0
  then show ?case by simp
next
  case (Suc k)
  have "\<not> bit (push_bit k w) 31"
    using Suc.prems [of "31 - k"] by (auto simp: bit_push_bit_iff)
  then have "crc32_bit (push_bit (Suc k) w) = push_bit k w"
    using crc32_bit_push1 [of "push_bit k w"] by (simp add: push_bit_push_bit del: push_bit_Suc)
  moreover have "(crc32_bit ^^ k) (push_bit k w) = w"
    using Suc.prems by (intro Suc.IH) simp
  ultimately show ?case
    by (simp add: funpow_swap1 del: push_bit_Suc)
qed

text \<open>
  \<open>low_bits k w\<close>: only the low \<open>k\<close> bits of the register can be set. A register that
  reaches such a value in eight bit steps was that value, shifted up.
\<close>

definition low_bits :: "nat \<Rightarrow> u32 \<Rightarrow> bool" where
  "low_bits k w \<longleftrightarrow> take_bit k w = w"

lemma low_bits_bit: "low_bits k w \<Longrightarrow> k \<le> n \<Longrightarrow> \<not> bit w n"
  unfolding low_bits_def by (metis bit_take_bit_iff leD)

lemma low_bitsI: "(\<And>n. k \<le> n \<Longrightarrow> \<not> bit w n) \<Longrightarrow> low_bits k w"
  unfolding low_bits_def by (rule bit_eqI) (meson bit_take_bit_iff not_less)

lemma low_bits_mono: "low_bits j w \<Longrightarrow> j \<le> k \<Longrightarrow> low_bits k w"
  by (rule low_bitsI) (meson low_bits_bit order_trans)

lemma ucast_byte_eq_0: "(ucast b :: u32) = 0 \<longleftrightarrow> b = 0" for b :: byte
proof
  assume z: "(ucast b :: u32) = 0"
  show "b = 0"
  proof (rule bit_eqI)
    fix n
    assume "possible_bit TYPE(byte) n"
    then have "bit (ucast b :: u32) n = bit b n" by (simp add: bit_ucast_iff)
    with z show "bit b n = bit (0 :: byte) n" by simp
  qed
qed simp

lemma low_bits_byte: "low_bits 8 (ucast b)" for b :: byte
  by (rule low_bitsI) (auto simp: bit_simps dest: bit_imp_le_length)

lemma low_bits_push_xor:
  "low_bits k w \<Longrightarrow> low_bits (8 + k) (ucast b XOR push_bit 8 w)" for b :: byte
proof (rule low_bitsI)
  fix n
  assume w: "low_bits k w" and n: "8 + k \<le> n"
  from n have "\<not> bit (ucast b :: u32) n" by (intro low_bits_bit [OF low_bits_byte]) simp
  moreover from w n have "\<not> bit w (n - 8)" by (intro low_bits_bit) auto
  ultimately show "\<not> bit (ucast b XOR push_bit 8 w) n"
    by (simp add: bit_xor_iff bit_push_bit_iff)
qed

lemma low_bits_push_zero:
  assumes "ucast b = push_bit 8 w" and "low_bits 24 w"
  shows "b = (0 :: byte) \<and> w = 0"
proof -
  have w: "w = 0"
  proof (rule bit_eqI)
    fix n
    show "bit w n = bit (0 :: u32) n"
    proof (cases "n < 24")
      case True
      have "bit (push_bit 8 w) (8 + n) = bit w n"
        using True by (simp add: bit_push_bit_iff)
      with assms(1) low_bits_bit [OF low_bits_byte, of "8 + n" b] show ?thesis by simp
    next
      case False
      with low_bits_bit [OF assms(2)] show ?thesis by simp
    qed
  qed
  with assms(1) have "ucast b = (0 :: u32)" by simp
  then have "b = 0" by (simp add: ucast_byte_eq_0)
  with w show ?thesis by simp
qed

lemma crc32_update_back:
  assumes "crc32_update r b = w" and "low_bits 24 w"
  shows "r = ucast b XOR push_bit 8 w"
proof -
  have "(crc32_bit ^^ 8) (push_bit 8 w) = w"
    using low_bits_bit [OF assms(2)] by (intro crc32_bit_push) simp
  with assms(1) have "(crc32_bit ^^ 8) (r XOR ucast b) = (crc32_bit ^^ 8) (push_bit 8 w)"
    by (simp add: crc32_update_def)
  then have "r XOR ucast b = push_bit 8 w" by (rule crc.iter_inj)
  then show ?thesis by (metis xor.assoc xor.commute xor.right_neutral xor_self_eq)
qed

lemma crc32_window_zero:
  assumes "foldl crc32_update 0 [a, b, c, d] = 0"
  shows "a = 0 \<and> b = 0 \<and> c = 0 \<and> d = 0"
proof -
  let ?ra = "crc32_update 0 a"
  let ?rb = "crc32_update ?ra b"
  let ?rc = "crc32_update ?rb c"
  have z: "low_bits k 0" for k by (rule low_bitsI) simp
  have rc: "?rc = ucast d XOR push_bit 8 0"
    using assms z by (intro crc32_update_back) simp_all
  then have lc: "low_bits 8 ?rc" using low_bits_byte by simp
  then have rb: "?rb = ucast c XOR push_bit 8 ?rc"
    by (intro crc32_update_back) (auto intro: low_bits_mono)
  then have lb: "low_bits 16 ?rb" using low_bits_push_xor [OF lc, of c] by simp
  then have ra: "?ra = ucast b XOR push_bit 8 ?rb"
    by (intro crc32_update_back) (auto intro: low_bits_mono)
  then have la: "low_bits 24 ?ra" using low_bits_push_xor [OF lb, of b] by simp
  have "0 = ucast a XOR push_bit 8 ?ra" by (intro crc32_update_back la) simp
  then have "ucast a = push_bit 8 ?ra" by (metis xor_eq_0_iff)
  from low_bits_push_zero [OF this la] have a: "a = 0" and "?ra = 0" by blast+
  with ra have "ucast b = push_bit 8 ?rb" by (metis xor_eq_0_iff)
  from low_bits_push_zero [OF this low_bits_mono [OF lb]] have b: "b = 0" and "?rb = 0"
    by auto
  with rb have "ucast c = push_bit 8 ?rc" by (metis xor_eq_0_iff)
  from low_bits_push_zero [OF this low_bits_mono [OF lc]] have "c = 0" and "?rc = 0"
    by auto
  moreover from this rc have "ucast d = (0 :: u32)" by simp
  then have "d = 0" by (simp add: ucast_byte_eq_0)
  ultimately show ?thesis using a b by simp
qed

lemma crc32_window_nonzero:
  assumes "length es \<le> 4" and "foldl crc32_update 0 es = 0"
  shows "es = replicate (length es) 0"
proof -
  let ?z = "replicate (4 - length es) 0 @ es"
  have "length ?z = 4" using assms(1) by simp
  then obtain a b c d where z: "?z = [a, b, c, d]" using list_eq_4 by blast
  have "foldl crc32_update 0 ?z = 0"
    using assms(2) by (simp add: crc32_fold_zeros crc.iter_zero)
  then have "foldl crc32_update 0 [a, b, c, d] = 0" by (simp only: z)
  then have "a = 0 \<and> b = 0 \<and> c = 0 \<and> d = 0" by (rule crc32_window_zero)
  then have "set ?z \<subseteq> {0}" unfolding z by simp
  then have "\<forall>e \<in> set es. e = 0" by auto
  then show ?thesis by (metis replicate_eqI)
qed

text \<open>
  Two messages of equal length that differ, and only inside a window of at most four bytes, have
  different checksums.
\<close>

lemma crc32_burst:
  assumes len: "length m = length m'" "length m \<le> 4" and diff: "m \<noteq> m'"
  shows "crc32_compute (p @ m @ q) \<noteq> crc32_compute (p @ m' @ q)"
proof
  let ?f = "foldl crc32_update"
  let ?r = "?f 0xFFFFFFFF p"
  assume "crc32_compute (p @ m @ q) = crc32_compute (p @ m' @ q)"
  then have "?f (?f ?r m) q XOR 0xFFFFFFFF = ?f (?f ?r m') q XOR 0xFFFFFFFF"
    unfolding crc32_compute_def foldl_append .
  then have eq: "?f (?f ?r m) q = ?f (?f ?r m') q" by (rule xor_cancel_right)
  have "?f (?f ?r m XOR ?f ?r m') (xor_bytes q q) = 0"
    unfolding crc32_fold_xor [OF refl] eq by (rule xor_self_eq)
  then have "?f ?r m XOR ?f ?r m' = 0"
    by (auto simp: xor_bytes_self crc32_fold_zeros dest: crc.iter_kernel)
  moreover have "?f ?r m XOR ?f ?r m' = ?f (?r XOR ?r) (xor_bytes m m')"
    by (rule crc32_fold_xor [OF len(1), symmetric])
  ultimately have "?f 0 (xor_bytes m m') = 0" by simp
  moreover have "length (xor_bytes m m') = length m" using len(1) by (simp add: xor_bytes_def)
  ultimately have "xor_bytes m m' = replicate (length m) 0"
    using crc32_window_nonzero [of "xor_bytes m m'"] len(2) by simp
  with len(1) have "m = m'" by (rule xor_bytes_eq_zeros)
  with diff show False by simp
qed

end
