(* ===== verification/Packet.thy ===== *)
theory Packet
  imports Crc32
begin

unbundle bit_operations_syntax

section \<open>The batch format and its validation (packet.hpp)\<close>

text \<open>
  A batch is one byte list: a packed little-endian \<open>PacketHeader\<close> of 20 bytes and a payload. This
  theory models every function of packet.hpp on such lists: a \<open>const void* data\<close> with its
  length is the list of exactly that many bytes, so \<open>received_length\<close> and \<open>available\<close> are the
  length of the list.
\<close>

subsection \<open>Constants and the header\<close>

definition kPacketMagic :: u32 where
  "kPacketMagic = 0x42554450"

definition kMaxPacketLength :: nat where
  "kMaxPacketLength = 64 * 1024"

record packet_header =
  hdr_magic :: u32
  hdr_seq :: u32
  hdr_batch_total :: u32
  hdr_length :: u32
  hdr_crc32 :: u32

text \<open>\<open>sizeof(PacketHeader)\<close> under \<open>#pragma pack(1)\<close>: five 32-bit fields.\<close>

definition kPacketHeaderSize :: nat where
  "kPacketHeaderSize = 20"

text \<open>The memory image of a \<open>uint32_t\<close> on a little-endian machine, and of the packed header.\<close>

definition le32_bytes :: "u32 \<Rightarrow> byte list" where
  "le32_bytes w = [ucast w, ucast (drop_bit 8 w), ucast (drop_bit 16 w), ucast (drop_bit 24 w)]"

definition le32_of :: "byte list \<Rightarrow> u32" where
  "le32_of bs = foldr (\<lambda>b acc. ucast b OR push_bit 8 acc) bs 0"

definition encode_header :: "packet_header \<Rightarrow> byte list" where
  "encode_header h = le32_bytes (hdr_magic h) @ le32_bytes (hdr_seq h) @
     le32_bytes (hdr_batch_total h) @ le32_bytes (hdr_length h) @ le32_bytes (hdr_crc32 h)"

definition read_header :: "byte list \<Rightarrow> packet_header" where
  "read_header bs = \<lparr>
     hdr_magic = le32_of (take 4 bs),
     hdr_seq = le32_of (take 4 (drop 4 bs)),
     hdr_batch_total = le32_of (take 4 (drop 8 bs)),
     hdr_length = le32_of (take 4 (drop 12 bs)),
     hdr_crc32 = le32_of (take 4 (drop 16 bs))\<rparr>"

subsection \<open>The functions of the source\<close>

text \<open>\<open>header->crc32 = w\<close> through a pointer to the start of the batch.\<close>

definition set_crc_field :: "u32 \<Rightarrow> byte list \<Rightarrow> byte list" where
  "set_crc_field w bs = take 16 bs @ le32_bytes w @ drop 20 bs"

definition batch_crc32 :: "byte list \<Rightarrow> u32" where
  "batch_crc32 batch = (let copy = set_crc_field 0 batch in crc32_compute copy)"

definition header_meta_plausible :: "u32 \<Rightarrow> u32 \<Rightarrow> u32 \<Rightarrow> bool" where
  "header_meta_plausible sq btotal len =
     (if btotal = 0 \<or> btotal \<le> sq then False
      else if unat len < kPacketHeaderSize \<or> kMaxPacketLength < unat len then False
      else True)"

text \<open>
  The random source of \<open>build_batch\<close> is a parameter: \<open>byte_dist\<close> takes the generator's state to
  the drawn integer and the next state, as \<open>byte_dist(rng)\<close> does.
\<close>

fun fill_random :: "('g \<Rightarrow> int \<times> 'g) \<Rightarrow> nat \<Rightarrow> 'g \<Rightarrow> byte list \<times> 'g" where
  "fill_random byte_dist 0 rng = ([], rng)"
| "fill_random byte_dist (Suc n) rng =
     (let (v, rng1) = byte_dist rng; (bs, rng2) = fill_random byte_dist n rng1
      in (word_of_int v # bs, rng2))"

datatype build_error = BatchSmallerThanHeader | InvalidSeqBatchTotal

definition build_batch ::
  "('g \<Rightarrow> int \<times> 'g) \<Rightarrow> byte list \<Rightarrow> u32 \<Rightarrow> u32 \<Rightarrow> 'g \<Rightarrow> build_error + (byte list \<times> 'g)" where
  "build_batch byte_dist batch sq btotal rng =
     (if length batch < kPacketHeaderSize then Inl BatchSmallerThanHeader
      else if btotal = 0 \<or> btotal \<le> sq then Inl InvalidSeqBatchTotal
      else
        let (payload, rng') = fill_random byte_dist (length batch - kPacketHeaderSize) rng;
            header = \<lparr>hdr_magic = kPacketMagic, hdr_seq = sq, hdr_batch_total = btotal,
                      hdr_length = of_nat (length batch), hdr_crc32 = 0\<rparr>;
            zeroed = encode_header header @ payload
        in Inr (set_crc_field (batch_crc32 zeroed) zeroed, rng'))"

datatype batch_validation =
  Valid | TooShort | BadMagic | BadLength | BadMeta | BadSession | BadCrc

definition validate_batch :: "byte list \<Rightarrow> batch_validation" where
  "validate_batch data =
     (if length data < kPacketHeaderSize then TooShort
      else let header = read_header data in
        if hdr_magic header \<noteq> kPacketMagic then BadMagic
        else if unat (hdr_length header) \<noteq> length data then BadLength
        else if \<not> header_meta_plausible (hdr_seq header) (hdr_batch_total header) (hdr_length header)
        then BadMeta
        else if hdr_crc32 header \<noteq> batch_crc32 data then BadCrc
        else Valid)"

text \<open>The by-reference \<open>session_batch_total\<close> is returned updated.\<close>

definition validate_batch_session ::
  "packet_header \<Rightarrow> u32 option \<Rightarrow> batch_validation \<times> u32 option" where
  "validate_batch_session header session_batch_total =
     (if \<not> header_meta_plausible (hdr_seq header) (hdr_batch_total header) (hdr_length header)
      then (BadMeta, session_batch_total)
      else case session_batch_total of
        None \<Rightarrow> (Valid, Some (hdr_batch_total header))
      | Some btotal \<Rightarrow>
          if btotal \<noteq> hdr_batch_total header then (BadSession, session_batch_total)
          else (Valid, session_batch_total))"

fun validation_reason :: "batch_validation \<Rightarrow> string" where
  "validation_reason Valid = ''ok''"
| "validation_reason TooShort = ''too short''"
| "validation_reason BadMagic = ''bad magic''"
| "validation_reason BadLength = ''bad length''"
| "validation_reason BadMeta = ''bad meta''"
| "validation_reason BadSession = ''bad session''"
| "validation_reason BadCrc = ''bad crc''"

definition peek_batch_length :: "byte list \<Rightarrow> u32" where
  "peek_batch_length data =
     (if length data < kPacketHeaderSize then 0
      else let header = read_header data in
        if hdr_magic header \<noteq> kPacketMagic then 0
        else if \<not> header_meta_plausible (hdr_seq header) (hdr_batch_total header) (hdr_length header)
        then 0
        else hdr_length header)"

subsection \<open>Byte layout\<close>

lemmas packet_consts = kPacketHeaderSize_def kMaxPacketLength_def

lemma length_le32_bytes [simp]: "length (le32_bytes w) = 4"
  by (simp add: le32_bytes_def)

lemma length_encode_header [simp]: "length (encode_header h) = 20"
  by (simp add: encode_header_def)

lemma byte_split: "ucast (ucast w :: byte) OR push_bit 8 (drop_bit 8 w) = w" for w :: u32
proof (rule bit_eqI)
  fix n
  assume "possible_bit TYPE(u32) n"
  then show "bit (ucast (ucast w :: byte) OR push_bit 8 (drop_bit 8 w)) n = bit w n"
    by (cases "n < 8") (simp_all add: bit_or_iff bit_push_bit_iff bit_ucast_iff bit_drop_bit_eq)
qed

lemma le32_roundtrip [simp, wire_simps]: "le32_of (le32_bytes w) = w"
proof -
  have z: "drop_bit 8 (drop_bit 24 w) = 0"
  proof (rule bit_eqI)
    fix n
    show "bit (drop_bit 8 (drop_bit 24 w)) n = bit (0 :: u32) n"
      using bit_imp_le_length [of w "24 + (8 + n)"] by (auto simp: bit_drop_bit_eq)
  qed
  have "le32_of (le32_bytes w) =
      ucast (ucast w :: byte) OR push_bit 8 (
        ucast (ucast (drop_bit 8 w) :: byte) OR push_bit 8 (
          ucast (ucast (drop_bit 16 w) :: byte) OR push_bit 8 (
            ucast (ucast (drop_bit 24 w) :: byte) OR push_bit 8 (drop_bit 8 (drop_bit 24 w)))))"
    by (simp add: le32_of_def le32_bytes_def z)
  also have "\<dots> = w"
    using byte_split [of "drop_bit 24 w"] byte_split [of "drop_bit 16 w"]
      byte_split [of "drop_bit 8 w"] byte_split [of w] by simp
  finally show ?thesis .
qed

lemma read_encode_header [simp, wire_simps]: "read_header (encode_header h @ rest) = h"
  by (simp add: read_header_def encode_header_def)

lemma read_header_prefix:
  "20 \<le> length xs \<Longrightarrow> read_header (xs @ ys) = read_header xs"
  by (simp add: read_header_def)

lemma read_header_take:
  "20 \<le> n \<Longrightarrow> read_header (take n xs) = read_header xs"
  by (simp add: read_header_def drop_take min_def)

lemma length_set_crc_field [simp]: "20 \<le> length bs \<Longrightarrow> length (set_crc_field w bs) = length bs"
  by (simp add: set_crc_field_def)

lemma set_crc_field_twice [simp]:
  "20 \<le> length bs \<Longrightarrow> set_crc_field v (set_crc_field w bs) = set_crc_field v bs"
  by (simp add: set_crc_field_def)

lemma batch_crc32_set_crc [simp, wire_simps]:
  "20 \<le> length bs \<Longrightarrow> batch_crc32 (set_crc_field w bs) = batch_crc32 bs"
  by (simp add: batch_crc32_def Let_def)

lemma read_header_set_crc [simp, wire_simps]:
  "20 \<le> length bs \<Longrightarrow> read_header (set_crc_field w bs) = (read_header bs)\<lparr>hdr_crc32 := w\<rparr>"
  by (simp add: read_header_def set_crc_field_def drop_take min_def)

lemma drop_set_crc_field [simp]: "20 \<le> length bs \<Longrightarrow> drop 20 (set_crc_field w bs) = drop 20 bs"
  by (simp add: set_crc_field_def)

subsection \<open>What the checks accept\<close>

lemma header_meta_plausible_iff:
  "header_meta_plausible sq btotal len \<longleftrightarrow>
     sq < btotal \<and> 20 \<le> unat len \<and> unat len \<le> 65536"
  by (auto simp: header_meta_plausible_def packet_consts not_le word_le_nat_alt word_less_nat_alt)

lemma validate_batch_Valid_iff:
  "validate_batch data = Valid \<longleftrightarrow>
     20 \<le> length data \<and> length data \<le> 65536 \<and>
     hdr_magic (read_header data) = kPacketMagic \<and>
     unat (hdr_length (read_header data)) = length data \<and>
     hdr_seq (read_header data) < hdr_batch_total (read_header data) \<and>
     hdr_crc32 (read_header data) = batch_crc32 data"
  by (auto simp: validate_batch_def Let_def header_meta_plausible_iff kPacketHeaderSize_def)

lemma peek_batch_length_nz:
  "peek_batch_length data \<noteq> 0 \<longleftrightarrow>
     20 \<le> length data \<and> hdr_magic (read_header data) = kPacketMagic \<and>
     header_meta_plausible (hdr_seq (read_header data)) (hdr_batch_total (read_header data))
       (hdr_length (read_header data))"
  by (auto simp: peek_batch_length_def Let_def header_meta_plausible_iff kPacketHeaderSize_def)

lemma peek_batch_length_eq:
  "peek_batch_length data \<noteq> 0 \<Longrightarrow> peek_batch_length data = hdr_length (read_header data)"
  by (auto simp: peek_batch_length_def Let_def split: if_splits)

lemma peek_batch_length_bounds:
  "peek_batch_length data \<noteq> 0 \<Longrightarrow>
     20 \<le> unat (peek_batch_length data) \<and> unat (peek_batch_length data) \<le> 65536"
  using peek_batch_length_nz [of data] peek_batch_length_eq [of data]
  by (simp add: header_meta_plausible_iff)

lemma peek_batch_length_short [simp]: "length data < 20 \<Longrightarrow> peek_batch_length data = 0"
  by (simp add: peek_batch_length_def kPacketHeaderSize_def)

lemma peek_batch_length_prefix:
  "20 \<le> length xs \<Longrightarrow> peek_batch_length (xs @ ys) = peek_batch_length xs"
  by (simp add: peek_batch_length_def read_header_prefix kPacketHeaderSize_def)

lemma peek_batch_length_take20:
  "20 \<le> length xs \<Longrightarrow> peek_batch_length (take 20 xs) = peek_batch_length xs"
  by (metis append_take_drop_id length_take min_def order_refl peek_batch_length_prefix)

lemma byte_bit: "bit b n \<Longrightarrow> n < 8" for b :: byte
  using bit_imp_le_length [of b n] by simp

lemma le32_bytes_of:
  assumes "length bs = 4"
  shows "le32_bytes (le32_of bs) = bs"
proof -
  obtain a b c d where "bs = [a, b, c, d]" using assms by (metis list_eq_4)
  moreover have "le32_bytes (le32_of [a, b, c, d]) = [a, b, c, d]"
    by (auto simp: le32_bytes_def le32_of_def bit_simps intro!: bit_word_eqI)
      (fastforce dest: byte_bit)+
  ultimately show ?thesis by simp
qed

lemma encode_read_header:
  assumes "20 \<le> length bs"
  shows "encode_header (read_header bs) = take 20 bs"
  using assms take_add [of 4 16 bs] take_add [of 4 12 "drop 4 bs"] take_add [of 4 8 "drop 8 bs"]
    take_add [of 4 4 "drop 12 bs"]
  by (simp add: encode_header_def read_header_def le32_bytes_of)

text \<open>A header that \<open>peek_batch_length\<close> accepts starts with the bytes of the magic number.\<close>

lemma peek_batch_length_magic:
  assumes "peek_batch_length data \<noteq> 0"
  shows "take 4 data = [80, 68, 85, 66]"
proof -
  have "le32_of (take 4 data) = kPacketMagic" "length (take 4 data) = 4"
    using assms by (simp_all add: peek_batch_length_nz read_header_def)
  then have "take 4 data = le32_bytes kPacketMagic" using le32_bytes_of [of "take 4 data"] by simp
  then show ?thesis by (simp add: le32_bytes_def kPacketMagic_def)
qed

lemma validate_batch_session_Valid_iff:
  "fst (validate_batch_session h tot) = Valid \<longleftrightarrow>
     header_meta_plausible (hdr_seq h) (hdr_batch_total h) (hdr_length h) \<and>
     (tot = None \<or> tot = Some (hdr_batch_total h))"
  by (auto simp: validate_batch_session_def split: option.splits)

lemma validate_batch_session_total:
  "fst (validate_batch_session h tot) = Valid \<Longrightarrow>
     snd (validate_batch_session h tot) = Some (hdr_batch_total h)"
  "fst (validate_batch_session h tot) \<noteq> Valid \<Longrightarrow> snd (validate_batch_session h tot) = tot"
  by (auto simp: validate_batch_session_def split: option.splits if_splits)

subsection \<open>Building a batch\<close>

lemma fill_random_length: "length (fst (fill_random d n g)) = n"
  by (induction n arbitrary: g) (simp_all add: split_beta Let_def)

lemma build_batch_ok:
  assumes "kPacketHeaderSize \<le> length batch" and "length batch \<le> kMaxPacketLength"
    and "sq < btotal"
  obtains b where
    "build_batch d batch sq btotal g = Inr (b, snd (fill_random d (length batch - 20) g))"
    and "length b = length batch" and "drop 20 b = fst (fill_random d (length batch - 20) g)"
    and "validate_batch b = Valid"
    and "hdr_seq (read_header b) = sq" and "hdr_batch_total (read_header b) = btotal"
proof -
  obtain pl g' where fr: "fill_random d (length batch - 20) g = (pl, g')" by fastforce
  have pl: "length pl = length batch - 20" using fill_random_length [of d "length batch - 20" g] fr by simp
  define h where "h = \<lparr>hdr_magic = kPacketMagic, hdr_seq = sq, hdr_batch_total = btotal,
                       hdr_length = of_nat (length batch), hdr_crc32 = 0\<rparr>"
  define z where "z = encode_header h @ pl"
  define b where "b = set_crc_field (batch_crc32 z) z"
  have z: "20 \<le> length z" "length z = length batch" "drop 20 z = pl" "read_header z = h"
    using assms(1) pl by (simp_all add: z_def packet_consts)
  have nz: "btotal \<noteq> 0" "\<not> btotal \<le> sq" using assms(3) by auto
  have len: "unat (of_nat (length batch) :: u32) = length batch"
    using assms(2) by (intro unat_of_nat_u32) (simp add: packet_consts)
  have bb: "build_batch d batch sq btotal g = Inr (b, g')"
    using assms nz
    by (simp add: build_batch_def b_def z_def h_def fr kPacketHeaderSize_def Let_def)
  have rh: "read_header b = h\<lparr>hdr_crc32 := batch_crc32 z\<rparr>" using z by (simp add: b_def)
  have v: "validate_batch b = Valid"
    using z assms len by (simp add: validate_batch_Valid_iff rh h_def packet_consts)
      (simp add: b_def)
  show thesis
    by (rule that [of b])
      (use bb v fr z rh in \<open>simp_all add: h_def, simp_all add: b_def\<close>)
qed

subsection \<open>Corruption\<close>

text \<open>
  A batch with a window of bytes replaced, outside the bytes 16 to 19 that hold the checksum: the
  zeroed copies differ in the same window only.
\<close>

lemma batch_crc32_window:
  assumes len: "length m = length m'" "length m \<le> 4" and diff: "m \<noteq> m'"
    and win: "length p + length m \<le> 16 \<or> 20 \<le> length p"
  shows "batch_crc32 (p @ m @ q) \<noteq> batch_crc32 (p @ m' @ q)"
proof (cases "20 \<le> length p")
  case True
  then have "set_crc_field 0 (p @ x @ q) = set_crc_field 0 p @ x @ q" for x
    by (simp add: set_crc_field_def)
  then show ?thesis using crc32_burst [OF len diff] by (simp add: batch_crc32_def)
next
  case False
  with win have w: "length p + length m \<le> 16" by simp
  define q' where "q' = take (16 - length p - length m) q @ le32_bytes 0 @ drop (20 - length p - length m) q"
  have "set_crc_field 0 (p @ x @ q) = p @ x @ q'" if "length x = length m" for x
    using w that by (simp add: set_crc_field_def q'_def)
  then show ?thesis using crc32_burst [OF len diff, of p q'] len by (simp add: batch_crc32_def)
qed

lemma read_crc_window:
  assumes "length m = length m'" and "length p + length m \<le> 16 \<or> 20 \<le> length p"
  shows "hdr_crc32 (read_header (p @ m @ q)) = hdr_crc32 (read_header (p @ m' @ q))"
  using assms by (auto simp: read_header_def)

lemma validate_batch_burst:
  assumes "validate_batch (p @ m @ q) = Valid"
    and len: "length m = length m'" "length m \<le> 4" and diff: "m \<noteq> m'"
    and win: "length p + length m \<le> 16 \<or> 20 \<le> length p"
  shows "validate_batch (p @ m' @ q) \<noteq> Valid"
    and "20 \<le> length p \<Longrightarrow> validate_batch (p @ m' @ q) = BadCrc"
proof -
  have crc: "hdr_crc32 (read_header (p @ m' @ q)) \<noteq> batch_crc32 (p @ m' @ q)"
    using assms(1) batch_crc32_window [OF len diff win] read_crc_window [OF len(1) win]
    by (metis validate_batch_Valid_iff)
  then show "validate_batch (p @ m' @ q) \<noteq> Valid" by (simp add: validate_batch_Valid_iff)
  assume p: "20 \<le> length p"
  then have "read_header (p @ m @ q) = read_header (p @ m' @ q)"
    by (simp add: read_header_prefix)
  moreover have "length (p @ m @ q) = length (p @ m' @ q)" using len by simp
  ultimately show "validate_batch (p @ m' @ q) = BadCrc"
    using assms(1) crc unfolding validate_batch_def
    by (auto simp: Let_def split: if_splits)
qed

end
