(* ===== verification/Samples.thy ===== *)
theory Samples
  imports Packet
begin

section \<open>Sample batches\<close>

text \<open>
  Concrete batches for the theorems that exhibit an input: two batches of a session of two, and a
  batch that is all header. Their checksums are evaluated by the simplifier.
\<close>

definition sample_batch0 :: "byte list" where
  "sample_batch0 = [80, 68, 85, 66, 0, 0, 0, 0, 2, 0, 0, 0, 21, 0, 0, 0, 116, 183, 226, 66, 7]"

definition sample_batch1 :: "byte list" where
  "sample_batch1 = [80, 68, 85, 66, 1, 0, 0, 0, 2, 0, 0, 0, 22, 0, 0, 0, 65, 16, 21, 17, 9, 8]"

definition sample_header_only :: "byte list" where
  "sample_header_only = [80, 68, 85, 66, 0, 0, 0, 0, 1, 0, 0, 0, 20, 0, 0, 0, 102, 186, 113, 228]"

lemma crc32_check_value:
  "crc32_compute [0x31, 0x32, 0x33, 0x34, 0x35, 0x36, 0x37, 0x38, 0x39] = 0xCBF43926"
  by (simp add: crc32_eval)

lemma sample_batch0_header:
  "read_header sample_batch0 = \<lparr>hdr_magic = kPacketMagic, hdr_seq = 0, hdr_batch_total = 2,
     hdr_length = 21, hdr_crc32 = batch_crc32 sample_batch0\<rparr>"
  by (simp add: sample_batch0_def read_header_def le32_of_def kPacketMagic_def batch_crc32_def
      set_crc_field_def le32_bytes_def crc32_eval)

lemma sample_batch1_header:
  "read_header sample_batch1 = \<lparr>hdr_magic = kPacketMagic, hdr_seq = 1, hdr_batch_total = 2,
     hdr_length = 22, hdr_crc32 = batch_crc32 sample_batch1\<rparr>"
  by (simp add: sample_batch1_def read_header_def le32_of_def kPacketMagic_def batch_crc32_def
      set_crc_field_def le32_bytes_def crc32_eval)

lemma sample_header_only_header:
  "read_header sample_header_only = \<lparr>hdr_magic = kPacketMagic, hdr_seq = 0, hdr_batch_total = 1,
     hdr_length = 20, hdr_crc32 = batch_crc32 sample_header_only\<rparr>"
  by (simp add: sample_header_only_def read_header_def le32_of_def kPacketMagic_def batch_crc32_def
      set_crc_field_def le32_bytes_def crc32_eval)

lemma sample_lengths [simp]:
  "length sample_batch0 = 21" "length sample_batch1 = 22" "length sample_header_only = 20"
  by (simp_all add: sample_batch0_def sample_batch1_def sample_header_only_def)

lemma sample_valid [simp]:
  "validate_batch sample_batch0 = Valid" "validate_batch sample_batch1 = Valid"
  "validate_batch sample_header_only = Valid"
  by (simp_all add: validate_batch_Valid_iff sample_batch0_header sample_batch1_header
      sample_header_only_header)

end
