(* ===== verification/Wire_Properties.thy ===== *)
theory Wire_Properties
  imports Samples
begin

section \<open>Properties of the batch format\<close>

text \<open>
  What the sender's \<open>build_batch\<close> and the receiver's \<open>validate_batch\<close> of packet.hpp
  guarantee together: every built batch is accepted and read back, nothing else is accepted, and
  damage within four bytes is always detected.
\<close>

text \<open>
  C18. Round trip: \<open>build_batch\<close> succeeds for every buffer of a legal size and every sequence
  number below the total, with any random source, and the batch it leaves in the buffer passes
  \<open>validate_batch\<close>, has the size of the buffer, and its header gives back the sequence number,
  the total and the length. \<open>peek_batch_length\<close> agrees.
\<close>

theorem build_batch_roundtrip:
  assumes "kPacketHeaderSize \<le> length batch" and "length batch \<le> kMaxPacketLength"
    and "sq < btotal"
  shows "\<exists>b rng'. build_batch byte_dist batch sq btotal rng = Inr (b, rng') \<and>
    length b = length batch \<and> validate_batch b = Valid \<and>
    hdr_seq (read_header b) = sq \<and> hdr_batch_total (read_header b) = btotal \<and>
    unat (peek_batch_length b) = length batch"
proof (rule build_batch_ok [OF assms])
  fix b assume b: "build_batch byte_dist batch sq btotal rng =
      Inr (b, snd (fill_random byte_dist (length batch - 20) rng))"
    "length b = length batch" "validate_batch b = Valid"
    "hdr_seq (read_header b) = sq" "hdr_batch_total (read_header b) = btotal"
  have "peek_batch_length b \<noteq> 0"
    using b(3) unfolding peek_batch_length_nz validate_batch_Valid_iff header_meta_plausible_iff
    by metis
  then have "peek_batch_length b = hdr_length (read_header b)" by (rule peek_batch_length_eq)
  moreover have "unat (hdr_length (read_header b)) = length b"
    using b(3) unfolding validate_batch_Valid_iff by blast
  ultimately have "unat (peek_batch_length b) = length batch" using b(2) by (simp only:)
  with b show ?thesis by (intro exI conjI)
qed

theorem build_batch_roundtrip_witness:
  "\<exists>b rng'. build_batch (\<lambda>g. (int g, g + 1)) (replicate 25 0) 3 4 (250 :: nat) = Inr (b, rng') \<and>
     length b = length (replicate 25 (0 :: byte)) \<and> validate_batch b = Valid \<and>
     hdr_seq (read_header b) = 3 \<and> hdr_batch_total (read_header b) = 4 \<and>
     unat (peek_batch_length b) = length (replicate 25 (0 :: byte))"
  by (rule build_batch_roundtrip) (simp_all add: packet_consts)

text \<open>
  \<open>build_batch\<close> throws exactly on a buffer smaller than a header, and otherwise exactly when
  the sequence number is not below the total (a total of zero included).
\<close>

theorem build_batch_errors:
  "build_batch byte_dist batch sq btotal rng =
     (if length batch < 20 then Inl BatchSmallerThanHeader
      else if btotal \<le> sq then Inl InvalidSeqBatchTotal
      else Inr (projr (build_batch byte_dist batch sq btotal rng)))"
  by (auto simp: build_batch_def kPacketHeaderSize_def Let_def split: prod.splits)

text \<open>
  A random source that replays a given list of bytes: every payload is one that
  \<open>build_batch\<close> can draw.
\<close>

definition replay :: "byte list \<Rightarrow> int \<times> byte list" where
  "replay bs = (uint (hd bs), tl bs)"

lemma fill_random_replay:
  "n \<le> length bs \<Longrightarrow> fill_random replay n bs = (take n bs, drop n bs)"
proof (induction n arbitrary: bs)
  case 0
  then show ?case by simp
next
  case (Suc n)
  then obtain c cs where "bs = c # cs" by (cases bs) auto
  with Suc show ?case by (simp add: replay_def)
qed

lemma validate_batch_build:
  assumes "validate_batch b = Valid"
  shows "build_batch replay b (hdr_seq (read_header b)) (hdr_batch_total (read_header b)) (drop 20 b) =
    Inr (b, [])"
proof -
  let ?h = "read_header b"
  have v: "20 \<le> length b" "length b \<le> 65536" "hdr_magic ?h = kPacketMagic"
    "unat (hdr_length ?h) = length b" "hdr_seq ?h < hdr_batch_total ?h"
    "hdr_crc32 ?h = batch_crc32 b"
    using assms by (simp_all add: validate_batch_Valid_iff)
  have len: "of_nat (length b) = hdr_length ?h" by (simp flip: v(4))
  define z where "z = encode_header (?h\<lparr>hdr_crc32 := 0\<rparr>) @ drop 20 b"
  have b: "b = encode_header ?h @ drop 20 b" using v(1) by (simp add: encode_read_header)
  have "set_crc_field 0 b = z"
    by (subst b) (simp add: set_crc_field_def z_def encode_header_def)
  then have crc: "batch_crc32 z = hdr_crc32 ?h" using v(1,6) by (metis batch_crc32_set_crc)
  have "set_crc_field (batch_crc32 z) z = encode_header ?h @ drop 20 b"
    unfolding crc by (simp add: set_crc_field_def z_def encode_header_def)
  then have s: "set_crc_field (batch_crc32 z) z = b" using b by simp
  have "\<lparr>hdr_magic = kPacketMagic, hdr_seq = hdr_seq ?h, hdr_batch_total = hdr_batch_total ?h,
      hdr_length = of_nat (length b), hdr_crc32 = 0\<rparr> = ?h\<lparr>hdr_crc32 := 0\<rparr>"
    using v(3) len by simp
  moreover have "hdr_batch_total ?h \<noteq> 0" "\<not> hdr_batch_total ?h \<le> hdr_seq ?h" using v(5) by auto
  ultimately show ?thesis
    using v(1) s by (simp add: build_batch_def fill_random_replay kPacketHeaderSize_def Let_def z_def)
qed

text \<open>
  C19. \<open>validate_batch\<close> accepts exactly what \<open>build_batch\<close> can produce in a buffer of at most
  64 KiB: every accepted byte string is the batch built for some sequence number and total from
  some payload drawn by the random source.
\<close>

theorem validate_batch_accepts_exactly_built:
  "validate_batch b = Valid \<longleftrightarrow>
     length b \<le> kMaxPacketLength \<and>
     (\<exists>buf sq btotal payload. length buf = length b \<and>
        build_batch replay buf sq btotal payload = Inr (b, []))" (is "_ \<longleftrightarrow> ?built")
proof
  assume "validate_batch b = Valid"
  with validate_batch_build [OF this] show ?built
    by (auto simp: validate_batch_Valid_iff packet_consts)
next
  assume ?built
  then obtain buf sq btotal payload where l: "length b \<le> kMaxPacketLength" "length buf = length b"
    and e: "build_batch replay buf sq btotal payload = Inr (b, [])" by blast
  from e have c: "kPacketHeaderSize \<le> length buf" "sq < btotal"
    by (auto simp: build_batch_def not_le split: if_splits)
  with l obtain b' where "build_batch replay buf sq btotal payload =
      Inr (b', snd (fill_random replay (length buf - 20) payload))" "validate_batch b' = Valid"
    using build_batch_ok [of buf sq btotal replay payload] by metis
  with e show "validate_batch b = Valid" by simp
qed

text \<open>A change inside the checksum field alone changes the field and nothing that it covers.\<close>

lemma validate_batch_crc_field:
  assumes "validate_batch (p @ m @ q) = Valid" and "length m = length m'" and "m \<noteq> m'"
    and "16 \<le> length p" and "length p + length m \<le> 20"
  shows "validate_batch (p @ m' @ q) = BadCrc"
proof -
  have len: "20 \<le> length (p @ m @ q)" using assms(1) by (auto simp: validate_batch_Valid_iff)
  have covered: "take 16 (p @ m' @ q) = take 16 (p @ m @ q)" "drop 20 (p @ m' @ q) = drop 20 (p @ m @ q)"
    using assms(2,4,5) by simp_all
  then have crc: "batch_crc32 (p @ m' @ q) = batch_crc32 (p @ m @ q)"
    by (simp add: batch_crc32_def set_crc_field_def del: take_append drop_append)
  have rest: "take n (drop k (p @ m' @ q)) = take n (drop k (p @ m @ q))" if "k + n \<le> 16" for k n
    using that assms(4) by simp
  have "take 4 (drop 16 (p @ m' @ q)) \<noteq> take 4 (drop 16 (p @ m @ q))"
  proof
    assume "take 4 (drop 16 (p @ m' @ q)) = take 4 (drop 16 (p @ m @ q))"
    then have "take 20 (p @ m' @ q) = take 20 (p @ m @ q)"
      using covered(1) take_add [of 16 4 "p @ m' @ q"] take_add [of 16 4 "p @ m @ q"] by simp
    then have "p @ m' @ q = p @ m @ q" using covered(2) by (metis append_take_drop_id)
    then show False using assms(2,3) by simp
  qed
  moreover have "length (take 4 (drop 16 (p @ x @ q))) = 4" if "length x = length m" for x
    using len that by (simp del: take_append drop_append)
  ultimately have "le32_of (take 4 (drop 16 (p @ m' @ q))) \<noteq> le32_of (take 4 (drop 16 (p @ m @ q)))"
    using le32_bytes_of [of "take 4 (drop 16 (p @ m' @ q))"] le32_bytes_of [of "take 4 (drop 16 (p @ m @ q))"] assms(2)
    by metis
  then have "hdr_crc32 (read_header (p @ m' @ q)) \<noteq> hdr_crc32 (read_header (p @ m @ q))"
    unfolding read_header_def packet_header.simps .
  moreover have "(read_header (p @ m' @ q))\<lparr>hdr_crc32 := 0\<rparr> = (read_header (p @ m @ q))\<lparr>hdr_crc32 := 0\<rparr>"
    using rest [of 0 4] by (simp add: read_header_def rest del: take_append drop_append)
  then have "hdr_magic (read_header (p @ m' @ q)) = hdr_magic (read_header (p @ m @ q))"
    "hdr_seq (read_header (p @ m' @ q)) = hdr_seq (read_header (p @ m @ q))"
    "hdr_batch_total (read_header (p @ m' @ q)) = hdr_batch_total (read_header (p @ m @ q))"
    "hdr_length (read_header (p @ m' @ q)) = hdr_length (read_header (p @ m @ q))"
    by (cases "read_header (p @ m' @ q)"; cases "read_header (p @ m @ q)"; simp)+
  ultimately show ?thesis
    using assms(1) crc assms(2) unfolding validate_batch_def by (auto simp: Let_def split: if_splits)
qed

text \<open>
  C20. Local damage is detected: a valid batch in which a window of at most four consecutive bytes has
  been changed never passes \<open>validate_batch\<close> if the window lies in the header before the checksum
  field, inside the checksum field, or in the payload; from the checksum field on the damage is
  reported as a bad checksum. Windows that reach across the boundary of the field are not covered,
  and \<open>straddling_damage_passes\<close> shows that they cannot be.
\<close>

theorem burst_damage_is_detected:
  assumes "validate_batch (p @ m @ q) = Valid" and "length m = length m'" and "length m \<le> 4"
    and "m \<noteq> m'"
    and "length p + length m \<le> 16 \<or> (16 \<le> length p \<and> length p + length m \<le> 20) \<or> 20 \<le> length p"
  shows "validate_batch (p @ m' @ q) \<noteq> Valid \<and>
    (16 \<le> length p \<and> 0 < length m \<longrightarrow> validate_batch (p @ m' @ q) = BadCrc)"
proof (cases "16 \<le> length p \<and> length p + length m \<le> 20")
  case True
  then show ?thesis using validate_batch_crc_field [OF assms(1,2,4)] by simp
next
  case False
  then have w: "length p + length m \<le> 16 \<or> 20 \<le> length p" using assms(5) by blast
  then have "16 \<le> length p \<and> 0 < length m \<longrightarrow> 20 \<le> length p" by linarith
  with validate_batch_burst [OF assms(1-4) w] show ?thesis by blast
qed

text \<open>
  Two valid batches that differ in the last three bytes of the checksum and the first of the payload.
\<close>

lemma straddling_damage_passes:
  "let p = [80, 68, 85, 66, 0, 0, 0, 0, 1, 0, 0, 0, 25, 0, 0, 0, 255]; q = [0, 0, 0, 0] in
     validate_batch (p @ [143, 146, 138, 0] @ q) = Valid \<and> validate_batch (p @ [116, 180, 233, 151] @ q) = Valid"
  by (simp add: Let_def validate_batch_Valid_iff read_header_def le32_of_def kPacketMagic_def batch_crc32_def
      set_crc_field_def le32_bytes_def crc32_eval packet_consts)

theorem burst_damage_is_detected_witness:
  "validate_batch (take 20 sample_batch1 @ [6, 8]) = BadCrc"
proof -
  have "sample_batch1 = take 20 sample_batch1 @ [9, 8] @ []" by (simp add: sample_batch1_def)
  then have "validate_batch (take 20 sample_batch1 @ [9, 8] @ []) = Valid"
    using sample_valid(2) by (simp only: simp_thms)
  from burst_damage_is_detected [OF this, of "[6, 8]"] show ?thesis by simp
qed

text \<open>
  The session check agrees with the first batch of a session and no other: the first plausible
  header fixes the total, afterwards exactly the plausible headers with that total pass, and no
  rejected header changes it.
\<close>

theorem session_check_follows_first_header:
  "validate_batch_session h tot =
     (if \<not> (hdr_seq h < hdr_batch_total h \<and> 20 \<le> unat (hdr_length h) \<and> unat (hdr_length h) \<le> 65536)
      then (BadMeta, tot)
      else if tot = None \<or> tot = Some (hdr_batch_total h) then (Valid, Some (hdr_batch_total h))
      else (BadSession, tot))"
  by (auto simp: validate_batch_session_def header_meta_plausible_iff split: option.splits)

end
