(* ===== verification/Sockaddr.thy ===== *)
theory Sockaddr
  imports Prelude
begin

unbundle bit_operations_syntax

section \<open>Addresses (uso_send_win.cpp, uso_recv_win.cpp)\<close>

text \<open>
  The conversions between Boost's endpoints and the socket API's address structures. A Boost address
  is modelled by what the sources read of it: the family, \<open>to_bytes()\<close> and for version 6 the
  scope id. A \<open>sockaddr_storage\<close> is the structure the code has overlaid on it; ports in it are in
  network byte order.
\<close>

datatype ip_address = V4 "byte list" | V6 "byte list" u32

fun is_v4 :: "ip_address \<Rightarrow> bool" where
  "is_v4 (V4 _) = True"
| "is_v4 (V6 _ _) = False"

fun address_bytes :: "ip_address \<Rightarrow> byte list" where
  "address_bytes (V4 bs) = bs"
| "address_bytes (V6 bs _) = bs"

text \<open>Boost's types hold 4 and 16 bytes.\<close>

fun address_ok :: "ip_address \<Rightarrow> bool" where
  "address_ok (V4 bs) = (length bs = 4)"
| "address_ok (V6 bs _) = (length bs = 16)"

record endpoint =
  ep_address :: ip_address
  ep_port :: u16

datatype sockaddr =
    SaNone
  | SaIn u16 "byte list"
  | SaIn6 u16 "byte list" u32

definition AF_INET :: u16 where "AF_INET = 2"
definition AF_INET6 :: u16 where "AF_INET6 = 23"

fun ss_family :: "sockaddr \<Rightarrow> u16" where
  "ss_family SaNone = 0"
| "ss_family (SaIn _ _) = AF_INET"
| "ss_family (SaIn6 _ _ _) = AF_INET6"

definition sizeof_sockaddr_in :: int where "sizeof_sockaddr_in = 16"
definition sizeof_sockaddr_in6 :: int where "sizeof_sockaddr_in6 = 28"

text \<open>On a little-endian machine \<open>htons\<close> and \<open>ntohs\<close> swap the two bytes.\<close>

definition htons :: "u16 \<Rightarrow> u16" where
  "htons w = push_bit 8 w OR drop_bit 8 w"

definition ntohs :: "u16 \<Rightarrow> u16" where
  "ntohs w = htons w"

lemma ntohs_htons [simp]: "ntohs (htons w) = w"
proof (rule bit_eqI)
  fix n
  assume "possible_bit TYPE(u16) n"
  then have "n < 16" by simp
  then show "bit (ntohs (htons w)) n = bit w n"
    using bit_imp_le_length [of w "16 + n"] bit_imp_le_length [of w "8 + n"]
    by (cases "n < 8") (auto simp: ntohs_def htons_def bit_or_iff bit_push_bit_iff bit_drop_bit_eq)
qed

subsection \<open>The conversions\<close>

definition endpoint_to_sockaddr :: "endpoint \<Rightarrow> (sockaddr \<times> int) option" where
  "endpoint_to_sockaddr target =
     (case ep_address target of
        V4 native \<Rightarrow> Some (SaIn (htons (ep_port target)) native, sizeof_sockaddr_in)
      | V6 native scope \<Rightarrow>
          Some (SaIn6 (htons (ep_port target)) native scope, sizeof_sockaddr_in6))"

fun to_sockaddr_v4 :: "byte list \<Rightarrow> sockaddr" where
  "to_sockaddr_v4 bytes = SaIn 0 bytes"

fun to_sockaddr_v6 :: "byte list \<Rightarrow> u32 \<Rightarrow> sockaddr" where
  "to_sockaddr_v6 bytes scope = SaIn6 0 bytes scope"

definition sockaddr_to_endpoint :: "sockaddr \<Rightarrow> int \<Rightarrow> endpoint option" where
  "sockaddr_to_endpoint storage storage_len =
     (case storage of
        SaIn port bytes \<Rightarrow>
          if ss_family storage = AF_INET \<and> sizeof_sockaddr_in \<le> storage_len
          then Some \<lparr>ep_address = V4 bytes, ep_port = ntohs port\<rparr> else None
      | SaIn6 port bytes scope \<Rightarrow>
          if ss_family storage = AF_INET6 \<and> sizeof_sockaddr_in6 \<le> storage_len
          then Some \<lparr>ep_address = V6 bytes scope, ep_port = ntohs port\<rparr> else None
      | SaNone \<Rightarrow> None)"

lemma sockaddr_roundtrip:
  "endpoint_to_sockaddr e = Some (sa, n) \<Longrightarrow> sockaddr_to_endpoint sa n = Some e"
  by (cases e) (auto simp: endpoint_to_sockaddr_def sockaddr_to_endpoint_def split: ip_address.splits)

lemma endpoint_to_sockaddr_total: "\<exists>sa n. endpoint_to_sockaddr e = Some (sa, n) \<and>
    (n = sizeof_sockaddr_in \<longleftrightarrow> is_v4 (ep_address e))"
  by (cases "ep_address e")
    (simp_all add: endpoint_to_sockaddr_def sizeof_sockaddr_in_def sizeof_sockaddr_in6_def)

end
