(* ===== verification/Common.thy ===== *)
theory Common
  imports Sockaddr Packet
begin

section \<open>Shared constants and parsers (common.hpp)\<close>

text \<open>
  The limits both programs share and the parsers for the values of options. Exceptions are values
  of \<open>cli_error\<close>, which also lists those of the option parsers of cli.hpp. The platform,
  \<open>_WIN32\<close> or not, is an argument. \<open>boost::asio::ip::make_address\<close> is a parameter.
\<close>

datatype platform = Windows | Linux

datatype cli_error =
    StoInvalidArgument
  | StoOutOfRange
  | PortOutOfRange
  | BatchSizeOutOfRange
  | MssOutOfRange
  | CountZero
  | MissingValue string
  | UnexpectedArgument string
  | UnknownOption string
  | LoopWithCount
  | PortRequired
  | UroOnlyOnWindows
  | DestRequired
  | SizeRequired
  | MssTooLarge
  | SizeTooLarge

text \<open>The error codes of Boost.Asio that the programs tell apart.\<close>

datatype error_code = TimedOut | TryAgain | WouldBlock | OtherError int

subsection \<open>Constants\<close>

definition kMaxBatchSize :: nat where
  "kMaxBatchSize = 64 * 1024"

definition kDefaultMss :: nat where
  "kDefaultMss = 1400"

subsection \<open>Numbers\<close>

text \<open>
  \<open>std::stoul\<close> and \<open>std::stoull\<close> in base 10 for an unsigned result of \<open>w\<close> bits: leading
  white space and one sign are skipped, the longest run of digits is converted, what follows is
  ignored. No digit is \<open>invalid_argument\<close>, a magnitude that does not fit is \<open>out_of_range\<close>, and
  a minus sign negates modulo \<open>2 ^ w\<close>, as \<open>strtoul\<close> does. \<open>unsigned long\<close> has 32 bits on
  Windows and 64 bits on Linux.
\<close>

definition is_space :: "char \<Rightarrow> bool" where
  "is_space c \<longleftrightarrow> (let n = (of_char c :: nat) in n = 32 \<or> (9 \<le> n \<and> n \<le> 13))"

definition sto_unsigned :: "nat \<Rightarrow> string \<Rightarrow> cli_error + nat" where
  "sto_unsigned w text =
     (let s1 = dropWhile is_space text;
          (negative, s2) = (case s1 of
             [] \<Rightarrow> (False, s1)
           | c # r \<Rightarrow> if c = CHR ''-'' then (True, r) else if c = CHR ''+'' then (False, r) else (False, s1));
          digits = takeWhile is_digit s2
      in if digits = [] then Inl StoInvalidArgument
         else let v = digits_value digits in
           if 2 ^ w \<le> v then Inl StoOutOfRange
           else Inr (if negative then (2 ^ w - v) mod 2 ^ w else v))"

definition stoul :: "platform \<Rightarrow> string \<Rightarrow> cli_error + nat" where
  "stoul pf = sto_unsigned (case pf of Windows \<Rightarrow> 32 | Linux \<Rightarrow> 64)"

definition stoull :: "string \<Rightarrow> cli_error + nat" where
  "stoull = sto_unsigned 64"

definition parse_port :: "platform \<Rightarrow> string \<Rightarrow> cli_error + u16" where
  "parse_port pf text = then_do (stoul pf text)
     (\<lambda>v. if 65535 < v then Inl PortOutOfRange else Inr (of_nat v))"

definition parse_batch_size :: "string \<Rightarrow> cli_error + nat" where
  "parse_batch_size text = then_do (stoull text)
     (\<lambda>v. if v < kPacketHeaderSize \<or> kMaxBatchSize < v then Inl BatchSizeOutOfRange else Inr v)"

definition parse_mss :: "string \<Rightarrow> cli_error + nat" where
  "parse_mss text = then_do (stoull text)
     (\<lambda>v. if kMaxBatchSize < v then Inl MssOutOfRange else Inr v)"

definition parse_count :: "string \<Rightarrow> cli_error + nat" where
  "parse_count text = then_do (stoull text) (\<lambda>v. if v = 0 then Inl CountZero else Inr v)"

definition parse_address :: "(string \<Rightarrow> 'e + ip_address) \<Rightarrow> string \<Rightarrow> 'e + ip_address" where
  "parse_address make_address text =
     (if text = ''*'' \<or> text = ''0.0.0.0'' \<or> text = ''0'' then Inr (V4 (replicate 4 0))
      else if text = ''::'' \<or> text = ''0:0:0:0:0:0:0:0'' then Inr (V6 (replicate 16 0) 0)
      else make_address text)"

end
