(* ===== verification/Stats.thy ===== *)
theory Stats
  imports Prelude
begin

section \<open>The server's counters (server.cpp)\<close>

text \<open>
  \<open>ServerStats\<close> with the functions that update and report it: \<open>track_sequence\<close>,
  \<open>finalize_lost\<close>, \<open>print_summary\<close> and \<open>infer_detected_mss\<close>. The counters are \<open>nat\<close>
  (they count packets, a 64-bit \<open>size_t\<close> does not overflow); sequence numbers are 32-bit words,
  because the loop of \<open>finalize_lost\<close> wraps around. The set of seen numbers is a set.
\<close>

subsection \<open>State and operations\<close>

record server_stats =
  batches :: nat
  fragments :: nat
  bad_batches :: nat
  lost :: nat
  duplicates :: nat
  out_of_order :: nat
  seen_seq :: "u32 set"
  have_seq :: bool
  highest_seq :: u32
  wire_batch_total :: "u32 option"

definition init_stats :: server_stats where
  "init_stats = \<lparr>batches = 0, fragments = 0, bad_batches = 0, lost = 0, duplicates = 0,
     out_of_order = 0, seen_seq = {}, have_seq = False, highest_seq = 0, wire_batch_total = None\<rparr>"

definition track_sequence :: "server_stats \<Rightarrow> u32 \<Rightarrow> server_stats" where
  "track_sequence stats sq =
     (if sq \<in> seen_seq stats then stats\<lparr>duplicates := duplicates stats + 1\<rparr>
      else
        let stats1 = (if have_seq stats \<and> sq < highest_seq stats
                      then stats\<lparr>out_of_order := out_of_order stats + 1\<rparr> else stats);
            stats2 = stats1\<lparr>seen_seq := insert sq (seen_seq stats1)\<rparr>
        in if \<not> have_seq stats2 then stats2\<lparr>have_seq := True, highest_seq := sq\<rparr>
           else stats2\<lparr>highest_seq := max (highest_seq stats2) sq\<rparr>)"

text \<open>
  The counting loop of \<open>finalize_lost\<close>, \<open>for (seq = 0; seq <= upper; ++seq)\<close> on
  \<open>uint32_t\<close>: \<open>None\<close> is a loop that does not end.
\<close>

partial_function (option) lost_loop :: "u32 \<Rightarrow> u32 \<Rightarrow> u32 set \<Rightarrow> nat \<Rightarrow> nat option" where
  "lost_loop sq upper seen n =
     (if sq \<le> upper then lost_loop (sq + 1) upper seen (if sq \<notin> seen then n + 1 else n)
      else Some n)"

text \<open>The last sequence number to look at, or \<open>None\<close> for the early returns.\<close>

definition lost_upper :: "server_stats \<Rightarrow> nat option \<Rightarrow> u32 option" where
  "lost_upper stats cli_batch_count =
     (case cli_batch_count of
        Some n \<Rightarrow> if n = 0 then None else Some (of_nat (n - 1))
      | None \<Rightarrow>
          (case wire_batch_total stats of
             Some t \<Rightarrow> Some (t - 1)
           | None \<Rightarrow> if have_seq stats then Some (highest_seq stats) else None))"

definition finalize_lost :: "server_stats \<Rightarrow> nat option \<Rightarrow> server_stats option" where
  "finalize_lost stats cli_batch_count =
     (case lost_upper stats cli_batch_count of
        None \<Rightarrow> Some stats
      | Some upper \<Rightarrow>
          map_option (\<lambda>n. stats\<lparr>lost := n\<rparr>) (lost_loop 0 upper (seen_seq stats) (lost stats)))"

definition print_summary :: "server_stats \<Rightarrow> string" where
  "print_summary stats =
     ''batches='' @ show_nat (batches stats) @
     '' frags='' @ show_nat (fragments stats) @
     '' bad='' @ show_nat (bad_batches stats) @
     '' lost='' @ show_nat (lost stats) @
     '' dup='' @ show_nat (duplicates stats) @
     '' ooo='' @ show_nat (out_of_order stats) @ [CHR 0x0A]"

text \<open>
  \<open>infer_detected_mss\<close>: one pass over the slice sizes, counting each value's occurrences.
\<close>

definition mss_step :: "nat list \<Rightarrow> nat \<times> nat \<Rightarrow> nat \<Rightarrow> nat \<times> nat" where
  "mss_step sizes = (\<lambda>(best, best_count) v.
     let c = count_list sizes v in
     if best_count < c \<or> (c = best_count \<and> best < v) then (v, c) else (best, best_count))"

definition infer_detected_mss :: "nat list \<Rightarrow> nat option" where
  "infer_detected_mss sizes =
     (if length sizes < 2 then None
      else Some (fst (foldl (mss_step sizes) (hd sizes, 0) sizes)))"

subsection \<open>Tracking sequence numbers\<close>

text \<open>
  The invariant of the counters: every accepted batch is a new sequence number or a duplicate,
  the maximum is up to date, and no number reaches the session's total.
\<close>

definition stats_inv :: "server_stats \<Rightarrow> bool" where
  "stats_inv st \<longleftrightarrow>
     finite (seen_seq st) \<and>
     batches st = card (seen_seq st) + duplicates st \<and>
     (have_seq st \<longleftrightarrow> seen_seq st \<noteq> {}) \<and>
     (seen_seq st \<noteq> {} \<longrightarrow> highest_seq st = Max (seen_seq st)) \<and>
     (case wire_batch_total st of
        None \<Rightarrow> seen_seq st = {}
      | Some t \<Rightarrow> t \<noteq> 0 \<and> (\<forall>s \<in> seen_seq st. s < t))"

text \<open>What \<open>try_complete_batch\<close> does to the counters when a batch is accepted.\<close>

definition count_batch :: "server_stats \<Rightarrow> u32 \<Rightarrow> server_stats" where
  "count_batch stats sq = (let s = track_sequence stats sq in s\<lparr>batches := batches s + 1\<rparr>)"

lemma stats_inv_init [simp]: "stats_inv init_stats"
  by (simp add: stats_inv_def init_stats_def)

lemma track_sequence_frame [simp, stats_simps]:
  "batches (track_sequence st sq) = batches st"
  "fragments (track_sequence st sq) = fragments st"
  "bad_batches (track_sequence st sq) = bad_batches st"
  "lost (track_sequence st sq) = lost st"
  "wire_batch_total (track_sequence st sq) = wire_batch_total st"
  "seen_seq (track_sequence st sq) = insert sq (seen_seq st)"
  "duplicates (track_sequence st sq) = duplicates st + of_bool (sq \<in> seen_seq st)"
  by (auto simp: track_sequence_def Let_def)

lemma count_batch_frame [simp, stats_simps]:
  "batches (count_batch st sq) = batches st + 1"
  "fragments (count_batch st sq) = fragments st"
  "bad_batches (count_batch st sq) = bad_batches st"
  "lost (count_batch st sq) = lost st"
  "wire_batch_total (count_batch st sq) = wire_batch_total st"
  "seen_seq (count_batch st sq) = insert sq (seen_seq st)"
  "duplicates (count_batch st sq) = duplicates st + of_bool (sq \<in> seen_seq st)"
  "have_seq (count_batch st sq) = have_seq (track_sequence st sq)"
  "highest_seq (count_batch st sq) = highest_seq (track_sequence st sq)"
  "out_of_order (count_batch st sq) = out_of_order (track_sequence st sq)"
  by (simp_all add: count_batch_def Let_def)

lemma stats_inv_count_batch:
  assumes "stats_inv st" and "wire_batch_total st = Some t" and "sq < t"
  shows "stats_inv (count_batch st sq)"
proof (cases "sq \<in> seen_seq st")
  case True
  with assms show ?thesis
    by (simp add: stats_inv_def count_batch_def track_sequence_def insert_absorb)
next
  case False
  have "Max (insert sq (seen_seq st)) = max (Max (seen_seq st)) sq" if "seen_seq st \<noteq> {}"
    using that assms(1) by (simp add: stats_inv_def max.commute)
  with False assms show ?thesis
    by (auto simp: stats_inv_def count_batch_def track_sequence_def Let_def)
qed

subsection \<open>Counting lost batches\<close>

lemma u32_succ:
  fixes sq upper :: u32
  assumes "sq \<le> upper" and "upper \<noteq> - 1"
  shows "unat (sq + 1) = unat sq + 1"
proof -
  have "sq \<noteq> - 1" using assms by (metis word_order.extremum_uniqueI)
  then show ?thesis by (metis add.commute unatSuc Suc_eq_plus1 add_eq_0_iff)
qed

lemma u32_interval_step:
  fixes sq upper :: u32
  assumes "sq \<le> upper" and "upper \<noteq> - 1"
  shows "{s. sq \<le> s \<and> s \<le> upper} = insert sq {s. sq + 1 \<le> s \<and> s \<le> upper}"
    and "sq \<notin> {s. sq + 1 \<le> s \<and> s \<le> upper}"
  using assms u32_succ [OF assms] by (auto simp: word_le_nat_alt intro: word_unat_eq_iff [THEN iffD2])

lemma lost_loop_ends:
  assumes "upper \<noteq> - 1"
  shows "lost_loop sq upper seen n = Some (n + card ({s. sq \<le> s \<and> s \<le> upper} - seen))"
proof (induction "Suc (unat upper) - unat sq" arbitrary: sq n rule: less_induct)
  case less
  show ?case
  proof (cases "sq \<le> upper")
    case True
    let ?n = "if sq \<notin> seen then n + 1 else n"
    have "lost_loop (sq + 1) upper seen ?n =
            Some (?n + card ({s. sq + 1 \<le> s \<and> s \<le> upper} - seen))"
      using True u32_succ [OF True assms] by (intro less) (simp add: word_le_nat_alt)
    moreover have "?n + card ({s. sq + 1 \<le> s \<and> s \<le> upper} - seen) =
        n + card ({s. sq \<le> s \<and> s \<le> upper} - seen)"
      using u32_interval_step(2) [OF True assms]
      by (auto simp: u32_interval_step(1) [OF True assms] insert_Diff_if)
    ultimately show ?thesis using True by (simp add: lost_loop.simps [of sq])
  next
    case False
    then have e: "{s. sq \<le> s \<and> s \<le> upper} = {}" by (auto dest: order_trans)
    show ?thesis using False by (simp add: lost_loop.simps [of sq] e)
  qed
qed

text \<open>With the largest 32-bit bound the counter wraps around and the loop never ends.\<close>

lemma lost_loop_diverges: "lost_loop sq (- 1) seen n = None"
proof (rule ccontr)
  assume "lost_loop sq (- 1) seen n \<noteq> None"
  then obtain r where ret: "lost_loop sq (- 1) seen n = Some r" by blast
  have "(- 1 :: u32) \<noteq> - 1"
  proof (rule lost_loop.raw_induct [where P = "\<lambda>sq upper seen n r. upper \<noteq> - 1", OF _ ret])
    fix f sq upper seen n r
    assume IH: "\<And>sq upper seen n r. f sq upper seen n = Some r \<Longrightarrow> upper \<noteq> (- 1 :: u32)"
      and eq: "(if sq \<le> upper then f (sq + 1) upper seen (if sq \<notin> seen then n + 1 else n)
                else Some n) = Some r"
    show "upper \<noteq> - 1"
    proof (cases "sq \<le> upper")
      case True
      with eq have "f (sq + 1) upper seen (if sq \<notin> seen then n + 1 else n) = Some r" by simp
      then show ?thesis by (rule IH)
    next
      case False
      then show ?thesis by auto
    qed
  qed
  then show False by simp
qed

lemma card_u32_below: "card {s :: u32. s < t} = unat t"
proof -
  have "unat ` {s :: u32. s < t} = {..<unat t}"
  proof (intro equalityI subsetI)
    fix k assume "k \<in> {..<unat t}"
    then have k: "k < unat t" by simp
    then have "unat (of_nat k :: u32) = k"
      using unat_u32_less [of t] by (intro unat_of_nat_u32) simp
    with k show "k \<in> unat ` {s :: u32. s < t}"
      by (intro image_eqI [where x = "of_nat k"]) (auto simp: word_less_nat_alt)
  qed (auto simp: word_less_nat_alt)
  then show ?thesis
    by (metis (no_types, lifting) card_image card_lessThan inj_onI word_unat_eq_iff)
qed

lemma u32_below_pred: "t \<noteq> 0 \<Longrightarrow> {s :: u32. s \<le> t - 1} = {s. s < t}"
  by (auto simp: word_le_nat_alt word_less_nat_alt unat_minus_one)
     (metis Suc_leI Suc_pred not_less unat_gt_0 le_simps(2) less_Suc_eq_le)

lemma finalize_lost_total:
  assumes inv: "stats_inv st" and t: "wire_batch_total st = Some t"
  shows "finalize_lost st None = Some (st\<lparr>lost := lost st + (unat t - card (seen_seq st))\<rparr>)"
proof -
  have nz: "t \<noteq> 0" and sub: "seen_seq st \<subseteq> {s. s < t}" and fin: "finite (seen_seq st)"
    using inv t by (auto simp: stats_inv_def)
  have "card ({s. s < t} - seen_seq st) = unat t - card (seen_seq st)"
    using card_Diff_subset [OF fin sub] by (simp add: card_u32_below)
  moreover have "t - 1 \<noteq> - 1" using nz by simp
  ultimately show ?thesis
    by (simp add: finalize_lost_def lost_upper_def t lost_loop_ends u32_below_pred [OF nz])
qed

text \<open>
  With a count from the command line the bound is \<open>count - 1\<close> cast to 32 bits.
\<close>

lemma u32_below_count:
  assumes "0 < n" and "n \<le> 2 ^ 32"
  shows "{s :: u32. s \<le> of_nat (n - 1)} = {s. unat s < n}"
  using assms unat_of_nat_u32 [of "n - 1"] by (auto simp: word_le_nat_alt)

lemma card_u32_below_count: "n \<le> 2 ^ 32 \<Longrightarrow> card {s :: u32. unat s < n} = n"
proof -
  assume n: "n \<le> 2 ^ 32"
  have "unat ` {s :: u32. unat s < n} = {..<n}"
  proof (intro equalityI subsetI)
    fix k assume "k \<in> {..<n}"
    with n have "unat (of_nat k :: u32) = k" "k < n" by (simp_all add: unat_of_nat_u32)
    then show "k \<in> unat ` {s :: u32. unat s < n}"
      by (intro image_eqI [where x = "of_nat k"]) simp_all
  qed auto
  then show ?thesis
    by (metis (no_types, lifting) card_image card_lessThan inj_onI word_unat_eq_iff)
qed

lemma finalize_lost_count:
  assumes "0 < n" and "n < 2 ^ 32"
  shows "finalize_lost st (Some n) =
    Some (st\<lparr>lost := lost st + (n - card ({s. unat s < n} \<inter> seen_seq st))\<rparr>)"
proof -
  have "of_nat (n - 1) \<noteq> (- 1 :: u32)"
  proof
    assume "of_nat (n - 1) = (- 1 :: u32)"
    then have "unat (of_nat (n - 1) :: u32) = unat (- 1 :: u32)" by simp
    moreover have "unat (of_nat (n - 1) :: u32) = n - 1"
      using assms by (intro unat_of_nat_u32) simp
    ultimately show False using assms unat_max_u32 by linarith
  qed
  moreover have "card ({s :: u32. unat s < n} - seen_seq st) =
      n - card ({s. unat s < n} \<inter> seen_seq st)"
    using assms card_u32_below_count [of n] by (simp add: card_Diff_subset_Int)
  ultimately show ?thesis
    using assms u32_below_count [of n]
    by (simp add: finalize_lost_def lost_upper_def lost_loop_ends)
qed

lemma finalize_lost_None_iff:
  "finalize_lost st cli = None \<longleftrightarrow> lost_upper st cli = Some (- 1)"
proof (cases "lost_upper st cli")
  case None
  then show ?thesis by (simp add: finalize_lost_def)
next
  case (Some upper)
  then show ?thesis
    by (cases "upper = - 1") (simp_all add: finalize_lost_def lost_loop_diverges lost_loop_ends)
qed

subsection \<open>Out-of-order and duplicate counting over a run\<close>

text \<open>
  The counters after a sequence of accepted numbers in terms of the sequence alone: position
  \<open>i\<close> counts as out of order when its number is new and a greater one came before.
\<close>

definition late_positions :: "u32 list \<Rightarrow> nat set" where
  "late_positions sqs =
     {i. i < length sqs \<and> sqs ! i \<notin> set (take i sqs) \<and> (\<exists>j < i. sqs ! i < sqs ! j)}"

lemma late_positions_snoc:
  "late_positions (sqs @ [x]) =
     late_positions sqs \<union> (if x \<notin> set sqs \<and> (\<exists>y \<in> set sqs. x < y) then {length sqs} else {})"
proof -
  have old: "i \<in> late_positions (sqs @ [x]) \<longleftrightarrow> i \<in> late_positions sqs" if i: "i < length sqs" for i
  proof -
    have "(sqs @ [x]) ! k = sqs ! k" if "k \<le> i" for k using that i by (simp add: nth_append)
    with i show ?thesis by (simp add: late_positions_def) (metis less_imp_le)
  qed
  have "(\<exists>j < length sqs. x < (sqs @ [x]) ! j) \<longleftrightarrow> (\<exists>j < length sqs. x < sqs ! j)"
    by (metis nth_append)
  also have "\<dots> \<longleftrightarrow> (\<exists>y \<in> set sqs. x < y)" by (metis in_set_conv_nth)
  finally have new: "length sqs \<in> late_positions (sqs @ [x]) \<longleftrightarrow>
      x \<notin> set sqs \<and> (\<exists>y \<in> set sqs. x < y)"
    by (simp add: late_positions_def)
  have far: "i \<notin> late_positions (sqs @ [x])" "i \<notin> late_positions sqs" if "length sqs < i" for i
    using that by (simp_all add: late_positions_def)
  have mid: "length sqs \<notin> late_positions sqs" by (simp add: late_positions_def)
  show ?thesis
  proof (rule set_eqI)
    fix i
    consider "i < length sqs" | "i = length sqs" | "length sqs < i" by linarith
    then show "i \<in> late_positions (sqs @ [x]) \<longleftrightarrow>
        i \<in> late_positions sqs \<union> (if x \<notin> set sqs \<and> (\<exists>y \<in> set sqs. x < y) then {length sqs} else {})"
      by cases (use old new far mid in auto)
  qed
qed

lemma late_positions_Nil [simp]: "late_positions [] = {}"
  by (simp add: late_positions_def)

lemma late_positions_single [simp]: "late_positions [x] = {}"
  using late_positions_snoc [of "[]" x] by simp

lemma track_sequence_run:
  "let st = foldl track_sequence init_stats sqs in
     seen_seq st = set sqs \<and>
     duplicates st + card (set sqs) = length sqs \<and>
     have_seq st = (sqs \<noteq> []) \<and>
     (sqs \<noteq> [] \<longrightarrow> highest_seq st = Max (set sqs)) \<and>
     out_of_order st = card (late_positions sqs)"
proof (induction sqs rule: rev_induct)
  case Nil
  then show ?case by (simp add: init_stats_def)
next
  case (snoc x sqs)
  let ?st = "foldl track_sequence init_stats sqs"
  have fin: "finite (late_positions sqs)" "length sqs \<notin> late_positions sqs"
    by (auto simp: late_positions_def)
  have mx: "(\<exists>y \<in> set sqs. x < y) \<longleftrightarrow> x < Max (set sqs)" if "sqs \<noteq> []"
    using that by (auto simp: Max_gr_iff)
  have "Max (insert x (set sqs)) = max (Max (set sqs)) x" if "sqs \<noteq> []"
    using that by (simp add: max.commute)
  then show ?case
    using snoc.IH fin mx
    by (cases "sqs = []")
      (auto simp: track_sequence_def Let_def late_positions_snoc [where x = x] late_positions_single
        insert_absorb card_insert_if)
qed

subsection \<open>The inferred segment size\<close>

text \<open>
  A slice size ranks by its number of occurrences, ties by the size: the order in which
  \<open>infer_detected_mss\<close> prefers candidates, as an instance of the library's linear orders.
\<close>

datatype slice_rank = Rank (rank_count: nat) (rank_size: nat)

instantiation slice_rank :: linorder
begin

definition less_eq_slice_rank :: "slice_rank \<Rightarrow> slice_rank \<Rightarrow> bool" where
  "less_eq_slice_rank a b \<longleftrightarrow>
     rank_count a < rank_count b \<or> (rank_count a = rank_count b \<and> rank_size a \<le> rank_size b)"

definition less_slice_rank :: "slice_rank \<Rightarrow> slice_rank \<Rightarrow> bool" where
  "less_slice_rank a b \<longleftrightarrow> a \<le> b \<and> \<not> b \<le> (a :: slice_rank)"

instance
  by standard
    (auto simp: less_eq_slice_rank_def less_slice_rank_def slice_rank.expand)

end

lemma rank_le [simp]: "Rank c v \<le> Rank c' v' \<longleftrightarrow> c < c' \<or> (c = c' \<and> v \<le> v')"
  by (simp add: less_eq_slice_rank_def)

lemma rank_less [simp]: "Rank c v < Rank c' v' \<longleftrightarrow> c < c' \<or> (c = c' \<and> v < v')"
  by (auto simp: less_slice_rank_def)

definition rank_in :: "nat list \<Rightarrow> nat \<Rightarrow> slice_rank" where
  "rank_in sizes v = Rank (count_list sizes v) v"

lemma mss_step_rank:
  "mss_step sizes (b, c) v =
     (if Rank c b < rank_in sizes v then (v, count_list sizes v) else (b, c))"
  by (auto simp: mss_step_def rank_in_def Let_def)

lemma mss_fold_rank:
  assumes "foldl (mss_step sizes) (b0, c0) xs = (b, c)"
  shows "Rank c0 b0 \<le> Rank c b \<and> (\<forall>w \<in> set xs. rank_in sizes w \<le> Rank c b) \<and>
    ((b, c) = (b0, c0) \<or> (b \<in> set xs \<and> c = count_list sizes b))"
  using assms
proof (induction xs arbitrary: b c rule: rev_induct)
  case Nil
  then show ?case by simp
next
  case (snoc x xs)
  obtain b1 c1 where m: "foldl (mss_step sizes) (b0, c0) xs = (b1, c1)" by fastforce
  note IH = snoc.IH [OF m]
  have e: "mss_step sizes (b1, c1) x = (b, c)" using snoc.prems m by simp
  show ?case
  proof (cases "Rank c1 b1 < rank_in sizes x")
    case True
    with e have bc: "b = x" "Rank c b = rank_in sizes x" "c = count_list sizes x"
      by (auto simp: mss_step_rank rank_in_def)
    from True have "Rank c1 b1 \<le> rank_in sizes x" by (rule less_imp_le)
    with IH bc show ?thesis by (auto simp del: rank_le intro: order_trans)
  next
    case False
    with e have "b1 = b" "c1 = c" by (simp_all add: mss_step_rank)
    with IH False show ?thesis by (auto simp del: rank_le rank_less simp: not_less)
  qed
qed

lemma infer_detected_mss_rank:
  assumes "infer_detected_mss sizes = Some v"
  shows "v \<in> set sizes" and "w \<in> set sizes \<Longrightarrow> rank_in sizes w \<le> rank_in sizes v"
proof -
  obtain b c where f: "foldl (mss_step sizes) (hd sizes, 0) sizes = (b, c)" by fastforce
  have v: "v = b" and ne: "sizes \<noteq> []" using assms f by (auto simp: infer_detected_mss_def split: if_splits)
  note r = mss_fold_rank [OF f]
  have "hd sizes \<in> set sizes" using ne by simp
  moreover have "0 < count_list sizes (hd sizes)" using ne by (cases sizes) auto
  ultimately have "(b, c) \<noteq> (hd sizes, 0)" using r by (auto simp: rank_in_def)
  with r have bc: "b \<in> set sizes" "c = count_list sizes b" by auto
  then show "v \<in> set sizes" using v by simp
  show "rank_in sizes w \<le> rank_in sizes v" if "w \<in> set sizes"
    using r that bc v by (simp add: rank_in_def del: rank_le)
qed

lemma infer_detected_mss_Some: "2 \<le> length sizes \<Longrightarrow> \<exists>v. infer_detected_mss sizes = Some v"
  by (simp add: infer_detected_mss_def)

text \<open>The value is the only one that no other value outranks.\<close>

lemma infer_detected_mss_eqI:
  assumes "2 \<le> length sizes" and "v \<in> set sizes"
    and "\<And>w. w \<in> set sizes \<Longrightarrow> rank_in sizes w \<le> rank_in sizes v"
  shows "infer_detected_mss sizes = Some v"
proof -
  obtain u where u: "infer_detected_mss sizes = Some u" using infer_detected_mss_Some assms(1) by blast
  have "rank_in sizes v \<le> rank_in sizes u" "rank_in sizes u \<le> rank_in sizes v"
    using infer_detected_mss_rank [OF u] assms(2,3) by blast+
  then have "rank_in sizes u = rank_in sizes v" by simp
  with u show ?thesis by (simp add: rank_in_def)
qed

lemma infer_segment_size:
  assumes "20 < m" and "0 < l" and "l \<le> m" and "2 \<le> k \<or> (k = 1 \<and> l \<noteq> m - 20) \<or> l = m"
  shows "infer_detected_mss ((m - 20) # replicate k m @ [l]) = Some m"
proof (rule infer_detected_mss_eqI)
  have c: "count_list (replicate k m) w = (if w = m then k else 0)" for w by (induction k) auto
  show "rank_in ((m - 20) # replicate k m @ [l]) w \<le> rank_in ((m - 20) # replicate k m @ [l]) m"
    if "w \<in> set ((m - 20) # replicate k m @ [l])" for w
    using that assms by (auto simp: rank_in_def c split: if_splits)
qed (use assms in auto)

subsection \<open>Properties\<close>

text \<open>
  After any sequence of accepted batches, in any order and with any repetitions, the
  counters that \<open>track_sequence\<close> keeps are functions of that sequence: the seen numbers are
  exactly those that occurred, every further occurrence is a duplicate, the highest number is the
  maximum, and a batch is out of order exactly when it is new and a greater number came before it.
\<close>

theorem track_sequence_counts:
  "let st = foldl track_sequence init_stats sqs in
     seen_seq st = set sqs \<and>
     duplicates st = length sqs - card (set sqs) \<and>
     highest_seq st = (if sqs = [] then 0 else Max (set sqs)) \<and>
     out_of_order st = card (late_positions sqs)"
proof (cases "sqs = []")
  case True
  then show ?thesis by (simp add: init_stats_def)
next
  case False
  then show ?thesis using track_sequence_run [of sqs] unfolding Let_def by auto
qed

text \<open>
  \<open>finalize_lost\<close> without \<open>--count\<close> closes the books: with the session's total \<open>t\<close>
  known, it returns, and the accepted batches and the lost ones together make up the total and the
  duplicates.
\<close>

theorem finalize_lost_accounts:
  assumes "stats_inv st" and "wire_batch_total st = Some t" and "lost st = 0"
  shows "\<exists>st'. finalize_lost st None = Some st' \<and>
    batches st' + lost st' = unat t + duplicates st' \<and> lost st' = card ({s. s < t} - seen_seq st)"
proof -
  have sub: "seen_seq st \<subseteq> {s. s < t}" and fin: "finite (seen_seq st)"
    and b: "batches st = card (seen_seq st) + duplicates st"
    using assms by (auto simp: stats_inv_def)
  have "card (seen_seq st) \<le> unat t"
    using card_mono [OF _ sub] by (simp add: card_u32_below)
  moreover have "card ({s. s < t} - seen_seq st) = unat t - card (seen_seq st)"
    using card_Diff_subset [OF fin sub] by (simp add: card_u32_below)
  ultimately show ?thesis
    using finalize_lost_total [OF assms(1,2)] assms(3) b by simp
qed

theorem finalize_lost_accounts_witness:
  "\<exists>st'. finalize_lost (count_batch (init_stats\<lparr>wire_batch_total := Some 3\<rparr>) 1) None = Some st' \<and>
     batches st' + lost st' = 3 + duplicates st' \<and> lost st' = card ({s. s < 3} - {1 :: u32})"
proof -
  let ?st = "count_batch (init_stats\<lparr>wire_batch_total := Some 3\<rparr>) 1"
  have "stats_inv (init_stats\<lparr>wire_batch_total := Some 3\<rparr>)"
    by (simp add: stats_inv_def init_stats_def)
  then have "stats_inv ?st" by (rule stats_inv_count_batch [where t = 3]) simp_all
  from finalize_lost_accounts [OF this, of 3] show ?thesis by (simp add: init_stats_def)
qed

text \<open>
  With \<open>--count n\<close> the loop of \<open>finalize_lost\<close> counts the numbers below \<open>n\<close> that
  were not seen, whatever total the headers announced.
\<close>

theorem finalize_lost_counts_missing:
  assumes "0 < n" and "n < 2 ^ 32"
  shows "finalize_lost st (Some n) =
    Some (st\<lparr>lost := lost st + card ({s. unat s < n} - seen_seq st)\<rparr>)"
proof -
  have "card ({s :: u32. unat s < n} - seen_seq st) = n - card ({s. unat s < n} \<inter> seen_seq st)"
    using assms card_u32_below_count [of n] by (simp add: card_Diff_subset_Int)
  then show ?thesis using finalize_lost_count [OF assms] by simp
qed

theorem finalize_lost_counts_missing_witness:
  "finalize_lost init_stats (Some 5) =
     Some (init_stats\<lparr>lost := card ({s :: u32. unat s < 5} - {})\<rparr>)"
  using finalize_lost_counts_missing [of 5 init_stats] by (simp add: init_stats_def)

text \<open>
  C25. The loop of \<open>finalize_lost\<close> does not end exactly when the count of the command line is a
  positive multiple of \<open>2 ^ 32\<close>: its last number is then \<open>UINT32_MAX\<close>, and
  \<open>seq <= upper\<close> never fails.
\<close>

theorem finalize_lost_hangs_iff:
  "finalize_lost st (Some n) = None \<longleftrightarrow> 0 < n \<and> n mod 2 ^ 32 = 0"
proof (cases n)
  case 0
  then show ?thesis by (simp add: finalize_lost_def lost_upper_def)
next
  case (Suc m)
  have "of_nat m = (- 1 :: u32) \<longleftrightarrow> (of_nat n :: u32) = 0"
    using Suc by (simp add: eq_neg_iff_add_eq_0 add.commute)
  also have "\<dots> \<longleftrightarrow> n mod 2 ^ 32 = 0"
    by (simp add: word_of_nat_eq_0_iff dvd_eq_mod_eq_0)
  finally show ?thesis
    using Suc by (simp add: finalize_lost_None_iff lost_upper_def)
qed

text \<open>
  \<open>infer_detected_mss\<close> returns a slice size that occurs most often, and among those the
  greatest.
\<close>

theorem infer_detected_mss_most_frequent:
  assumes "infer_detected_mss sizes = Some v" and "w \<in> set sizes"
  shows "v \<in> set sizes \<and>
    (count_list sizes w < count_list sizes v \<or>
     count_list sizes w = count_list sizes v \<and> w \<le> v)"
  using infer_detected_mss_rank [OF assms(1)] assms(2) by (auto simp: rank_in_def)

theorem infer_detected_mss_most_frequent_witness:
  "infer_detected_mss [1380, 1400, 600] = Some 1400 \<and>
   count_list [1380, 1400, 600 :: nat] 600 = count_list [1380, 1400, 600 :: nat] 1400 \<and> (600 :: nat) \<le> 1400"
proof -
  have i: "infer_detected_mss [1380, 1400, 600] = Some 1400"
    by (simp add: infer_detected_mss_def mss_step_def)
  have "(600 :: nat) \<in> set [1380, 1400, 600]" by simp
  from i infer_detected_mss_most_frequent [OF i this] show ?thesis by simp
qed

end
