(* ===== verification/Reassembly.thy ===== *)
theory Reassembly
  imports Common Stats
begin

section \<open>Batch reassembly (server.cpp)\<close>

text \<open>
  \<open>BatchReassembly\<close> and the functions that drive it: the two header scans, \<open>try_complete_batch\<close>
  and \<open>ingest_fragment\<close>, which call each other. The state of a receive loop is the record
  \<open>server_state\<close>: the counters, the reassembly buffer and the lines printed so far (the remote
  endpoint only labels the lines and is left out). Reads and writes through \<open>buffer.data()\<close>
  are bounds-checked: leaving the buffer is the fault \<open>OutOfBounds\<close>. A position in the
  datagram is the list of bytes from there on.
\<close>

subsection \<open>State\<close>

record batch_reassembly =
  buffer :: "byte list"
  filled :: nat
  expected :: nat
  active :: bool
  fragment_sizes :: "nat list"

definition init_reassembly :: batch_reassembly where
  "init_reassembly =
     \<lparr>buffer = [], filled = 0, expected = 0, active = False, fragment_sizes = []\<rparr>"

definition reset_reassembly :: "batch_reassembly \<Rightarrow> batch_reassembly" where
  "reset_reassembly r =
     r\<lparr>buffer := [], filled := 0, expected := 0, active := False, fragment_sizes := []\<rparr>"

text \<open>
  The lines of the verbose output: a rejected batch (with the number of bytes salvaged from it),
  an accepted one (length, and for several slices the inferred segment size and their number),
  skipped bytes, an implausible length, the start of a reassembly, a batch still incomplete at the
  end of a session, a coalesced read, the idle timeout, the lines at the start of a receive loop and
  the summary.
\<close>

datatype log_line =
    LogBadBatch batch_validation u32 u32 nat
  | LogOk u32 u32 nat "(nat option \<times> nat) option"
  | LogSkip nat
  | LogBadLength nat
  | LogReassemble u32 u32 nat nat
  | LogIncomplete u32 u32 nat nat
  | LogCoalesced nat u32
  | LogIdleTimeout
  | LogSessionStart "nat option" bool
  | LogSummary string

record server_state =
  stats :: server_stats
  reasm :: batch_reassembly
  out :: "log_line list"

definition init_server :: server_state where
  "init_server = \<lparr>stats = init_stats, reasm = init_reassembly, out = []\<rparr>"

definition say :: "bool \<Rightarrow> log_line \<Rightarrow> server_state \<Rightarrow> server_state" where
  "say verbose l s = (if verbose then s\<lparr>out := out s @ [l]\<rparr> else s)"

definition add_bad :: "server_state \<Rightarrow> server_state" where
  "add_bad s = s\<lparr>stats := (stats s)\<lparr>bad_batches := bad_batches (stats s) + 1\<rparr>\<rparr>"

definition add_fragment :: "server_state \<Rightarrow> server_state" where
  "add_fragment s = s\<lparr>stats := (stats s)\<lparr>fragments := fragments (stats s) + 1\<rparr>\<rparr>"

definition set_wire :: "u32 option \<Rightarrow> server_state \<Rightarrow> server_state" where
  "set_wire w s = s\<lparr>stats := (stats s)\<lparr>wire_batch_total := w\<rparr>\<rparr>"

definition reset_server :: "server_state \<Rightarrow> server_state" where
  "reset_server s = s\<lparr>reasm := reset_reassembly (reasm s)\<rparr>"

subsection \<open>Header scans\<close>

text \<open>
  \<open>find_batch_header_offset\<close>: the offset of the first plausible header, or the length. The loop
  over \<open>i\<close> is a recursion on the bytes from \<open>i\<close> on.
\<close>

function find_batch_header_offset :: "byte list \<Rightarrow> nat" where
  "find_batch_header_offset data =
     (if length data < kPacketHeaderSize then length data
      else let batch_len = unat (peek_batch_length data) in
        if kPacketHeaderSize \<le> batch_len \<and> batch_len \<le> kMaxBatchSize then 0
        else Suc (find_batch_header_offset (drop 1 data)))"
  by pat_completeness auto
termination
  by (relation "measure length") (auto simp: kPacketHeaderSize_def)

declare find_batch_header_offset.simps [simp del]

text \<open>
  \<open>find_next_batch_header_offset\<close> scans from offset 1, for the wanted sequence number if there
  is one, and may record the session's total. The loop body tests the conditions in order; each
  \<open>continue\<close> goes on with the next position and the total as updated so far.
\<close>

function find_next_loop :: "byte list \<Rightarrow> u32 option \<Rightarrow> u32 option \<Rightarrow> nat \<times> u32 option" where
  "find_next_loop data want_seq wire =
     (if length data < kPacketHeaderSize then (length data, wire)
      else
        let batch_len = peek_batch_length data;
            candidate = read_header data;
            continue = (\<lambda>w. let (i, w') = find_next_loop (drop 1 data) want_seq w in (Suc i, w'))
        in if unat batch_len < kPacketHeaderSize \<or> kMaxBatchSize < unat batch_len then continue wire
           else if \<not> header_meta_plausible (hdr_seq candidate) (hdr_batch_total candidate)
                      (hdr_length candidate) then continue wire
           else if want_seq \<noteq> None \<and> want_seq \<noteq> Some (hdr_seq candidate) then continue wire
           else if wire \<noteq> None \<and> wire \<noteq> Some (hdr_batch_total candidate) then continue wire
           else
             let (check, wire') = validate_batch_session candidate wire in
             if check \<noteq> Valid then continue wire'
             else if hdr_length candidate \<noteq> batch_len then continue wire'
             else (0, wire'))"
  by pat_completeness auto
termination
  by (relation "measure (\<lambda>(data, _, _). length data)") (auto simp: kPacketHeaderSize_def)

declare find_next_loop.simps [simp del]

definition find_next_batch_header_offset ::
  "byte list \<Rightarrow> u32 option \<Rightarrow> u32 option \<Rightarrow> nat \<times> u32 option" where
  "find_next_batch_header_offset data want_seq wire =
     (if length data < kPacketHeaderSize then (length data, wire)
      else let (i, wire') = find_next_loop (drop 1 data) want_seq wire in (1 + i, wire'))"

subsection \<open>Completing a batch\<close>

text \<open>
  The bytes to carry over from a batch that failed validation: the tail from the next header on,
  if that header starts a whole valid batch inside the failed one.
\<close>

definition salvage_carry ::
  "byte list \<Rightarrow> nat \<Rightarrow> packet_header \<Rightarrow> u32 option \<Rightarrow> fault + (byte list \<times> u32 option)" where
  "salvage_carry buf batch_len header wire =
     (if kPacketHeaderSize < batch_len then
        (let want_seq =
               (if header_meta_plausible (hdr_seq header) (hdr_batch_total header) (hdr_length header)
                then if hdr_seq header + 1 < hdr_batch_total header then Some (hdr_seq header + 1)
                     else None
                else None)
         in case read_at buf 0 batch_len of
              Inl e \<Rightarrow> Inl e
            | Inr data \<Rightarrow>
                (let (salvage_at, wire') = find_next_batch_header_offset data want_seq wire in
                 if salvage_at < batch_len then
                   (case read_at buf salvage_at kPacketHeaderSize of
                      Inl e \<Rightarrow> Inl e
                    | Inr cb \<Rightarrow>
                        (let candidate = read_header cb; suffix = batch_len - salvage_at in
                         if unat (hdr_length candidate) \<le> suffix then
                           (case read_at buf salvage_at (unat (hdr_length candidate)) of
                              Inl e \<Rightarrow> Inl e
                            | Inr cand \<Rightarrow>
                                if validate_batch cand = Valid
                                then Inr (drop salvage_at buf, wire') else Inr ([], wire'))
                         else Inr ([], wire')))
                 else Inr ([], wire')))
      else Inr ([], wire))"

text \<open>
  \<open>try_complete_batch\<close>; its call of \<open>ingest_fragment\<close> on the carried bytes is the parameter
  \<open>ingest\<close>.
\<close>

definition ok_line :: "packet_header \<Rightarrow> batch_reassembly \<Rightarrow> log_line" where
  "ok_line header r =
     LogOk (hdr_seq header) (hdr_batch_total header) (expected r)
       (if 1 < length (fragment_sizes r)
        then Some (infer_detected_mss (fragment_sizes r), length (fragment_sizes r)) else None)"

definition try_complete_batch ::
  "(byte list \<Rightarrow> server_state \<Rightarrow> fault + server_state) \<Rightarrow> bool \<Rightarrow> server_state
     \<Rightarrow> fault + (bool \<times> server_state)" where
  "try_complete_batch ingest verbose s =
     (let r = reasm s in
      if expected r < kPacketHeaderSize then Inr (False, reset_server (add_bad s))
      else case read_at (buffer r) 0 kPacketHeaderSize of
        Inl e \<Rightarrow> Inl e
      | Inr hb \<Rightarrow>
          (let header = read_header hb;
               (session_check, wire) = validate_batch_session header (wire_batch_total (stats s));
               s1 = set_wire wire s
           in if session_check \<noteq> Valid then
                Inr (False, reset_server (say verbose
                  (LogBadBatch session_check (hdr_seq header) (hdr_batch_total header) 0) (add_bad s1)))
              else case read_at (buffer r) 0 (expected r) of
                Inl e \<Rightarrow> Inl e
              | Inr data \<Rightarrow>
                  (let validation = validate_batch data in
                   if validation \<noteq> Valid then
                     (case salvage_carry (buffer r) (expected r) header wire of
                        Inl e \<Rightarrow> Inl e
                      | Inr (carry, wire') \<Rightarrow>
                          (let s2 = reset_server (say verbose
                                 (LogBadBatch validation (hdr_seq header) (hdr_batch_total header)
                                    (length carry)) (set_wire wire' (add_bad s1)))
                           in if carry \<noteq> [] then
                                (case ingest carry s2 of
                                   Inl e \<Rightarrow> Inl e
                                 | Inr s3 \<Rightarrow> Inr (False, s3))
                              else Inr (False, s2)))
                   else
                     Inr (True, reset_server (say verbose (ok_line header r)
                       (s1\<lparr>stats := count_batch (stats s1) (hdr_seq header)\<rparr>))))))"

subsection \<open>Ingesting a datagram\<close>

text \<open>The inner loop: bytes are moved one at a time until the buffer holds a header.\<close>

fun fill_header :: "byte list \<Rightarrow> byte list \<Rightarrow> byte list \<times> byte list" where
  "fill_header buf rest =
     (if length buf < kPacketHeaderSize
      then (case rest of [] \<Rightarrow> (buf, []) | b # bs \<Rightarrow> fill_header (buf @ [b]) bs)
      else (buf, rest))"

declare fill_header.simps [simp del]

text \<open>
  One round of the loop while no batch is active (\<open>return\<close> or \<open>continue\<close> with the bytes left).
\<close>

datatype loop_exit = Returns server_state | Continues "byte list" server_state

definition set_buffer :: "byte list \<Rightarrow> server_state \<Rightarrow> server_state" where
  "set_buffer b s = s\<lparr>reasm := (reasm s)\<lparr>buffer := b\<rparr>\<rparr>"

definition hunt_header :: "bool \<Rightarrow> byte list \<Rightarrow> server_state \<Rightarrow> loop_exit" where
  "hunt_header verbose rest s =
     (case fill_header (buffer (reasm s)) rest of (buf, rest') \<Rightarrow>
        if length buf < kPacketHeaderSize then Returns (set_buffer buf s)
        else
          let expected_length = peek_batch_length buf in
          if expected_length = 0 then
            (let aligned = find_batch_header_offset buf in
             if 1 < length buf \<and> 0 < aligned \<and> aligned < length buf
             then Continues rest' (say verbose (LogSkip aligned) (set_buffer (drop aligned buf) s))
             else Continues rest' (set_buffer (drop 1 buf) s))
          else
            let header = read_header buf;
                (session_check, wire) = validate_batch_session header (wire_batch_total (stats s));
                s1 = set_wire wire s
            in if session_check \<noteq> Valid then Continues rest' (set_buffer (drop 1 buf) s1)
               else if unat expected_length < kPacketHeaderSize \<or> kMaxBatchSize < unat expected_length
               then Continues rest'
                      (reset_server (say verbose (LogBadLength (unat expected_length)) (add_bad s1)))
               else
                 let r' = (reasm s1)\<lparr>expected := unat expected_length,
                            buffer := buf @ replicate (unat expected_length - length buf) 0,
                            filled := kPacketHeaderSize, active := True\<rparr>
                 in Continues rest'
                      (say (verbose \<and> filled r' < expected r')
                        (LogReassemble (hdr_seq header) (hdr_batch_total header) (filled r') (expected r'))
                        (s1\<lparr>reasm := r'\<rparr>)))"

definition ingest_inactive :: "bool \<Rightarrow> byte list \<Rightarrow> server_state \<Rightarrow> loop_exit" where
  "ingest_inactive verbose rest s =
     (if buffer (reasm s) = [] then
        (let remaining = length rest; aligned = find_batch_header_offset rest in
         if remaining \<le> aligned then
           (let keep = min remaining (kPacketHeaderSize - 1) in
            Returns (if 0 < keep
                     then set_buffer (buffer (reasm s) @ drop (remaining - keep) rest) s else s))
         else if 0 < aligned then
           hunt_header verbose (drop aligned rest) (say verbose (LogSkip aligned) s)
         else hunt_header verbose rest s)
      else hunt_header verbose rest s)"

text \<open>
  One round while a batch is active: \<open>memcpy\<close> to the fill position, then the completion.
\<close>

definition ingest_active ::
  "(byte list \<Rightarrow> server_state \<Rightarrow> fault + server_state) \<Rightarrow> bool \<Rightarrow> byte list \<Rightarrow> server_state
     \<Rightarrow> fault + (byte list \<times> server_state)" where
  "ingest_active ingest verbose rest s =
     (let r = reasm s; space = expected r - filled r; take_n = min (length rest) space in
      if length (buffer r) < filled r + take_n then Inl OutOfBounds
      else
        let r' = r\<lparr>fragment_sizes := fragment_sizes r @ [take_n],
                   buffer := take (filled r) (buffer r) @ take take_n rest
                             @ drop (filled r + take_n) (buffer r),
                   filled := filled r + take_n\<rparr>;
            s' = s\<lparr>reasm := r'\<rparr>
        in if expected r' \<le> filled r' then
             (case try_complete_batch ingest verbose s' of
                Inl e \<Rightarrow> Inl e
              | Inr (ok, s'') \<Rightarrow> Inr (drop take_n rest, s''))
           else Inr (drop take_n rest, s'))"

text \<open>
  The loop of \<open>ingest_fragment\<close>, which also serves the recursive call: both spend the fuel.
\<close>

fun ingest_loop :: "nat \<Rightarrow> bool \<Rightarrow> byte list \<Rightarrow> server_state \<Rightarrow> fault + server_state" where
  "ingest_loop 0 verbose rest s = Inl OutOfFuel"
| "ingest_loop (Suc n) verbose rest s =
     (if rest = [] then Inr s
      else if \<not> active (reasm s) then
        (case ingest_inactive verbose rest s of
           Returns s' \<Rightarrow> Inr s'
         | Continues rest' s' \<Rightarrow> ingest_loop n verbose rest' s')
      else
        (case ingest_active (\<lambda>carry s'. ingest_loop n verbose carry (add_fragment s'))
                verbose rest s of
           Inl e \<Rightarrow> Inl e
         | Inr (rest', s') \<Rightarrow> ingest_loop n verbose rest' s'))"

text \<open>
  Fuel for \<open>rest\<close> and the bytes already buffered: quadratic in the bytes at hand, because a
  carried tail is at least one byte shorter than the batch it comes from.
\<close>

definition buffered :: "batch_reassembly \<Rightarrow> byte list" where
  "buffered r = (if active r then take (filled r) (buffer r) else buffer r)"

definition ingest_fuel :: "byte list \<Rightarrow> server_state \<Rightarrow> nat" where
  "ingest_fuel rest s =
     (let n = length (buffered (reasm s)) + length rest in n * n + length rest + 1)"

definition ingest_fragment :: "bool \<Rightarrow> byte list \<Rightarrow> server_state \<Rightarrow> fault + server_state" where
  "ingest_fragment verbose data s =
     ingest_loop (ingest_fuel data s) verbose data (add_fragment s)"

end
