(* ===== verification/Stream_Spec.thy ===== *)
theory Stream_Spec
  imports Packet Stats
begin

section \<open>What the server computes from a byte stream\<close>

text \<open>
  The abstract specification of reassembly: a parser of one byte stream, with no datagram
  boundaries, no buffer and no fill position. \<open>parse_stream\<close> takes the counters and the bytes at
  hand to the new counters and the bytes that wait for more. The locale \<open>incremental_parser\<close> states
  what makes such a parser independent of how its input is cut, \<open>stream_receiver\<close> what a
  component that runs datagram by datagram has to promise to implement it.
\<close>

subsection \<open>Parsers that can be resumed\<close>

definition feed :: "('s \<Rightarrow> 'b list \<Rightarrow> 's \<times> 'b list) \<Rightarrow> 'b list list \<Rightarrow> 's \<times> 'b list \<Rightarrow> 's \<times> 'b list" where
  "feed parse chunks p = foldl (\<lambda>(s, r) c. parse s (r @ c)) p chunks"

fun run_steps :: "('d \<Rightarrow> 'c \<Rightarrow> 'e + 'c) \<Rightarrow> 'd list \<Rightarrow> 'c \<Rightarrow> 'e + 'c" where
  "run_steps step [] c = Inr c"
| "run_steps step (d # ds) c =
     (case step d c of Inl e \<Rightarrow> Inl e | Inr c' \<Rightarrow> run_steps step ds c')"

locale incremental_parser =
  fixes parse :: "'s \<Rightarrow> 'b list \<Rightarrow> 's \<times> 'b list"
  assumes parse_append: "parse s (xs @ ys) = (case parse s xs of (s', r) \<Rightarrow> parse s' (r @ ys))"
begin

lemma parse_settled: "parse s xs = (s', r) \<Longrightarrow> parse s' r = (s', r)"
  using parse_append [of s xs "[]"] by simp

lemma feed_concat: "parse s r = (s, r) \<Longrightarrow> feed parse chunks (s, r) = parse s (r @ concat chunks)"
proof (induction chunks arbitrary: s r)
  case Nil
  then show ?case by (simp add: feed_def)
next
  case (Cons c cs)
  obtain s' r' where p: "parse s (r @ c) = (s', r')" by fastforce
  then have "feed parse (c # cs) (s, r) = feed parse cs (s', r')" by (simp add: feed_def)
  also have "\<dots> = parse s' (r' @ concat cs)" using parse_settled [OF p] by (rule Cons.IH)
  also have "\<dots> = parse s ((r @ c) @ concat cs)" by (simp only: parse_append [of s "r @ c"] p prod.case)
  finally show ?case by simp
qed

end

locale stream_receiver = incremental_parser parse
  for parse :: "'s \<Rightarrow> 'b list \<Rightarrow> 's \<times> 'b list" +
  fixes step :: "'b list \<Rightarrow> 'c \<Rightarrow> 'e + 'c"
    and inv :: "'c \<Rightarrow> bool"
    and view :: "'c \<Rightarrow> 's"
    and pending :: "'c \<Rightarrow> 'b list"
  assumes step_refines: "inv c \<Longrightarrow>
      \<exists>c'. step d c = Inr c' \<and> inv c' \<and> parse (view c) (pending c @ d) = (view c', pending c')"
begin

lemma run_refines:
  assumes "inv c" and "parse (view c) (pending c) = (view c, pending c)"
  shows "\<exists>c'. run_steps step ds c = Inr c' \<and> inv c' \<and>
    parse (view c) (pending c @ concat ds) = (view c', pending c')"
  using assms
proof (induction ds arbitrary: c)
  case Nil
  then show ?case by simp
next
  case (Cons d ds)
  from step_refines [OF Cons.prems(1), of d] obtain c1 where
    c1: "step d c = Inr c1" "inv c1" "parse (view c) (pending c @ d) = (view c1, pending c1)" by blast
  from Cons.IH [OF c1(2) parse_settled [OF c1(3)]] obtain c2 where
    c2: "run_steps step ds c1 = Inr c2" "inv c2"
      "parse (view c1) (pending c1 @ concat ds) = (view c2, pending c2)" by blast
  have "parse (view c) ((pending c @ d) @ concat ds) = (view c2, pending c2)"
    by (simp only: parse_append [of "view c" "pending c @ d"] c1(3) prod.case c2(3))
  with c1 c2 show ?case by simp
qed

lemma run_chunking:
  assumes "inv c" and "parse (view c) (pending c) = (view c, pending c)"
    and "concat ds = concat es"
  obtains c1 c2 where "run_steps step ds c = Inr c1" and "run_steps step es c = Inr c2"
    and "view c1 = view c2" and "pending c1 = pending c2"
proof -
  obtain c1 where 1: "run_steps step ds c = Inr c1"
    "parse (view c) (pending c @ concat ds) = (view c1, pending c1)"
    using run_refines [OF assms(1,2), of ds] by blast
  obtain c2 where 2: "run_steps step es c = Inr c2"
    "parse (view c) (pending c @ concat es) = (view c2, pending c2)"
    using run_refines [OF assms(1,2), of es] by blast
  show thesis using that [OF 1(1) 2(1)] 1(2) 2(2) assms(3) by simp
qed

end

subsection \<open>The specification\<close>

text \<open>
  \<open>opens wire bs\<close>: a batch of this session starts here. \<open>resync\<close> is where parsing resumes
  inside a batch whose checksum is wrong: at the first later header of the session (with the next
  sequence number, unless the broken one claims to be the last), if it starts a whole valid batch.
\<close>

definition opens :: "u32 option \<Rightarrow> byte list \<Rightarrow> bool" where
  "opens wire bs \<longleftrightarrow>
     peek_batch_length bs \<noteq> 0 \<and> (wire = None \<or> wire = Some (hdr_batch_total (read_header bs)))"

definition wanted :: "packet_header \<Rightarrow> u32 option" where
  "wanted h = (if hdr_seq h + 1 < hdr_batch_total h then Some (hdr_seq h + 1) else None)"

definition resync_at :: "u32 option \<Rightarrow> u32 option \<Rightarrow> byte list \<Rightarrow> bool" where
  "resync_at want wire bs \<longleftrightarrow>
     opens wire bs \<and> (want = None \<or> want = Some (hdr_seq (read_header bs)))"

definition resync :: "packet_header \<Rightarrow> byte list \<Rightarrow> nat option" where
  "resync h b =
     (case find (\<lambda>a. resync_at (wanted h) (Some (hdr_batch_total h)) (drop a b)) [1 ..< length b - 19] of
        None \<Rightarrow> None
      | Some a \<Rightarrow>
          let n = unat (peek_batch_length (drop a b)) in
          if a + n \<le> length b \<and> validate_batch (take n (drop a b)) = Valid then Some a else None)"

lemma resync_bounds: "resync h b = Some a \<Longrightarrow> 1 \<le> a \<and> a < length b"
  by (auto simp: resync_def Let_def dest!: find_Some_in split: option.splits if_splits)

lemma opens_bounds:
  assumes "opens wire bs"
  shows "20 \<le> length bs" and "20 \<le> unat (hdr_length (read_header bs))"
    and "unat (hdr_length (read_header bs)) \<le> 65536"
  using assms peek_batch_length_bounds [of bs] peek_batch_length_eq [of bs]
    peek_batch_length_nz [of bs] by (simp_all add: opens_def)

function parse_stream :: "server_stats \<Rightarrow> byte list \<Rightarrow> server_stats \<times> byte list" where
  "parse_stream st bs =
     (if length bs < 20 then (st, bs)
      else if \<not> opens (wire_batch_total st) bs then parse_stream st (drop 1 bs)
      else
        let h = read_header bs; n = unat (hdr_length h);
            st1 = st\<lparr>wire_batch_total := Some (hdr_batch_total h)\<rparr>
        in if length bs < n \<or> length bs = 20 then (st1, bs)
           else if validate_batch (take n bs) = Valid
           then parse_stream (count_batch st1 (hdr_seq h)) (drop n bs)
           else
             let st2 = st1\<lparr>bad_batches := bad_batches st1 + 1\<rparr> in
             case resync h (take n bs) of
               None \<Rightarrow> parse_stream st2 (drop n bs)
             | Some a \<Rightarrow> parse_stream st2 (drop a bs))"
  by pat_completeness auto
termination
  by (relation "measure (\<lambda>(st, bs). length bs)")
    (auto dest: opens_bounds(2) resync_bounds)

declare parse_stream.simps [simp del]

subsection \<open>Parsing can be resumed\<close>

lemma opens_append: "20 \<le> length xs \<Longrightarrow> opens wire (xs @ ys) \<longleftrightarrow> opens wire xs"
  by (simp add: opens_def peek_batch_length_prefix read_header_prefix)

lemma parse_stream_short: "length bs < 20 \<Longrightarrow> parse_stream st bs = (st, bs)"
  by (simp add: parse_stream.simps [of st bs])

lemma parse_stream_skip:
  "20 \<le> length bs \<Longrightarrow> \<not> opens (wire_batch_total st) bs \<Longrightarrow>
     parse_stream st bs = parse_stream st (drop 1 bs)"
  by (simp add: parse_stream.simps [of st bs])

text \<open>
  \<open>begun\<close> is the state once the header at the front has been accepted, \<open>broken\<close> once its batch
  has failed.
\<close>

definition begun :: "server_stats \<Rightarrow> byte list \<Rightarrow> server_stats" where
  "begun st bs = st\<lparr>wire_batch_total := Some (hdr_batch_total (read_header bs))\<rparr>"

definition broken :: "server_stats \<Rightarrow> byte list \<Rightarrow> server_stats" where
  "broken st bs = (begun st bs)\<lparr>bad_batches := bad_batches st + 1\<rparr>"

definition whole :: "server_stats \<Rightarrow> byte list \<Rightarrow> bool" where
  "whole st bs \<longleftrightarrow> opens (wire_batch_total st) bs \<and>
     unat (hdr_length (read_header bs)) \<le> length bs \<and> 20 < length bs"

definition front :: "byte list \<Rightarrow> byte list" where
  "front bs = take (unat (hdr_length (read_header bs))) bs"

definition after_front :: "byte list \<Rightarrow> byte list" where
  "after_front bs = drop (unat (hdr_length (read_header bs))) bs"

lemma parse_stream_wait:
  "opens (wire_batch_total st) bs \<Longrightarrow> \<not> whole st bs \<Longrightarrow> parse_stream st bs = (begun st bs, bs)"
  using opens_bounds(1) [of "wire_batch_total st" bs]
  by (auto simp: parse_stream.simps [of st bs] Let_def begun_def whole_def)

lemma parse_stream_valid:
  "whole st bs \<Longrightarrow> validate_batch (front bs) = Valid \<Longrightarrow>
     parse_stream st bs = parse_stream (count_batch (begun st bs) (hdr_seq (read_header bs))) (after_front bs)"
  by (simp add: parse_stream.simps [of st bs] Let_def begun_def whole_def front_def after_front_def)

lemma parse_stream_broken:
  "whole st bs \<Longrightarrow> validate_batch (front bs) \<noteq> Valid \<Longrightarrow> resync (read_header bs) (front bs) = None \<Longrightarrow>
     parse_stream st bs = parse_stream (broken st bs) (after_front bs)"
  by (simp add: parse_stream.simps [of st bs] Let_def begun_def broken_def whole_def front_def
      after_front_def)

lemma parse_stream_resync:
  "whole st bs \<Longrightarrow> validate_batch (front bs) \<noteq> Valid \<Longrightarrow> resync (read_header bs) (front bs) = Some a \<Longrightarrow>
     parse_stream st bs = parse_stream (broken st bs) (drop a bs)"
  by (simp add: parse_stream.simps [of st bs] Let_def begun_def broken_def whole_def front_def)

lemmas parse_stream_eqs =
  parse_stream_short parse_stream_skip parse_stream_wait parse_stream_valid parse_stream_broken
  parse_stream_resync

text \<open>Induction along the parser, one case for each thing it can meet at the front.\<close>

lemma parse_stream_rule [case_names short skip wait valid broken resync]:
  assumes "\<And>st bs. length bs < 20 \<Longrightarrow> P st bs"
    and "\<And>st bs. 20 \<le> length bs \<Longrightarrow> \<not> opens (wire_batch_total st) bs \<Longrightarrow> P st (drop 1 bs) \<Longrightarrow> P st bs"
    and "\<And>st bs. opens (wire_batch_total st) bs \<Longrightarrow> \<not> whole st bs \<Longrightarrow> P st bs"
    and "\<And>st bs. whole st bs \<Longrightarrow> validate_batch (front bs) = Valid \<Longrightarrow>
           P (count_batch (begun st bs) (hdr_seq (read_header bs))) (after_front bs) \<Longrightarrow> P st bs"
    and "\<And>st bs. whole st bs \<Longrightarrow> validate_batch (front bs) \<noteq> Valid \<Longrightarrow>
           resync (read_header bs) (front bs) = None \<Longrightarrow> P (broken st bs) (after_front bs) \<Longrightarrow> P st bs"
    and "\<And>st bs a. whole st bs \<Longrightarrow> validate_batch (front bs) \<noteq> Valid \<Longrightarrow>
           resync (read_header bs) (front bs) = Some a \<Longrightarrow> P (broken st bs) (drop a bs) \<Longrightarrow> P st bs"
  shows "P st bs"
proof (induction "length bs" arbitrary: st bs rule: less_induct)
  case less
  have shorter: "whole st bs \<Longrightarrow> length (after_front bs) < length bs"
    by (auto simp: whole_def after_front_def dest: opens_bounds(2))
  have shorter': "resync (read_header bs) (front bs) = Some a \<Longrightarrow> length (drop a bs) < length bs" for a
    by (auto simp: front_def dest!: resync_bounds)
  show ?case
  proof (cases "whole st bs")
    case True
    show ?thesis
    proof (cases "validate_batch (front bs) = Valid")
      case False
      with True less assms(5,6) shorter shorter' show ?thesis
        by (cases "resync (read_header bs) (front bs)") blast+
    qed (use True less assms(4) shorter in blast)
  next
    case False
    then show ?thesis
      using less assms(1-3) by (cases "length bs < 20"; cases "opens (wire_batch_total st) bs") auto
  qed
qed

lemma parse_stream_pending_le: "length (snd (parse_stream st bs)) \<le> length bs"
  by (induction st bs rule: parse_stream_rule)
    (auto simp: parse_stream_eqs after_front_def)

lemma parse_stream_wire:
  assumes "opens (wire_batch_total st) bs"
  shows "parse_stream (st\<lparr>wire_batch_total := Some (hdr_batch_total (read_header bs))\<rparr>) bs =
         parse_stream st bs"
proof -
  have o: "opens (Some (hdr_batch_total (read_header bs))) bs" using assms by (simp add: opens_def)
  show ?thesis
    using assms o opens_bounds(1) [OF assms] by (simp add: parse_stream.simps [of _ bs] Let_def)
qed

lemma whole_append:
  assumes "whole st xs"
  shows "whole st (xs @ ys)" and "front (xs @ ys) = front xs" and "after_front (xs @ ys) = after_front xs @ ys"
    and "begun st (xs @ ys) = begun st xs" and "broken st (xs @ ys) = broken st xs"
    and "read_header (xs @ ys) = read_header xs"
proof -
  have l: "20 \<le> length xs" using assms by (simp add: whole_def)
  note rh = read_header_prefix [OF l]
  show "whole st (xs @ ys)" using assms l by (simp add: whole_def rh opens_append)
  show "front (xs @ ys) = front xs" "after_front (xs @ ys) = after_front xs @ ys"
    using assms by (simp_all add: whole_def front_def after_front_def rh)
  show "begun st (xs @ ys) = begun st xs" "broken st (xs @ ys) = broken st xs"
    "read_header (xs @ ys) = read_header xs"
    by (simp_all add: begun_def broken_def rh)
qed

lemma parse_stream_append:
  "parse_stream st (xs @ ys) = (case parse_stream st xs of (st', r) \<Rightarrow> parse_stream st' (r @ ys))"
proof (induction st xs rule: parse_stream_rule)
  case (wait st bs)
  then have l: "20 \<le> length bs" by (blast dest: opens_bounds(1))
  have "parse_stream (begun st bs) (bs @ ys) = parse_stream st (bs @ ys)"
    using wait(1) l parse_stream_wire [of st "bs @ ys"]
    by (simp add: opens_append read_header_prefix begun_def)
  with wait show ?case by (simp add: parse_stream_wait)
next
  case (resync st bs a)
  then have "drop a (bs @ ys) = drop a bs @ ys"
    by (auto simp: front_def dest!: resync_bounds)
  with resync show ?case by (simp add: parse_stream_resync whole_append)
qed (simp_all add: parse_stream_eqs opens_append whole_append)

interpretation stream: incremental_parser parse_stream
  by unfold_locales (rule parse_stream_append)

subsection \<open>What the parser guarantees\<close>

text \<open>Effects common to every stream: the invariant of the counters and the session's total.\<close>

lemma opens_seq_bound:
  "opens w bs \<Longrightarrow> hdr_seq (read_header bs) < hdr_batch_total (read_header bs)"
  by (metis header_meta_plausible_iff opens_def peek_batch_length_nz)

lemma begun_fields [simp]:
  "batches (begun st bs) = batches st" "bad_batches (begun st bs) = bad_batches st"
  "seen_seq (begun st bs) = seen_seq st" "duplicates (begun st bs) = duplicates st"
  "wire_batch_total (begun st bs) = Some (hdr_batch_total (read_header bs))"
  by (simp_all add: begun_def)

lemma broken_fields [simp]:
  "batches (broken st bs) = batches st" "bad_batches (broken st bs) = bad_batches st + 1"
  "seen_seq (broken st bs) = seen_seq st" "duplicates (broken st bs) = duplicates st"
  "wire_batch_total (broken st bs) = Some (hdr_batch_total (read_header bs))"
  by (simp_all add: broken_def)

lemma stats_inv_begun:
  assumes "stats_inv st" and "opens (wire_batch_total st) bs"
  shows "stats_inv (begun st bs)"
proof -
  have "hdr_batch_total (read_header bs) \<noteq> 0" using opens_seq_bound [OF assms(2)] by auto
  then show ?thesis using assms by (auto simp: stats_inv_def opens_def begun_def split: option.splits)
qed

lemma stats_inv_broken:
  assumes "stats_inv st" and "opens (wire_batch_total st) bs"
  shows "stats_inv (broken st bs)"
  using stats_inv_begun [OF assms] by (simp add: stats_inv_def broken_def)

lemma stats_inv_counted:
  assumes "stats_inv st" and "opens (wire_batch_total st) bs"
  shows "stats_inv (count_batch (begun st bs) (hdr_seq (read_header bs)))"
  using stats_inv_begun [OF assms] opens_seq_bound [OF assms(2)]
  by (intro stats_inv_count_batch [where t = "hdr_batch_total (read_header bs)"]) simp_all

lemma whole_opens: "whole st bs \<Longrightarrow> opens (wire_batch_total st) bs"
  by (simp add: whole_def)

lemma parse_stream_stats_inv: "stats_inv st \<Longrightarrow> stats_inv (fst (parse_stream st bs))"
  by (induction st bs rule: parse_stream_rule)
    (simp_all add: parse_stream_eqs stats_inv_begun stats_inv_broken stats_inv_counted whole_opens)

lemma whole_total:
  "whole st bs \<Longrightarrow> wire_batch_total st = Some t \<Longrightarrow> hdr_batch_total (read_header bs) = t"
  by (simp add: whole_def opens_def)

lemma parse_stream_session:
  "wire_batch_total st = Some t \<Longrightarrow> wire_batch_total (fst (parse_stream st bs)) = Some t"
  by (induction st bs rule: parse_stream_rule)
    (simp_all add: parse_stream_eqs whole_total, simp add: opens_def)

text \<open>
  Soundness: every accepted sequence number is that of a valid batch of the session that occurs in
  the stream.
\<close>

definition occurs_batch :: "byte list \<Rightarrow> u32 \<Rightarrow> u32 \<Rightarrow> bool" where
  "occurs_batch bs t q \<longleftrightarrow>
     (\<exists>xs b ys. bs = xs @ b @ ys \<and> validate_batch b = Valid \<and>
        hdr_batch_total (read_header b) = t \<and> hdr_seq (read_header b) = q)"

lemma occurs_batch_append: "occurs_batch bs t q \<Longrightarrow> occurs_batch (xs @ bs) t q"
  unfolding occurs_batch_def by (metis append_assoc)

lemma occurs_batch_drop: "occurs_batch (drop n bs) t q \<Longrightarrow> occurs_batch bs t q"
  using occurs_batch_append [of "drop n bs" t q "take n bs"] by simp

lemma occurs_batch_front:
  assumes "whole st bs" and "validate_batch (front bs) = Valid"
  shows "occurs_batch bs (hdr_batch_total (read_header bs)) (hdr_seq (read_header bs))"
proof -
  have l: "20 \<le> length (front bs)"
    using opens_bounds(2) [OF whole_opens [OF assms(1)]] assms(1) by (simp add: whole_def front_def)
  have "bs = front bs @ after_front bs" by (simp add: front_def after_front_def)
  moreover have "read_header (front bs) = read_header bs"
    using l by (metis calculation read_header_prefix)
  ultimately show ?thesis unfolding occurs_batch_def using assms(2) by (metis append_Nil)
qed

lemma parse_stream_sound:
  "q \<in> seen_seq (fst (parse_stream st bs)) \<Longrightarrow>
     q \<in> seen_seq st \<or> (\<exists>t. wire_batch_total (fst (parse_stream st bs)) = Some t \<and> occurs_batch bs t q)"
proof (induction st bs rule: parse_stream_rule)
  case (valid st bs)
  let ?st = "count_batch (begun st bs) (hdr_seq (read_header bs))"
  have "wire_batch_total ?st = Some (hdr_batch_total (read_header bs))" by simp
  then have "wire_batch_total (fst (parse_stream ?st (after_front bs))) =
      Some (hdr_batch_total (read_header bs))"
    by (rule parse_stream_session)
  with valid occurs_batch_front [OF valid(1,2)] show ?case
    by (auto simp: parse_stream_valid after_front_def dest: occurs_batch_drop)
qed (auto simp: parse_stream_eqs after_front_def dest: occurs_batch_drop)

lemma parse_stream_batches_mono:
  "batches st \<le> batches (fst (parse_stream st bs)) \<and> seen_seq st \<subseteq> seen_seq (fst (parse_stream st bs))"
  by (induction st bs rule: parse_stream_rule) (auto simp: parse_stream_eqs)

lemma parse_stream_lost: "lost (fst (parse_stream st bs)) = lost st"
  by (induction st bs rule: parse_stream_rule) (simp_all add: parse_stream_eqs begun_def broken_def)

text \<open>Completeness on undamaged streams.\<close>

definition clean_batch :: "u32 \<Rightarrow> byte list \<Rightarrow> bool" where
  "clean_batch t b \<longleftrightarrow> validate_batch b = Valid \<and> hdr_batch_total (read_header b) = t \<and> 20 < length b"

lemma clean_batch_opens: "clean_batch t b \<Longrightarrow> opens (Some t) b"
  unfolding clean_batch_def opens_def peek_batch_length_nz validate_batch_Valid_iff
    header_meta_plausible_iff by auto

lemma parse_stream_clean_one:
  assumes c: "clean_batch t b" and w: "wire_batch_total st = None \<or> wire_batch_total st = Some t"
  shows "parse_stream st (b @ rest) =
    parse_stream (count_batch (st\<lparr>wire_batch_total := Some t\<rparr>) (hdr_seq (read_header b))) rest"
proof -
  have l: "20 \<le> length b" "20 < length b" and t: "hdr_batch_total (read_header b) = t"
    and n: "unat (hdr_length (read_header b)) = length b" and v: "validate_batch b = Valid"
    using c by (auto simp: clean_batch_def validate_batch_Valid_iff)
  note rh = read_header_prefix [OF l(1), of rest]
  have "opens (wire_batch_total st) b"
    using clean_batch_opens [OF c] w t by (auto simp: opens_def)
  then have "whole st (b @ rest)" using l n by (simp add: whole_def opens_append rh)
  then show ?thesis
    using v n t by (simp add: parse_stream_valid front_def after_front_def begun_def rh)
qed

lemma parse_stream_clean:
  assumes "\<forall>b \<in> set bs. clean_batch t b" and "bs \<noteq> []"
    and "wire_batch_total st = None \<or> wire_batch_total st = Some t"
  shows "parse_stream st (concat bs) =
    (foldl count_batch (st\<lparr>wire_batch_total := Some t\<rparr>) (map (hdr_seq \<circ> read_header) bs), [])"
  using assms
proof (induction bs arbitrary: st)
  case Nil
  then show ?case by simp
next
  case (Cons b bs)
  let ?st = "count_batch (st\<lparr>wire_batch_total := Some t\<rparr>) (hdr_seq (read_header b))"
  have w: "?st\<lparr>wire_batch_total := Some t\<rparr> = ?st"
    by (simp add: count_batch_def track_sequence_def Let_def)
  have "parse_stream st (concat (b # bs)) = parse_stream ?st (concat bs)"
    using Cons.prems by (simp add: parse_stream_clean_one)
  then show ?case
    using Cons.IH [of ?st] Cons.prems(1) w
    by (cases "bs = []") (simp_all add: parse_stream_short)
qed

text \<open>
  A stream in which nothing opens a batch of the recorded session leaves the counters alone.
\<close>

lemma parse_stream_foreign:
  assumes "wire_batch_total st = Some t" and "\<forall>n. \<not> opens (Some t) (drop n bs)"
  shows "fst (parse_stream st bs) = st"
  using assms
proof (induction st bs rule: parse_stream_rule)
  case (skip st bs)
  then have "\<forall>n. \<not> opens (Some t) (drop n (drop 1 bs))" by simp
  with skip show ?case by (simp add: parse_stream_skip)
qed (auto simp: parse_stream_short whole_def dest: spec [where x = 0])

end
