(* ===== verification/Reassembly_Correct.thy ===== *)
theory Reassembly_Correct
  imports Reassembly Stream_Spec
begin

section \<open>Reassembly implements the stream parser\<close>

text \<open>
  The invariant of the reassembly state, and the refinement: \<open>ingest_fragment\<close> of server.cpp never
  faults (no access leaves the buffer, the loop ends) and moves the server from one pair of
  \<open>view\<close> (counters) and \<open>pending\<close> (bytes that wait) to the pair that \<open>parse_stream\<close> computes. The
  number of fragments, the slice sizes and the printed lines depend on the datagrams and are not
  part of the view.
\<close>

subsection \<open>Abstraction and invariant\<close>

definition view :: "server_state \<Rightarrow> server_stats" where
  "view s = (stats s)\<lparr>fragments := 0\<rparr>"

definition pending :: "server_state \<Rightarrow> byte list" where
  "pending s = buffered (reasm s)"

text \<open>
  While a batch is active the buffer has its full length, the header is in place and fixes the
  length and the session's total, and only a batch that is all header can be already full.
\<close>

definition reasm_inv :: "server_state \<Rightarrow> bool" where
  "reasm_inv s \<longleftrightarrow>
     (let r = reasm s; h = read_header (buffer r) in
      if active r then
        20 \<le> filled r \<and> filled r \<le> expected r \<and> (filled r = expected r \<longrightarrow> expected r = 20) \<and>
        length (buffer r) = expected r \<and>
        opens (Some (hdr_batch_total h)) (buffer r) \<and>
        wire_batch_total (stats s) = Some (hdr_batch_total h) \<and>
        expected r = unat (hdr_length h)
      else length (buffer r) < 20)"

lemma reasm_inv_init [simp]: "reasm_inv init_server"
  by (simp add: reasm_inv_def init_server_def init_reassembly_def)

lemma say_simps [simp]:
  "stats (say v l s) = stats s" "reasm (say v l s) = reasm s"
  "view (say v l s) = view s" "pending (say v l s) = pending s"
  "reasm_inv (say v l s) = reasm_inv s"
  by (simp_all add: say_def view_def pending_def reasm_inv_def)

lemma add_fragment_simps [simp]:
  "reasm (add_fragment s) = reasm s" "view (add_fragment s) = view s"
  "pending (add_fragment s) = pending s" "reasm_inv (add_fragment s) = reasm_inv s"
  by (simp_all add: add_fragment_def view_def pending_def reasm_inv_def)

lemma set_buffer_simps [simp]:
  "stats (set_buffer b s) = stats s" "view (set_buffer b s) = view s"
  "reasm (set_buffer b s) = (reasm s)\<lparr>buffer := b\<rparr>"
  by (simp_all add: set_buffer_def view_def)

lemma set_wire_simps [simp]:
  "reasm (set_wire w s) = reasm s" "stats (set_wire w s) = (stats s)\<lparr>wire_batch_total := w\<rparr>"
  "view (set_wire w s) = (view s)\<lparr>wire_batch_total := w\<rparr>"
  by (simp_all add: set_wire_def view_def)

lemma add_bad_simps [simp]:
  "reasm (add_bad s) = reasm s"
  "stats (add_bad s) = (stats s)\<lparr>bad_batches := bad_batches (stats s) + 1\<rparr>"
  by (simp_all add: add_bad_def)

lemma reset_server_simps [simp]:
  "stats (reset_server s) = stats s" "view (reset_server s) = view s"
  "pending (reset_server s) = []" "reasm_inv (reset_server s)" "\<not> active (reasm (reset_server s))"
  by (simp_all add: reset_server_def reset_reassembly_def view_def pending_def buffered_def
      reasm_inv_def)

lemma view_fields [simp]:
  "wire_batch_total (view s) = wire_batch_total (stats s)"
  "bad_batches (view s) = bad_batches (stats s)"
  "batches (view s) = batches (stats s)"
  "seen_seq (view s) = seen_seq (stats s)"
  "duplicates (view s) = duplicates (stats s)"
  "lost (view s) = lost (stats s)"
  "out_of_order (view s) = out_of_order (stats s)"
  by (simp_all add: view_def)

lemma view_reasm [simp]: "view (s\<lparr>reasm := r\<rparr>) = view s"
  by (simp add: view_def)

lemma count_batch_view: "(count_batch st q)\<lparr>fragments := 0\<rparr> = count_batch (st\<lparr>fragments := 0\<rparr>) q"
  by (simp add: count_batch_def track_sequence_def Let_def)

lemma set_wire_id: "wire_batch_total (stats s) = w \<Longrightarrow> set_wire w s = s"
  by (auto simp: set_wire_def)

subsection \<open>The header scans\<close>

lemma find_batch_header_offset_le: "find_batch_header_offset bs \<le> length bs"
proof (induction bs rule: find_batch_header_offset.induct)
  case (1 bs)
  then show ?case
    by (auto simp: find_batch_header_offset.simps [of bs] kPacketHeaderSize_def Let_def)
qed

lemma peek_in_range:
  "(kPacketHeaderSize \<le> unat (peek_batch_length bs) \<and> unat (peek_batch_length bs) \<le> kMaxBatchSize)
     \<longleftrightarrow> peek_batch_length bs \<noteq> 0"
  using peek_batch_length_bounds [of bs] by (auto simp: kPacketHeaderSize_def kMaxBatchSize_def)

lemma find_batch_header_offset_unfold:
  "find_batch_header_offset bs =
     (if length bs < 20 then length bs
      else if peek_batch_length bs \<noteq> 0 then 0
      else Suc (find_batch_header_offset (drop 1 bs)))"
  by (subst find_batch_header_offset.simps)
    (simp only: Let_def peek_in_range, simp add: kPacketHeaderSize_def)

lemma not_opens_peek: "peek_batch_length bs = 0 \<Longrightarrow> \<not> opens w bs"
  by (simp add: opens_def)

lemma parse_stream_found:
  "find_batch_header_offset bs < length bs \<Longrightarrow>
     parse_stream st bs = parse_stream st (drop (find_batch_header_offset bs) bs)"
proof (induction bs rule: find_batch_header_offset.induct)
  case (1 bs)
  show ?case
  proof (cases "peek_batch_length bs = 0")
    case True
    with "1.prems" have l: "20 \<le> length bs"
      by (auto simp: find_batch_header_offset_unfold [of bs] split: if_splits)
    with True "1.prems" have f: "find_batch_header_offset bs = Suc (find_batch_header_offset (drop 1 bs))"
      by (simp add: find_batch_header_offset_unfold [of bs])
    have "parse_stream st (drop 1 bs) =
        parse_stream st (drop (find_batch_header_offset (drop 1 bs)) (drop 1 bs))"
      using l f "1.prems" True peek_in_range [of bs]
      by (intro "1.IH") (auto simp: kPacketHeaderSize_def)
    then show ?thesis using l f True by (simp add: parse_stream_skip not_opens_peek)
  next
    case False
    then have "20 \<le> length bs" by (meson leI peek_batch_length_short)
    with False show ?thesis by (simp add: find_batch_header_offset_unfold [of bs])
  qed
qed

lemma parse_stream_not_found:
  "length bs \<le> find_batch_header_offset bs \<Longrightarrow>
     parse_stream st bs = (st, drop (length bs - min (length bs) 19) bs)"
proof (induction bs rule: find_batch_header_offset.induct)
  case (1 bs)
  show ?case
  proof (cases "length bs < 20")
    case True
    then show ?thesis by (simp add: parse_stream_short)
  next
    case False
    with "1.prems" have p: "peek_batch_length bs = 0"
      and f: "find_batch_header_offset bs = Suc (find_batch_header_offset (drop 1 bs))"
      by (auto simp: find_batch_header_offset_unfold [of bs] split: if_splits)
    have "parse_stream st (drop 1 bs) =
        (st, drop (length (drop 1 bs) - min (length (drop 1 bs)) 19) (drop 1 bs))"
      using False f "1.prems" p peek_in_range [of bs]
      by (intro "1.IH") (auto simp: kPacketHeaderSize_def)
    moreover have "length bs - 19 = Suc (length (drop 1 bs) - 19)" using False by simp
    ultimately show ?thesis
      using False p by (simp add: parse_stream_skip not_opens_peek min_def)
  qed
qed

text \<open>The second scan, once the session's total is known.\<close>

lemma upt_0_Suc: "[0 ..< Suc n] = 0 # map Suc [0 ..< n]"
  by (simp add: map_Suc_upt upt_conv_Cons del: upt_Suc)

lemma find_map: "find P (map f xs) = map_option f (find (P \<circ> f) xs)"
  by (induction xs) simp_all

lemma find_next_loop_eq:
  "find_next_loop bs want (Some t) =
     (case find (\<lambda>i. resync_at want (Some t) (drop i bs)) [0 ..< length bs - 19] of
        None \<Rightarrow> length bs | Some i \<Rightarrow> i, Some t)"
proof (induction "length bs" arbitrary: bs)
  case 0
  then show ?case by (simp add: find_next_loop.simps kPacketHeaderSize_def)
next
  case (Suc n)
  show ?case
  proof (cases "length bs < 20")
    case True
    then show ?thesis by (simp add: find_next_loop.simps [of bs] kPacketHeaderSize_def)
  next
    case False
    then have "length bs - 19 = Suc (length (drop 1 bs) - 19)" by simp
    then have u: "[0 ..< length bs - 19] = 0 # map Suc [0 ..< length (drop 1 bs) - 19]"
      by (simp only: upt_0_Suc)
    have IH: "find_next_loop (drop 1 bs) want (Some t) =
        (case find (\<lambda>i. resync_at want (Some t) (drop i (drop 1 bs))) [0 ..< length (drop 1 bs) - 19] of
           None \<Rightarrow> length (drop 1 bs) | Some i \<Rightarrow> i, Some t)"
      using Suc.hyps(2) by (intro Suc.hyps(1)) simp
    have go: "find_next_loop bs want (Some t) =
        (if resync_at want (Some t) bs then (0, Some t)
         else let (i, w') = find_next_loop (drop 1 bs) want (Some t) in (Suc i, w'))"
      using False peek_in_range [of bs] peek_batch_length_nz [of bs] peek_batch_length_eq [of bs]
      by (subst find_next_loop.simps)
        (auto simp: Let_def resync_at_def opens_def kPacketHeaderSize_def validate_batch_session_def
          not_less)
    have s: "Suc (length (drop 1 bs)) = length bs" using Suc.hyps(2) by simp
    show ?thesis
      unfolding go u IH find.simps
      using s by (simp add: find_map o_def split: option.splits)
  qed
qed

subsection \<open>Completing a batch\<close>

text \<open>The carried tail is the one \<open>resync\<close> specifies; no access leaves the buffer.\<close>

lemma salvage_carry_eq:
  assumes o: "opens (Some t) buf" and t: "t = hdr_batch_total h" and h: "h = read_header buf"
  shows "salvage_carry buf (length buf) h (Some t) =
    Inr (case resync h buf of None \<Rightarrow> [] | Some a \<Rightarrow> drop a buf, Some t)"
proof -
  have l: "20 \<le> length buf" using opens_bounds(1) [OF o] .
  have pl: "header_meta_plausible (hdr_seq h) (hdr_batch_total h) (hdr_length h)"
    using o peek_batch_length_nz [of buf] h by (simp add: opens_def)
  let ?P = "\<lambda>a. resync_at (wanted h) (Some t) (drop a buf)"
  have "length buf - 19 = Suc (length (drop 1 buf) - 19)" using l by simp
  then have "[1 ..< length buf - 19] = map Suc [0 ..< length (drop 1 buf) - 19]"
    by (simp only: map_Suc_upt One_nat_def)
  then have next_eq: "find_next_batch_header_offset buf (wanted h) (Some t) =
      (case find ?P [1 ..< length buf - 19] of None \<Rightarrow> length buf | Some a \<Rightarrow> a, Some t)"
    using l by (auto simp: find_next_batch_header_offset_def find_next_loop_eq find_map o_def
        kPacketHeaderSize_def split: option.splits)
  show ?thesis
  proof (cases "find ?P [1 ..< length buf - 19]")
    case None
    then show ?thesis
      using pl next_eq by (simp add: salvage_carry_def resync_def t wanted_def kPacketHeaderSize_def)
  next
    case (Some a)
    then have a: "1 \<le> a" "a + 20 \<le> length buf" "?P a" by (auto dest!: find_Some_in)
    then have "peek_batch_length (drop a buf) \<noteq> 0" by (simp add: resync_at_def opens_def)
    then have pk: "peek_batch_length (drop a buf) = hdr_length (read_header (drop a buf))"
      by (rule peek_batch_length_eq)
    have rh: "read_header (take 20 (drop a buf)) = read_header (drop a buf)"
      by (rule read_header_take) simp
    from a l have b: "20 < length buf" "a < length buf" by simp_all
    show ?thesis
    proof (cases "a + unat (hdr_length (read_header (drop a buf))) \<le> length buf")
      case True
      then have "unat (hdr_length (read_header (drop a buf))) \<le> length buf - a" by simp
      then show ?thesis
        using pl next_eq Some a b pk rh True
        by (simp add: salvage_carry_def resync_def t wanted_def kPacketHeaderSize_def Let_def)
    next
      case False
      with b have "\<not> unat (hdr_length (read_header (drop a buf))) \<le> length buf - a" by simp
      then show ?thesis
        using pl next_eq Some a b pk rh False
        by (simp add: salvage_carry_def resync_def t wanted_def kPacketHeaderSize_def Let_def)
    qed
  qed
qed

text \<open>
  \<open>settles s xs s'\<close>: from \<open>s\<close> the server has consumed \<open>xs\<close> and is in \<open>s'\<close>.
\<close>

definition settles :: "server_state \<Rightarrow> byte list \<Rightarrow> server_state \<Rightarrow> bool" where
  "settles s xs s' \<longleftrightarrow>
     reasm_inv s' \<and> parse_stream (view s) (pending s @ xs) = (view s', pending s')"

text \<open>The state in which a batch has all its bytes: the precondition of \<open>try_complete_batch\<close>.\<close>

definition batch_full :: "server_state \<Rightarrow> bool" where
  "batch_full s \<longleftrightarrow>
     (let b = buffer (reasm s) in
      opens (Some (hdr_batch_total (read_header b))) b \<and>
      wire_batch_total (stats s) = Some (hdr_batch_total (read_header b)) \<and>
      expected (reasm s) = length b \<and> unat (hdr_length (read_header b)) = length b)"

lemma try_complete_batch_refines:
  assumes full: "batch_full s"
    and ingest: "\<And>carry s2. reasm_inv s2 \<Longrightarrow> pending s2 = [] \<Longrightarrow>
        length carry < length (buffer (reasm s)) \<Longrightarrow>
        \<exists>s3. ingest carry s2 = Inr s3 \<and> settles s2 carry s3"
  obtains ok s' where "try_complete_batch ingest verbose s = Inr (ok, s')" and "reasm_inv s'"
    and "length (pending s') < length (buffer (reasm s))"
    and "\<And>ys. 20 < length (buffer (reasm s) @ ys) \<Longrightarrow>
           parse_stream (view s) (buffer (reasm s) @ ys) = parse_stream (view s') (pending s' @ ys)"
proof -
  define b where "b = buffer (reasm s)"
  define h where "h = read_header b"
  define t where "t = hdr_batch_total h"
  have w: "wire_batch_total (stats s) = Some t" and e: "expected (reasm s) = length b"
    and n: "unat (hdr_length h) = length b"
    using full by (simp_all add: batch_full_def b_def h_def t_def Let_def)
  have o: "opens (Some t) b" using full by (simp add: batch_full_def b_def h_def t_def Let_def)
  have l: "20 \<le> length b" using opens_bounds(1) [OF o] .
  have rh: "read_header (take 20 b) = h" unfolding h_def by (rule read_header_take) simp
  have pl: "header_meta_plausible (hdr_seq h) (hdr_batch_total h) (hdr_length h)"
    using o peek_batch_length_nz [of b] by (simp add: opens_def h_def)
  have sess: "validate_batch_session h (Some t) = (Valid, Some t)"
    using pl by (simp add: validate_batch_session_def t_def)
  have vs: "(view s)\<lparr>wire_batch_total := Some t\<rparr> = view s" using w by (simp add: view_def)
  have ss: "(stats s)\<lparr>wire_batch_total := Some t\<rparr> = stats s" using w by simp
  have hb: "read_at (buffer (reasm s)) 0 kPacketHeaderSize = Inr (take 20 b)"
    and db: "read_at (buffer (reasm s)) 0 (expected (reasm s)) = Inr b"
    using l e by (simp_all add: b_def kPacketHeaderSize_def)
  have nb: "buffer (reasm s) \<noteq> []" using l by (auto simp: b_def)
  have ne: "\<not> expected (reasm s) < kPacketHeaderSize" using e l by (simp add: kPacketHeaderSize_def)
  have parse: "parse_stream (view s) (b @ ys) =
      (if validate_batch b = Valid then parse_stream (count_batch (view s) (hdr_seq h)) ys
       else let st2 = (view s)\<lparr>bad_batches := bad_batches (view s) + 1\<rparr> in
         case resync h b of None \<Rightarrow> parse_stream st2 ys | Some a \<Rightarrow> parse_stream st2 (drop a b @ ys))"
    if "20 < length (b @ ys)" for ys
  proof -
    have wh: "whole (view s) (b @ ys)"
      using that o w l n by (simp add: whole_def opens_append read_header_prefix h_def)
    have f: "front (b @ ys) = b" "after_front (b @ ys) = ys" "read_header (b @ ys) = h"
      "begun (view s) (b @ ys) = view s"
      using l n vs by (simp_all add: front_def after_front_def begun_def read_header_prefix
          h_def [symmetric] t_def [symmetric])
    show ?thesis
    proof (cases "validate_batch b = Valid")
      case True
      then show ?thesis using parse_stream_valid [OF wh] f by simp
    next
      case False
      then show ?thesis
        using parse_stream_broken [OF wh] parse_stream_resync [OF wh] f
        by (auto simp: broken_def Let_def dest: resync_bounds split: option.splits)
    qed
  qed
  show thesis
  proof (cases "validate_batch b = Valid")
    case True
    let ?s' = "reset_server (say verbose (ok_line h (reasm s))
                 (s\<lparr>stats := count_batch (stats s) (hdr_seq h)\<rparr>))"
    have tc: "try_complete_batch ingest verbose s = Inr (True, ?s')"
      using True w sess
      by (simp add: try_complete_batch_def ne hb db rh Let_def set_wire_id ss)
    have "view ?s' = count_batch (view s) (hdr_seq h)"
      by (simp add: view_def count_batch_view)
    with parse True have "parse_stream (view s) (b @ ys) = parse_stream (view ?s') (pending ?s' @ ys)"
      if "20 < length (b @ ys)" for ys using that by simp
    then show ?thesis using tc nb by (intro that [of True ?s']) (simp_all add: b_def)
  next
    case False
    define carry where "carry = (case resync h b of None \<Rightarrow> [] | Some a \<Rightarrow> drop a b)"
    define s2 where "s2 = reset_server (say verbose
       (LogBadBatch (validate_batch b) (hdr_seq h) (hdr_batch_total h) (length carry)) (add_bad s))"
    have sc: "salvage_carry (buffer (reasm s)) (expected (reasm s)) h (Some t) = Inr (carry, Some t)"
      using salvage_carry_eq [OF o t_def h_def] e by (simp add: b_def carry_def)
    have clen: "length carry < length b"
      using l by (auto simp: carry_def dest: resync_bounds split: option.splits)
    have v2: "view s2 = (view s)\<lparr>bad_batches := bad_batches (view s) + 1\<rparr>"
      by (simp add: s2_def view_def)
    have i2: "reasm_inv s2" "pending s2 = []" by (simp_all add: s2_def)
    have p2: "parse_stream (view s) (b @ ys) = parse_stream (view s2) (carry @ ys)"
      if "20 < length (b @ ys)" for ys
      using parse [OF that] False v2 by (simp add: carry_def Let_def split: option.splits)
    have w': "set_wire (Some t) (add_bad s) = add_bad s" using w by (intro set_wire_id) simp
    have tc: "try_complete_batch ingest verbose s =
        (if carry \<noteq> [] then case ingest carry s2 of Inl f \<Rightarrow> Inl f | Inr s3 \<Rightarrow> Inr (False, s3)
         else Inr (False, s2))"
      using False w sess sc w'
      by (simp add: try_complete_batch_def ne hb db rh Let_def set_wire_id s2_def)
    show ?thesis
    proof (cases "carry = []")
      case True
      with tc have "try_complete_batch ingest verbose s = Inr (False, s2)" by simp
      moreover have "parse_stream (view s) (buffer (reasm s) @ ys) = parse_stream (view s2) (pending s2 @ ys)"
        if "20 < length (buffer (reasm s) @ ys)" for ys
        using p2 [of ys] that True i2(2) by (simp add: b_def)
      ultimately show ?thesis using i2 nb by (intro that [of False s2]) simp_all
    next
      case ne: False
      obtain s3 where s3: "ingest carry s2 = Inr s3" "reasm_inv s3"
        "parse_stream (view s2) carry = (view s3, pending s3)"
        using ingest [OF i2] clen i2 by (auto simp: b_def settles_def)
      have le: "length (pending s3) \<le> length carry"
        using parse_stream_pending_le [of "view s2" carry] s3(3) by simp
      have "parse_stream (view s2) (carry @ ys) = parse_stream (view s3) (pending s3 @ ys)" for ys
        by (simp only: parse_stream_append [of "view s2" carry] s3(3) prod.case)
      then have "parse_stream (view s) (buffer (reasm s) @ ys) = parse_stream (view s3) (pending s3 @ ys)"
        if "20 < length (buffer (reasm s) @ ys)" for ys
        using p2 [of ys] that by (simp add: b_def)
      moreover have "try_complete_batch ingest verbose s = Inr (False, s3)" using tc ne s3(1) by simp
      ultimately show ?thesis
        using le clen s3(2) by (intro that [of False s3]) (simp_all add: b_def)
    qed
  qed
qed

subsection \<open>One round of the loop\<close>

lemma fill_header_eq:
  "fill_header buf rest = (buf @ take (20 - length buf) rest, drop (20 - length buf) rest)"
proof (induction buf rest rule: fill_header.induct)
  case (1 buf rest)
  show ?case
  proof (cases "length buf < 20")
    case True
    then have "20 - length buf = Suc (20 - Suc (length buf))" by simp
    with True "1.IH" show ?thesis
      by (cases rest) (simp_all add: fill_header.simps [of buf] kPacketHeaderSize_def)
  next
    case False
    then show ?thesis by (simp add: fill_header.simps [of buf] kPacketHeaderSize_def)
  qed
qed

text \<open>
  What a round does: it either ends in a state that has settled the bytes, or goes on with fewer
  bytes of the datagram, from a state from which the parser computes the same.
\<close>

definition progresses :: "server_state \<Rightarrow> byte list \<Rightarrow> server_state \<Rightarrow> byte list \<Rightarrow> bool" where
  "progresses s xs s' xs' \<longleftrightarrow>
     reasm_inv s' \<and>
     parse_stream (view s) (pending s @ xs) = parse_stream (view s') (pending s' @ xs') \<and>
     length (pending s' @ xs') \<le> length (pending s @ xs)"

fun round_ok :: "server_state \<Rightarrow> byte list \<Rightarrow> loop_exit \<Rightarrow> bool" where
  "round_ok s xs (Returns s') \<longleftrightarrow> settles s xs s'"
| "round_ok s xs (Continues xs' s') \<longleftrightarrow> progresses s xs s' xs' \<and> length xs' < length xs"

lemma pending_inactive: "\<not> active (reasm s) \<Longrightarrow> pending s = buffer (reasm s)"
  by (simp add: pending_def buffered_def)

lemma find_batch_header_offset_20:
  "length bs = 20 \<Longrightarrow> peek_batch_length bs = 0 \<Longrightarrow> find_batch_header_offset bs = 20"
  by (simp add: find_batch_header_offset_unfold [of bs] find_batch_header_offset_unfold [of "drop (Suc 0) bs"])

lemma hunt_header_ok:
  assumes inv: "reasm_inv s" and na: "\<not> active (reasm s)" and rest: "rest \<noteq> []"
  shows "round_ok s rest (hunt_header verbose rest s)"
proof -
  define b where "b = buffer (reasm s)"
  have lb: "length b < 20" using inv na by (simp add: reasm_inv_def b_def Let_def)
  have p: "pending s = b" using na by (simp add: pending_inactive b_def)
  define buf where "buf = b @ take (20 - length b) rest"
  define rest' where "rest' = drop (20 - length b) rest"
  have fh: "fill_header (buffer (reasm s)) rest = (buf, rest')"
    by (simp add: fill_header_eq buf_def rest'_def b_def)
  have all: "b @ rest = buf @ rest'" by (simp add: buf_def rest'_def)
  have lr: "length rest' < length rest" using lb rest by (cases rest) (simp_all add: rest'_def)
  show ?thesis
  proof (cases "length buf < 20")
    case True
    then have "rest' = []" by (simp add: buf_def rest'_def)
    with all have all': "b @ rest = buf" by simp
    have "hunt_header verbose rest s = Returns (set_buffer buf s)"
      using True by (simp add: hunt_header_def fh kPacketHeaderSize_def)
    with True all' p na show ?thesis
      by (simp add: settles_def reasm_inv_def pending_inactive parse_stream_short)
  next
    case False
    then have l: "length buf = 20" using lb by (simp add: buf_def)
    have ne: "buf \<noteq> []" using l by auto
    let ?drop = "set_buffer (drop 1 buf) s"
    have skip: "round_ok s rest (Continues rest' ?drop)" if "\<not> opens (wire_batch_total (stats s)) buf"
    proof -
      have "parse_stream (view s) (buf @ rest') = parse_stream (view s) (drop 1 buf @ rest')"
        using that l parse_stream_skip [of "buf @ rest'" "view s"] by (simp add: opens_append)
      then show ?thesis
        using l lr p na all
        by (simp add: progresses_def reasm_inv_def pending_inactive)
    qed
    show ?thesis
    proof (cases "peek_batch_length buf = 0")
      case True
      then have "hunt_header verbose rest s = Continues rest' ?drop"
        using l by (simp add: hunt_header_def fh kPacketHeaderSize_def find_batch_header_offset_20)
      then show ?thesis using skip True by (simp add: not_opens_peek)
    next
      case pk: False
      let ?h = "read_header buf"
      let ?w = "wire_batch_total (stats s)"
      have pl: "header_meta_plausible (hdr_seq ?h) (hdr_batch_total ?h) (hdr_length ?h)"
        using pk peek_batch_length_nz [of buf] by simp
      show ?thesis
      proof (cases "opens ?w buf")
        case no: False
        then have v: "fst (validate_batch_session ?h ?w) \<noteq> Valid"
          using pk by (auto simp: opens_def validate_batch_session_Valid_iff)
        then have "snd (validate_batch_session ?h ?w) = ?w" by (rule validate_batch_session_total(2))
        with v have "hunt_header verbose rest s = Continues rest' ?drop"
          using l pk by (cases "validate_batch_session ?h ?w")
            (simp add: hunt_header_def fh kPacketHeaderSize_def set_wire_id Let_def)
        with skip no show ?thesis by simp
      next
        case yes: True
        then have v: "validate_batch_session ?h ?w = (Valid, Some (hdr_batch_total ?h))"
          using pk pl by (auto simp: opens_def validate_batch_session_def)
        have peq: "peek_batch_length buf = hdr_length ?h" using pk by (rule peek_batch_length_eq)
        let ?n = "unat (hdr_length ?h)"
        have n: "20 \<le> ?n" "?n \<le> 65536" using opens_bounds [OF yes] by simp_all
        let ?s1 = "set_wire (Some (hdr_batch_total ?h)) s"
        let ?r = "(reasm ?s1)\<lparr>expected := ?n, buffer := buf @ replicate (?n - 20) 0, filled := 20,
                     active := True\<rparr>"
        have hh: "hunt_header verbose rest s = Continues rest'
            (say (verbose \<and> 20 < ?n) (LogReassemble (hdr_seq ?h) (hdr_batch_total ?h) 20 ?n)
               (?s1\<lparr>reasm := ?r\<rparr>))"
          using l pk v n peq
          by (simp add: hunt_header_def fh kPacketHeaderSize_def kMaxBatchSize_def Let_def)
        have o: "opens (Some (hdr_batch_total ?h)) (buf @ replicate (?n - 20) 0)"
          using yes l by (simp add: opens_append) (simp add: opens_def)
        have "parse_stream (view s) (buf @ rest') =
            parse_stream ((view s)\<lparr>wire_batch_total := Some (hdr_batch_total ?h)\<rparr>) (buf @ rest')"
          using parse_stream_wire [of "view s" "buf @ rest'"] yes l
          by (simp add: opens_append read_header_prefix)
        then show ?thesis
          using hh o l n p all lr
          by (simp add: progresses_def reasm_inv_def Let_def read_header_prefix pending_def
              buffered_def)
      qed
    qed
  qed
qed

lemma ingest_inactive_ok:
  assumes inv: "reasm_inv s" and na: "\<not> active (reasm s)" and rest: "rest \<noteq> []"
  shows "round_ok s rest (ingest_inactive verbose rest s)"
proof (cases "buffer (reasm s) = []")
  case False
  then show ?thesis using hunt_header_ok [OF assms] by (simp add: ingest_inactive_def)
next
  case True
  then have p: "pending s = []" using na by (simp add: pending_inactive)
  let ?a = "find_batch_header_offset rest"
  show ?thesis
  proof (cases "length rest \<le> ?a")
    case no: True
    let ?k = "min (length rest) 19"
    have "0 < ?k" using rest by simp
    then have "ingest_inactive verbose rest s = Returns (set_buffer (drop (length rest - ?k) rest) s)"
      using True no by (simp add: ingest_inactive_def kPacketHeaderSize_def Let_def)
    then show ?thesis
      using p na parse_stream_not_found [OF no, of "view s"]
      by (simp add: settles_def reasm_inv_def pending_inactive)
  next
    case yes: False
    let ?s = "if 0 < ?a then say verbose (LogSkip ?a) s else s"
    have ii: "ingest_inactive verbose rest s = hunt_header verbose (drop ?a rest) ?s"
      using True yes by (simp add: ingest_inactive_def Let_def)
    have s: "reasm_inv ?s" "\<not> active (reasm ?s)" "view ?s = view s" "pending ?s = []"
      using inv na p by simp_all
    have parse: "parse_stream (view s) rest = parse_stream (view s) (drop ?a rest)"
      using yes by (intro parse_stream_found) simp
    have "round_ok ?s (drop ?a rest) (hunt_header verbose (drop ?a rest) ?s)"
      using s(1,2) yes by (intro hunt_header_ok) simp_all
    then show ?thesis
      using s p parse
      by (cases "hunt_header verbose (drop ?a rest) ?s")
        (auto simp: ii settles_def progresses_def split del: if_split)
  qed
qed

text \<open>
  A round on an active batch: nothing is written outside the buffer, and either bytes of the
  datagram are used up or a full batch leaves the buffer.
\<close>

lemma ingest_active_ok:
  assumes inv: "reasm_inv s" and act: "active (reasm s)" and rest: "rest \<noteq> []"
    and ingest: "\<And>carry s2. reasm_inv s2 \<Longrightarrow> pending s2 = [] \<Longrightarrow>
        length carry < length (pending s @ rest) \<Longrightarrow>
        \<exists>s3. ingest carry s2 = Inr s3 \<and> settles s2 carry s3"
  obtains rest' s' where "ingest_active ingest verbose rest s = Inr (rest', s')"
    and "progresses s rest s' rest'"
    and "length rest' < length rest \<or> length (pending s' @ rest') < length (pending s @ rest)"
    and "length rest' \<le> length rest"
proof -
  define r where "r = reasm s"
  define k where "k = min (length rest) (expected r - filled r)"
  define b where "b = take (filled r) (buffer r) @ take k rest @ drop (filled r + k) (buffer r)"
  define s1 where "s1 = s\<lparr>reasm := r\<lparr>fragment_sizes := fragment_sizes r @ [k], buffer := b,
                              filled := filled r + k\<rparr>\<rparr>"
  have i: "20 \<le> filled r" "filled r \<le> expected r" "filled r = expected r \<Longrightarrow> expected r = 20"
    "length (buffer r) = expected r" "opens (Some (hdr_batch_total (read_header (buffer r)))) (buffer r)"
    "wire_batch_total (stats s) = Some (hdr_batch_total (read_header (buffer r)))"
    "expected r = unat (hdr_length (read_header (buffer r)))"
    using inv act by (simp_all add: reasm_inv_def r_def Let_def)
  have kb: "filled r + k \<le> expected r" using i(2) by (simp add: k_def)
  have lb: "length b = expected r" using i kb by (simp add: b_def k_def)
  have p: "pending s = take (filled r) (buffer r)" using act by (simp add: pending_def buffered_def r_def)
  have lp: "length (pending s) = filled r" using p i by simp
  have hdr: "read_header b = read_header (buffer r)" and pk: "peek_batch_length b = peek_batch_length (buffer r)"
  proof -
    have "take 20 b = take 20 (buffer r)" using i(1,2,4) by (simp add: b_def)
    then show "read_header b = read_header (buffer r)" by (metis read_header_take order_refl)
    show "peek_batch_length b = peek_batch_length (buffer r)"
      using \<open>take 20 b = take 20 (buffer r)\<close> i lb by (metis peek_batch_length_take20 order_trans)
  qed
  have ob: "opens (Some (hdr_batch_total (read_header b))) b"
    using i(5) by (simp add: opens_def hdr pk)
  have tk: "take (filled r + k) b = pending s @ take k rest"
    using i kb by (simp add: b_def p k_def)
  have all: "pending s @ rest = take (filled r + k) b @ drop k rest" by (simp add: tk)
  have ia: "ingest_active ingest verbose rest s =
      (if expected r \<le> filled r + k
       then case try_complete_batch ingest verbose s1 of
              Inl e \<Rightarrow> Inl e | Inr (ok, s'') \<Rightarrow> Inr (drop k rest, s'')
       else Inr (drop k rest, s1))"
    using kb i(4)
    unfolding ingest_active_def Let_def r_def [symmetric] k_def [symmetric] b_def [symmetric] s1_def
    by simp
  have v1: "view s1 = view s" by (simp add: s1_def)
  show thesis
  proof (cases "expected r \<le> filled r + k")
    case True
    with kb have full: "filled r + k = length b" by (simp add: lb)
    have bf: "batch_full s1"
      using ob i lb hdr by (simp add: batch_full_def s1_def Let_def)
    have ls: "length b \<le> length (pending s @ rest)" using all full by simp
    obtain ok s' where tc: "try_complete_batch ingest verbose s1 = Inr (ok, s')" "reasm_inv s'"
      "length (pending s') < length (buffer (reasm s1))"
      "\<And>ys. 20 < length (buffer (reasm s1) @ ys) \<Longrightarrow>
         parse_stream (view s1) (buffer (reasm s1) @ ys) = parse_stream (view s') (pending s' @ ys)"
      using try_complete_batch_refines [OF bf, of ingest verbose thesis] ingest ls
      by (auto simp: s1_def)
    have b1: "buffer (reasm s1) = b" by (simp add: s1_def)
    have "20 < length (b @ drop k rest)"
      using full i rest lb by (cases "k = 0") (auto simp: k_def)
    from tc(4) [unfolded b1, OF this] have
      "parse_stream (view s) (pending s @ rest) = parse_stream (view s') (pending s' @ drop k rest)"
      using all full v1 by simp
    moreover have "length (pending s' @ drop k rest) < length (pending s @ rest)"
      using tc(3) all full by (simp add: b1)
    ultimately show thesis
      using ia True tc(1,2) by (intro that [of "drop k rest" s']) (simp_all add: progresses_def)
  next
    case False
    then have kk: "k = length rest" "0 < k" "filled r + k < expected r"
      using rest by (auto simp: k_def min_def split: if_splits)
    have p1: "pending s1 = pending s @ take k rest"
      using act tk by (simp add: s1_def pending_def buffered_def r_def)
    have "reasm_inv s1"
      using i kk lb ob hdr act by (simp add: reasm_inv_def s1_def Let_def r_def)
    then show thesis
      using ia False p1 v1 kk by (intro that [of "drop k rest" s1]) (simp_all add: progresses_def)
  qed
qed

subsection \<open>The whole loop\<close>

lemma reasm_inv_settled:
  assumes "reasm_inv s"
  shows "parse_stream (view s) (pending s) = (view s, pending s)"
proof (cases "active (reasm s)")
  case False
  with assms show ?thesis
    by (simp add: reasm_inv_def Let_def pending_inactive parse_stream_short)
next
  case True
  define r where "r = reasm s"
  have i: "20 \<le> filled r" "filled r \<le> expected r" "filled r = expected r \<Longrightarrow> expected r = 20"
    "length (buffer r) = expected r" "opens (Some (hdr_batch_total (read_header (buffer r)))) (buffer r)"
    "wire_batch_total (stats s) = Some (hdr_batch_total (read_header (buffer r)))"
    "expected r = unat (hdr_length (read_header (buffer r)))"
    using assms True by (simp_all add: reasm_inv_def r_def Let_def)
  have p: "pending s = take (filled r) (buffer r)" using True by (simp add: pending_def buffered_def r_def)
  have h: "read_header (pending s) = read_header (buffer r)" using i(1) by (simp add: p read_header_take)
  have l: "length (pending s) = filled r" using i by (simp add: p)
  have "opens (wire_batch_total (view s)) (pending s @ drop (filled r) (buffer r))"
    using i(5,6) by (simp add: p)
  then have o: "opens (wire_batch_total (view s)) (pending s)" using i(1) l by (simp add: opens_append)
  have "\<not> whole (view s) (pending s)" using i h l by (auto simp: whole_def)
  moreover have "begun (view s) (pending s) = view s" using i(6) by (simp add: begun_def h view_def)
  ultimately show ?thesis using parse_stream_wait [OF o] by simp
qed

lemma settles_trans:
  assumes "progresses s xs s' xs'" and "settles s' xs' s''"
  shows "settles s xs s''"
  using assms by (simp add: progresses_def settles_def)

text \<open>Enough fuel: the square of the bytes at hand, plus the bytes of the datagram left.\<close>

lemma ingest_loop_refines:
  assumes "reasm_inv s"
    and "length (pending s @ rest) * length (pending s @ rest) + length rest < fuel"
  shows "\<exists>s'. ingest_loop fuel verbose rest s = Inr s' \<and> settles s rest s'"
  using assms
proof (induction fuel arbitrary: rest s)
  case 0
  then show ?case by simp
next
  case (Suc n)
  let ?N = "length (pending s @ rest)"
  show ?case
  proof (cases "rest = []")
    case True
    then show ?thesis using reasm_inv_settled Suc.prems(1) by (simp add: settles_def)
  next
    case ne: False
    have next_round: "\<exists>s''. ingest_loop n verbose rest' s' = Inr s'' \<and> settles s rest s''"
      if p: "progresses s rest s' rest'" and
        d: "length rest' < length rest \<or> length (pending s' @ rest') < ?N" "length rest' \<le> length rest"
      for rest' s'
    proof -
      let ?M = "length (pending s' @ rest')"
      have m: "?M \<le> ?N" using p by (simp add: progresses_def)
      have "?M * ?M + length rest' < ?N * ?N + length rest"
      proof (cases "?M < ?N")
        case True
        then have "?M * ?M + ?M < ?N * ?N" by (rule square_plus_less)
        moreover have "length rest' \<le> ?M" by simp
        ultimately show ?thesis by linarith
      next
        case False
        with m d show ?thesis by simp
      qed
      with Suc.prems(2) p have "\<exists>s''. ingest_loop n verbose rest' s' = Inr s'' \<and> settles s' rest' s''"
        by (intro Suc.IH) (simp_all add: progresses_def)
      then show ?thesis using settles_trans [OF p] by blast
    qed
    show ?thesis
    proof (cases "active (reasm s)")
      case False
      from ingest_inactive_ok [OF Suc.prems(1) False ne, of verbose] show ?thesis
        using ne False next_round
        by (cases "ingest_inactive verbose rest s") auto
    next
      case True
      have nested: "\<exists>s3. ingest_loop n verbose carry (add_fragment s2) = Inr s3 \<and> settles s2 carry s3"
        if c: "reasm_inv s2" "pending s2 = []" "length carry < ?N" for carry s2
      proof -
        have "length carry * length carry + length carry < ?N * ?N"
          using c(3) by (rule square_plus_less)
        then have "\<exists>s3. ingest_loop n verbose carry (add_fragment s2) = Inr s3 \<and>
            settles (add_fragment s2) carry s3"
          using Suc.prems(2) c by (intro Suc.IH) simp_all
        then show ?thesis by (simp add: settles_def)
      qed
      obtain rest' s' where a: "ingest_active (\<lambda>carry s'. ingest_loop n verbose carry (add_fragment s'))
            verbose rest s = Inr (rest', s')" "progresses s rest s' rest'"
          "length rest' < length rest \<or> length (pending s' @ rest') < ?N" "length rest' \<le> length rest"
        using ingest_active_ok [OF Suc.prems(1) True ne, of
            "\<lambda>carry s'. ingest_loop n verbose carry (add_fragment s')" verbose] nested
        by blast
      then show ?thesis using ne True next_round by simp
    qed
  qed
qed

subsection \<open>The refinement\<close>

lemma ingest_fragment_refines:
  assumes "reasm_inv s"
  shows "\<exists>s'. ingest_fragment verbose data s = Inr s' \<and> reasm_inv s' \<and>
    parse_stream (view s) (pending s @ data) = (view s', pending s')"
  using ingest_loop_refines [of "add_fragment s" data "ingest_fuel data s" verbose] assms
  by (simp add: ingest_fragment_def ingest_fuel_def settles_def Let_def pending_def)

interpretation rx: stream_receiver parse_stream "ingest_fragment verbose" reasm_inv view pending
  for verbose
  by unfold_locales (rule ingest_fragment_refines)

lemma pending_init [simp]: "pending init_server = []"
  by (simp add: pending_def buffered_def init_server_def init_reassembly_def)

lemma view_init [simp]: "view init_server = init_stats"
  by (simp add: view_def init_server_def init_stats_def)

text \<open>Any datagrams, from the state in which a receive loop starts.\<close>

lemma run_ingest:
  obtains s where "run_steps (ingest_fragment verbose) ds init_server = Inr s" and "reasm_inv s"
    and "parse_stream init_stats (concat ds) = (view s, pending s)"
  using rx.run_refines [of init_server verbose ds] reasm_inv_settled [of init_server] by auto

lemma run_ingest_eq:
  assumes "run_steps (ingest_fragment verbose) ds init_server = Inr s"
  shows "reasm_inv s" and "parse_stream init_stats (concat ds) = (view s, pending s)"
  using run_ingest [of verbose ds] assms by (metis sum.inject(2))+

lemma stats_inv_view: "stats_inv (view s) = stats_inv (stats s)"
  by (simp add: stats_inv_def view_def split: option.split)

end
