(* ===== verification/Reassembly_Properties.thy ===== *)
theory Reassembly_Properties
  imports Reassembly_Correct Samples
begin

section \<open>Properties of reassembly\<close>

text \<open>
  What the reassembly of server.cpp guarantees, for any sequence of datagrams a receive loop may
  hand to \<open>ingest_fragment\<close>: it always succeeds, its effect is that of the parser on the
  concatenated bytes, and what that means for undamaged, damaged, split and foreign traffic.
\<close>

subsection \<open>Safety and refinement\<close>

text \<open>
  C2. From the state in which a receive loop starts, no sequence of datagrams, whatever bytes they
  hold, makes \<open>ingest_fragment\<close> fault: no read or write leaves the reassembly buffer, the
  loop and the recursive call on salvaged bytes end (the fuel is enough), and the buffer never
  exceeds the largest batch.
\<close>

theorem ingest_never_faults:
  "\<exists>s. run_steps (ingest_fragment verbose) ds init_server = Inr s \<and>
       length (buffer (reasm s)) \<le> kMaxBatchSize"
proof -
  obtain s where s: "run_steps (ingest_fragment verbose) ds init_server = Inr s" "reasm_inv s"
    using run_ingest [of verbose ds] by blast
  have "length (buffer (reasm s)) \<le> 65536"
    using s(2) opens_bounds(3) by (auto simp: reasm_inv_def Let_def split: if_splits)
  with s(1) show ?thesis by (simp add: kMaxBatchSize_def)
qed

text \<open>
  C3. \<open>ingest_fragment\<close> implements the stream parser: from any state that satisfies the
  reassembly invariant it returns, keeps the invariant, and its counters (other than the number of
  fragments) and waiting bytes are what \<open>parse_stream\<close> computes from the bytes that waited,
  followed by the datagram.
\<close>

theorem ingest_implements_parse_stream:
  assumes "reasm_inv s"
  shows "\<exists>s'. ingest_fragment verbose data s = Inr s' \<and> reasm_inv s' \<and>
    parse_stream (view s) (pending s @ data) = (view s', pending s')"
  using assms by (rule ingest_fragment_refines)

theorem ingest_implements_parse_stream_witness:
  "\<exists>s'. ingest_fragment True sample_batch0 init_server = Inr s' \<and> reasm_inv s' \<and>
     parse_stream init_stats sample_batch0 = (view s', pending s')"
  using ingest_implements_parse_stream [of init_server True sample_batch0] by simp

text \<open>
  C4. The division of the traffic into datagrams matters to the number of fragments only: two
  sequences of datagrams with the same bytes leave the same batches, bad, lost, duplicate and late
  counts, numbers seen and total of the session, and the same waiting bytes (with or without verbose
  output, with segments received one by one or coalesced). The number of fragments, which counts the
  datagrams themselves, is left out of the comparison.
\<close>

theorem ingest_chunking_independent:
  assumes "concat ds = concat es"
  shows "\<exists>s1 s2. run_steps (ingest_fragment v1) ds init_server = Inr s1 \<and>
    run_steps (ingest_fragment v2) es init_server = Inr s2 \<and>
    (stats s1)\<lparr>fragments := 0\<rparr> = (stats s2)\<lparr>fragments := 0\<rparr> \<and> pending s1 = pending s2"
proof -
  obtain s1 where 1: "run_steps (ingest_fragment v1) ds init_server = Inr s1"
    "parse_stream init_stats (concat ds) = (view s1, pending s1)" by (rule run_ingest)
  obtain s2 where 2: "run_steps (ingest_fragment v2) es init_server = Inr s2"
    "parse_stream init_stats (concat es) = (view s2, pending s2)" by (rule run_ingest)
  show ?thesis using 1 2 assms by (simp add: view_def)
qed

theorem ingest_chunking_independent_witness:
  "\<exists>s1 s2. run_steps (ingest_fragment False) [[80, 68], [85, 66, 0, 0, 0]] init_server = Inr s1 \<and>
     run_steps (ingest_fragment True) [[80], [68, 85, 66, 0], [0, 0]] init_server = Inr s2 \<and>
     (stats s1)\<lparr>fragments := 0\<rparr> = (stats s2)\<lparr>fragments := 0\<rparr> \<and> pending s1 = pending s2"
  using ingest_chunking_independent
    [of "[[80, 68], [85, 66, 0, 0, 0]]" "[[80], [68, 85, 66, 0], [0, 0]]" False True] by simp

subsection \<open>Undamaged traffic\<close>

lemma view_counters:
  assumes "view s = st"
  shows "batches (stats s) = batches st" "bad_batches (stats s) = bad_batches st"
    "lost (stats s) = lost st" "duplicates (stats s) = duplicates st"
    "out_of_order (stats s) = out_of_order st" "seen_seq (stats s) = seen_seq st"
    "wire_batch_total (stats s) = wire_batch_total st"
  using assms by auto

lemma count_batches:
  "foldl count_batch st sqs =
     (foldl track_sequence st sqs)\<lparr>batches := batches st + length sqs\<rparr>"
proof (induction sqs rule: rev_induct)
  case Nil
  then show ?case by simp
next
  case (snoc q sqs)
  have "track_sequence (st'\<lparr>batches := n\<rparr>) q = (track_sequence st' q)\<lparr>batches := n\<rparr>" for st' n
    by (simp add: track_sequence_def Let_def)
  with snoc show ?case by (simp add: count_batch_def Let_def)
qed

lemma track_sequence_start:
  "foldl track_sequence (init_stats\<lparr>wire_batch_total := w\<rparr>) sqs =
     (foldl track_sequence init_stats sqs)\<lparr>wire_batch_total := w\<rparr>"
proof (induction sqs rule: rev_induct)
  case Nil
  then show ?case by simp
next
  case (snoc q sqs)
  have "track_sequence (st'\<lparr>wire_batch_total := w\<rparr>) q = (track_sequence st' q)\<lparr>wire_batch_total := w\<rparr>" for st'
    by (simp add: track_sequence_def Let_def)
  with snoc show ?case by simp
qed

lemma track_sequence_start_frame:
  "bad_batches (foldl track_sequence st sqs) = bad_batches st"
  "lost (foldl track_sequence st sqs) = lost st"
  by (induction sqs arbitrary: st) simp_all

text \<open>The counters after a clean session, from the sequence numbers of its batches.\<close>

lemma clean_session_view:
  assumes "\<forall>b \<in> set bs. clean_batch t b" and "bs \<noteq> []" and "concat ds = concat bs"
  obtains s where "run_steps (ingest_fragment verbose) ds init_server = Inr s"
    and "reasm_inv s" and "pending s = []"
    and "view s = foldl count_batch (init_stats\<lparr>wire_batch_total := Some t\<rparr>) (map (hdr_seq \<circ> read_header) bs)"
proof -
  obtain s where s: "run_steps (ingest_fragment verbose) ds init_server = Inr s" "reasm_inv s"
    "parse_stream init_stats (concat ds) = (view s, pending s)" by (rule run_ingest)
  show thesis
    using that [OF s(1,2)] s(3) assms(3) parse_stream_clean [OF assms(1,2), of init_stats]
    by (simp add: init_stats_def)
qed

text \<open>
  C6. Undamaged batches of one session, more than a bare header each, in any order, with any
  repetitions and cut into datagrams in any way, are all accepted: each batch is counted once, none
  is bad, nothing waits at the end, and the duplicate and out-of-order counts are those of the
  sequence of numbers.
\<close>

theorem clean_session_counted:
  assumes "\<forall>b \<in> set bs. clean_batch t b" and "bs \<noteq> []" and "concat ds = concat bs"
  shows "\<exists>s. run_steps (ingest_fragment verbose) ds init_server = Inr s \<and>
    (let sqs = map (hdr_seq \<circ> read_header) bs; st = stats s in
       batches st = length bs \<and> bad_batches st = 0 \<and> seen_seq st = set sqs \<and>
       duplicates st = length bs - card (set sqs) \<and> out_of_order st = card (late_positions sqs) \<and>
       pending s = [])"
proof -
  let ?sqs = "map (hdr_seq \<circ> read_header) bs"
  obtain s where s: "run_steps (ingest_fragment verbose) ds init_server = Inr s" "pending s = []"
    "view s = foldl count_batch (init_stats\<lparr>wire_batch_total := Some t\<rparr>) ?sqs"
    using clean_session_view [OF assms] by blast
  note v = view_counters [OF s(3), unfolded count_batches track_sequence_start, simplified]
  have "duplicates (foldl track_sequence init_stats ?sqs) = length bs - card (set ?sqs)"
    "seen_seq (foldl track_sequence init_stats ?sqs) = set ?sqs"
    "out_of_order (foldl track_sequence init_stats ?sqs) = card (late_positions ?sqs)"
    using track_sequence_run [of ?sqs] unfolding Let_def by auto
  with s(1,2) v show ?thesis
    by (intro exI [of _ s]) (simp add: Let_def track_sequence_start_frame, simp add: init_stats_def)
qed

lemma sample_clean [simp]:
  "clean_batch 2 sample_batch0" "clean_batch 2 sample_batch1"
  by (simp_all add: clean_batch_def sample_batch0_header sample_batch1_header)

theorem clean_session_counted_witness:
  "\<exists>s. run_steps (ingest_fragment True) [take 30 (sample_batch1 @ sample_batch0),
        drop 30 (sample_batch1 @ sample_batch0)] init_server = Inr s \<and>
     batches (stats s) = 2 \<and> bad_batches (stats s) = 0 \<and> seen_seq (stats s) = {0, 1} \<and> pending s = []"
proof -
  let ?bs = "[sample_batch1, sample_batch0]"
  let ?ds = "[take 30 (sample_batch1 @ sample_batch0), drop 30 (sample_batch1 @ sample_batch0)]"
  have "set (map (hdr_seq \<circ> read_header) ?bs) = {0, 1}"
    by (auto simp: sample_batch0_header sample_batch1_header)
  moreover have "\<forall>b \<in> set ?bs. clean_batch 2 b" "?bs \<noteq> []" "concat ?ds = concat ?bs"
    by (simp_all del: take_append drop_append)
  note clean_session_counted [OF this, of True]
  ultimately show ?thesis by (auto simp only: Let_def length_Cons list.size numeral_2_eq_2 add_0)
qed

subsection \<open>The counters\<close>

text \<open>
  C7. The counters close after any traffic, damaged or not: every accepted batch is a new sequence
  number or a duplicate, all numbers are below the session's total, and the loop of
  \<open>finalize_lost\<close> (idle mode) ends with accepted and lost batches making up the total and the
  duplicates.
\<close>

theorem counters_close:
  "\<exists>s st. run_steps (ingest_fragment verbose) ds init_server = Inr s \<and> stats_inv (stats s) \<and>
     finalize_lost (stats s) None = Some st \<and>
     batches st + lost st =
       duplicates st + (case wire_batch_total st of None \<Rightarrow> 0 | Some t \<Rightarrow> unat t)"
proof -
  obtain s where s: "run_steps (ingest_fragment verbose) ds init_server = Inr s"
    "parse_stream init_stats (concat ds) = (view s, pending s)" by (rule run_ingest)
  have inv: "stats_inv (stats s)"
    using parse_stream_stats_inv [of init_stats "concat ds"] s(2) by (simp add: stats_inv_view)
  have "lost (fst (parse_stream init_stats (concat ds))) = lost init_stats"
    by (rule parse_stream_lost)
  then have l: "lost (stats s) = 0" using s(2) by (simp add: init_stats_def)
  show ?thesis
  proof (cases "wire_batch_total (stats s)")
    case None
    with inv have "seen_seq (stats s) = {}" "\<not> have_seq (stats s)"
      "batches (stats s) = duplicates (stats s)" by (auto simp: stats_inv_def)
    with s(1) inv None l show ?thesis by (simp add: finalize_lost_def lost_upper_def)
  next
    case (Some t)
    have sub: "seen_seq (stats s) \<subseteq> {s. s < t}" using inv Some by (auto simp: stats_inv_def)
    have "card (seen_seq (stats s)) \<le> unat t" using card_mono [OF _ sub] by (simp add: card_u32_below)
    moreover have "batches (stats s) = card (seen_seq (stats s)) + duplicates (stats s)"
      using inv by (simp add: stats_inv_def)
    ultimately show ?thesis using s(1) inv Some l finalize_lost_total [OF inv Some] by simp
  qed
qed

text \<open>
  C11. Nothing is counted that was not received: every sequence number the server has seen is that
  of a batch of the session that passes every check (checksum included) and occurs, contiguous, in
  the bytes received.
\<close>

theorem seen_batches_occur:
  assumes "run_steps (ingest_fragment verbose) ds init_server = Inr s" and "q \<in> seen_seq (stats s)"
  shows "\<exists>xs b ys. concat ds = xs @ b @ ys \<and> validate_batch b = Valid \<and> hdr_seq (read_header b) = q \<and>
    wire_batch_total (stats s) = Some (hdr_batch_total (read_header b))"
proof -
  have p: "parse_stream init_stats (concat ds) = (view s, pending s)"
    using run_ingest_eq(2) [OF assms(1)] .
  then have "q \<in> seen_seq (fst (parse_stream init_stats (concat ds)))" using assms(2) by simp
  from parse_stream_sound [OF this] p show ?thesis by (auto simp: occurs_batch_def init_stats_def)
qed

lemma sample_run:
  obtains s where "run_steps (ingest_fragment verbose) [sample_batch0 @ sample_batch1] init_server = Inr s"
    and "seen_seq (stats s) = {0, 1}" and "wire_batch_total (stats s) = Some 2"
proof -
  let ?bs = "[sample_batch0, sample_batch1]"
  have "\<forall>b \<in> set ?bs. clean_batch 2 b" "?bs \<noteq> []" "concat [sample_batch0 @ sample_batch1] = concat ?bs"
    by simp_all
  from clean_session_view [OF this] obtain s where
    s: "run_steps (ingest_fragment verbose) [sample_batch0 @ sample_batch1] init_server = Inr s"
    and v: "view s = foldl count_batch (init_stats\<lparr>wire_batch_total := Some 2\<rparr>) (map (hdr_seq \<circ> read_header) ?bs)"
    by blast
  have "seen_seq (stats s) = {0, 1}" "wire_batch_total (stats s) = Some 2"
    using view_counters [OF v]
    by (auto simp: sample_batch0_header sample_batch1_header init_stats_def)
  with s show thesis using that by blast
qed

theorem seen_batches_occur_witness:
  "\<exists>xs b ys. concat [sample_batch0 @ sample_batch1] = xs @ b @ ys \<and> validate_batch b = Valid \<and>
     hdr_seq (read_header b) = 1 \<and> hdr_batch_total (read_header b) = 2"
proof -
  obtain s where s: "run_steps (ingest_fragment False) [sample_batch0 @ sample_batch1] init_server = Inr s"
    "1 \<in> seen_seq (stats s)" "wire_batch_total (stats s) = Some 2"
    using sample_run [of False] by auto
  from seen_batches_occur [OF s(1,2)] s(3) show ?thesis by (metis option.inject)
qed

subsection \<open>Sessions\<close>

text \<open>
  C21. The first header that is accepted fixes the total of the session: after it, no traffic changes
  the total, and only batches with that total are counted.
\<close>

theorem session_total_is_pinned:
  assumes "reasm_inv s" and "stats_inv (stats s)" and "wire_batch_total (stats s) = Some t"
    and "ingest_fragment verbose data s = Inr s'"
  shows "wire_batch_total (stats s') = Some t \<and> (\<forall>q \<in> seen_seq (stats s'). q < t)"
proof -
  have p: "parse_stream (view s) (pending s @ data) = (view s', pending s')"
    using ingest_fragment_refines [OF assms(1), of verbose data] assms(4) by auto
  have "wire_batch_total (stats s') = Some t"
    using parse_stream_session [of "view s" t "pending s @ data"] p assms(3) by simp
  moreover have "stats_inv (stats s')"
    using parse_stream_stats_inv [of "view s" "pending s @ data"] p assms(2)
    by (simp add: stats_inv_view)
  ultimately show ?thesis by (auto simp: stats_inv_def)
qed

theorem session_total_is_pinned_witness:
  "\<exists>s s'. run_steps (ingest_fragment False) [sample_batch0 @ sample_batch1] init_server = Inr s \<and>
     ingest_fragment False sample_header_only s = Inr s' \<and> wire_batch_total (stats s') = Some 2 \<and>
     (\<forall>q \<in> seen_seq (stats s'). q < 2)"
proof -
  obtain s where s: "run_steps (ingest_fragment False) [sample_batch0 @ sample_batch1] init_server = Inr s"
    "wire_batch_total (stats s) = Some 2"
    using sample_run [of False] by auto
  have i: "reasm_inv s" "stats_inv (stats s)"
    using run_ingest_eq [OF s(1)] parse_stream_stats_inv [of init_stats "sample_batch0 @ sample_batch1"]
    by (simp_all add: stats_inv_view)
  obtain s' where s': "ingest_fragment False sample_header_only s = Inr s'"
    using ingest_fragment_refines [OF i(1)] by blast
  from session_total_is_pinned [OF i s(2) s'] s s' show ?thesis by blast
qed

text \<open>
  C22. The total is taken from a header before the checksum of its batch is known: 20 bytes that
  look like a header fix the total of the session, and whatever follows, every batch that is then
  counted has that total. Batches of the genuine session, with another total, are not.
\<close>

theorem unverified_header_fixes_total:
  assumes "length forged = 20" and "opens None forged" and "t = hdr_batch_total (read_header forged)"
  shows "\<exists>s. run_steps (ingest_fragment verbose) (forged # ds) init_server = Inr s \<and>
    wire_batch_total (stats s) = Some t \<and>
    (\<forall>q. q \<in> seen_seq (stats s) \<longrightarrow> (\<exists>xs b ys. concat (forged # ds) = xs @ b @ ys \<and>
       validate_batch b = Valid \<and> hdr_seq (read_header b) = q \<and> hdr_batch_total (read_header b) = t))"
proof -
  obtain s where s: "run_steps (ingest_fragment verbose) (forged # ds) init_server = Inr s"
    "parse_stream init_stats (concat (forged # ds)) = (view s, pending s)"
    using run_ingest [of verbose "forged # ds"] by blast
  have o: "opens (wire_batch_total init_stats) forged" using assms(2) by (simp add: init_stats_def)
  have "\<not> whole init_stats forged" using assms(1) by (simp add: whole_def)
  from parse_stream_wait [OF o this]
  have "parse_stream init_stats (forged @ concat ds) =
      parse_stream (begun init_stats forged) (forged @ concat ds)"
    using parse_stream_append [of init_stats forged "concat ds"] by simp
  moreover have "wire_batch_total (fst (parse_stream (begun init_stats forged) (forged @ concat ds))) = Some t"
    using assms(3) by (intro parse_stream_session) simp
  ultimately have w: "wire_batch_total (stats s) = Some t" using s(2) by simp
  have "\<exists>xs b ys. concat (forged # ds) = xs @ b @ ys \<and> validate_batch b = Valid \<and>
      hdr_seq (read_header b) = q \<and> hdr_batch_total (read_header b) = t"
    if "q \<in> seen_seq (stats s)" for q
    using parse_stream_sound [of q init_stats "concat (forged # ds)"] s(2) that w
    by (auto simp: occurs_batch_def init_stats_def)
  with s(1) w show ?thesis by blast
qed

theorem unverified_header_fixes_total_witness:
  "\<exists>s. run_steps (ingest_fragment False) [take 20 sample_batch0, sample_header_only] init_server = Inr s \<and>
     wire_batch_total (stats s) = Some 2"
proof -
  have "opens None sample_batch0"
    using clean_batch_opens [OF sample_clean(1)] by (auto simp: opens_def)
  then have "opens None (take 20 sample_batch0)"
    by (simp add: opens_def peek_batch_length_take20)
  moreover have "2 = hdr_batch_total (read_header (take 20 sample_batch0))"
    by (simp add: read_header_take sample_batch0_header)
  ultimately show ?thesis
    using unverified_header_fixes_total [of "take 20 sample_batch0" 2 False "[sample_header_only]"]
    by auto
qed

subsection \<open>Damaged and unusual batches\<close>

lemma count_batch_run:
  "batches (foldl count_batch st qs) = batches st + length qs"
  "bad_batches (foldl count_batch st qs) = bad_batches st"
  "seen_seq (foldl count_batch st qs) = seen_seq st \<union> set qs"
  "wire_batch_total (foldl count_batch st qs) = wire_batch_total st"
  by (induction qs arbitrary: st) auto

lemma parse_stream_clean_prefix:
  assumes "\<forall>b \<in> set bs. clean_batch t b" and "wire_batch_total st = Some t"
  shows "parse_stream st (concat bs @ rest) = parse_stream (foldl count_batch st (map (hdr_seq \<circ> read_header) bs)) rest"
  using assms
proof (induction bs arbitrary: st)
  case Nil
  then show ?case by simp
next
  case (Cons b bs)
  have "st\<lparr>wire_batch_total := Some t\<rparr> = st" using Cons.prems(2) by (cases st) simp
  then have "parse_stream st (b @ xs) = parse_stream (count_batch st (hdr_seq (read_header b))) xs" for xs
    using parse_stream_clean_one [of t b st xs] Cons.prems by (metis list.set_intros(1))
  then show ?case using Cons by simp
qed

text \<open>
  C12. A batch damaged in place costs one batch, wherever in the session it stands. The batch still
  starts with a plausible header of the session and still has the length this header gives, its
  checksum is wrong, and it holds no place at which parsing would resume (\<open>resync\<close>: the first
  later header of the session with the next number, if a whole valid batch starts there). Then it is
  counted bad once, and every undamaged batch before and behind it is accepted, however the bytes are
  cut into datagrams. Nothing is claimed of a batch whose header is damaged or that has lost bytes.
\<close>

theorem damaged_batch_is_isolated:
  assumes "\<forall>b \<in> set (before @ behind). clean_batch t b"
    and "opens (Some t) broken_batch" and "unat (hdr_length (read_header broken_batch)) = length broken_batch"
    and "20 < length broken_batch"
    and "validate_batch broken_batch \<noteq> Valid" and "resync (read_header broken_batch) broken_batch = None"
    and "concat ds = concat before @ broken_batch @ concat behind"
  shows "\<exists>s. run_steps (ingest_fragment verbose) ds init_server = Inr s \<and>
    bad_batches (stats s) = 1 \<and> batches (stats s) = length before + length behind \<and>
    seen_seq (stats s) = set (map (hdr_seq \<circ> read_header) (before @ behind)) \<and> pending s = []"
proof -
  let ?seqs = "map (hdr_seq \<circ> read_header)" and ?all = "concat before @ broken_batch @ concat behind"
  let ?st0 = "init_stats\<lparr>wire_batch_total := Some t\<rparr>" and ?b = "broken_batch @ concat behind"
  obtain s where s: "run_steps (ingest_fragment verbose) ds init_server = Inr s"
    "parse_stream init_stats (concat ds) = (view s, pending s)" by (rule run_ingest)
  have rh: "read_header ?b = read_header broken_batch" using assms(4) by (simp add: read_header_prefix)
  have ob: "opens (Some t) ?b" using assms(2,4) by (simp add: opens_append)
  have "opens (Some t) ?all"
  proof (cases before)
    case (Cons b bs)
    then have c: "clean_batch t b" using assms(1) by simp
    then have "20 \<le> length b" by (simp add: clean_batch_def)
    then show ?thesis using clean_batch_opens [OF c] Cons by (simp add: opens_append)
  qed (use ob in simp)
  then have "opens None ?all" "hdr_batch_total (read_header ?all) = t" by (auto simp: opens_def)
  then have "parse_stream init_stats ?all = parse_stream ?st0 ?all"
    using parse_stream_wire [of init_stats ?all] by (simp add: init_stats_def)
  also have "\<dots> = parse_stream (foldl count_batch ?st0 (?seqs before)) ?b"
    using assms(1) by (intro parse_stream_clean_prefix) simp_all
  also have "\<dots> = parse_stream (broken (foldl count_batch ?st0 (?seqs before)) ?b) (concat behind)" (is "_ = parse_stream ?st1 _")
  proof -
    have "whole (foldl count_batch ?st0 (?seqs before)) ?b"
      using ob assms(3,4) unfolding whole_def rh by (simp add: count_batch_run)
    moreover have "front ?b = broken_batch" "after_front ?b = concat behind"
      using assms(3) unfolding front_def after_front_def rh by simp_all
    ultimately show ?thesis using parse_stream_broken assms(5,6) rh by metis
  qed
  also have "\<dots> = parse_stream (foldl count_batch ?st1 (?seqs behind)) []"
  proof -
    have "wire_batch_total ?st1 = Some t" using ob by (auto simp: opens_def)
    then show ?thesis using assms(1) parse_stream_clean_prefix [of behind t ?st1 "[]"] by simp
  qed
  finally have v: "view s = foldl count_batch ?st1 (?seqs behind)" and p: "pending s = []"
    using s(2) assms(7) by (simp_all add: parse_stream_short)
  from s(1) p view_counters [OF v] show ?thesis
    by (intro exI [of _ s]) (simp add: count_batch_run, simp add: init_stats_def)
qed

lemma sample_broken:
  "opens None (take 20 sample_batch0 @ [8])"
  "read_header (take 20 sample_batch0 @ [8]) = read_header sample_batch0"
  "validate_batch (take 20 sample_batch0 @ [8]) \<noteq> Valid"
  "resync (read_header sample_batch0) (take 20 sample_batch0 @ [8]) = None"
proof -
  have l: "20 \<le> length (take 20 sample_batch0)" by simp
  show h: "read_header (take 20 sample_batch0 @ [8]) = read_header sample_batch0"
    by (simp add: read_header_prefix [OF l] read_header_take)
  have "opens None sample_batch0" using clean_batch_opens [OF sample_clean(1)] by (auto simp: opens_def)
  then show "opens None (take 20 sample_batch0 @ [8])"
    by (simp add: opens_append) (simp add: opens_def peek_batch_length_take20)
  have "sample_batch0 = take 20 sample_batch0 @ [7] @ []" by (simp add: sample_batch0_def)
  then have "validate_batch (take 20 sample_batch0 @ [7] @ []) = Valid"
    using sample_valid(1) by (simp only: simp_thms)
  from validate_batch_burst(1) [OF this, of "[8]"] show "validate_batch (take 20 sample_batch0 @ [8]) \<noteq> Valid"
    by simp
  have "peek_batch_length (drop 1 (take 20 sample_batch0 @ [8])) = 0"
    by (simp add: sample_batch0_def peek_batch_length_def read_header_def le32_of_def kPacketMagic_def)
  moreover have "[1 ..< length (take 20 sample_batch0 @ [8 :: byte]) - 19] = [1]"
    by (simp add: upt_rec)
  ultimately show "resync (read_header sample_batch0) (take 20 sample_batch0 @ [8]) = None"
    unfolding resync_def resync_at_def opens_def by (simp del: drop_append)
qed

theorem damaged_batch_is_isolated_witness:
  "\<exists>s. run_steps (ingest_fragment True) [sample_batch1 @ take 20 sample_batch0, [8], sample_batch1] init_server = Inr s \<and>
     bad_batches (stats s) = 1 \<and> batches (stats s) = length [sample_batch1] + length [sample_batch1] \<and>
     seen_seq (stats s) = set (map (hdr_seq \<circ> read_header) ([sample_batch1] @ [sample_batch1])) \<and> pending s = []"
proof (rule damaged_batch_is_isolated)
  let ?b = "take 20 sample_batch0 @ [8]"
  show "resync (read_header ?b) ?b = None"
    unfolding sample_broken(2) by (rule sample_broken(4))
  show "opens (Some 2) ?b"
    using sample_broken(1) unfolding opens_def sample_broken(2) by (simp add: sample_batch0_header)
  show "unat (hdr_length (read_header ?b)) = length ?b"
    unfolding sample_broken(2) by (simp add: sample_batch0_header)
qed (simp_all add: sample_broken)

text \<open>
  C24. What \<open>try_complete_batch\<close> carries over from a batch that failed is a proper suffix of it
  that starts with a whole batch passing every check, and that batch lies inside the failed one:
  so it is shorter. A batch of the same size as the failed one is never salvaged.
\<close>

theorem salvage_is_sound_and_shorter:
  assumes "salvage_carry buf batch_len header wire = Inr (carry, wire')" and "carry \<noteq> []"
    and "length buf = batch_len"
  shows "\<exists>at. 1 \<le> at \<and> at < batch_len \<and> carry = drop at buf \<and>
    (let n = unat (hdr_length (read_header carry)) in
       validate_batch (take n carry) = Valid \<and> n \<le> length carry \<and> n < batch_len)"
proof -
  obtain at w where f: "20 < batch_len" "at < batch_len" "carry = drop at buf"
    "find_next_batch_header_offset (take batch_len buf)
       (if header_meta_plausible (hdr_seq header) (hdr_batch_total header) (hdr_length header)
        then if hdr_seq header + 1 < hdr_batch_total header then Some (hdr_seq header + 1) else None
        else None) wire = (at, w)"
    "read_at buf at kPacketHeaderSize \<noteq> Inl OutOfBounds"
    "unat (hdr_length (read_header (take 20 (drop at buf)))) \<le> batch_len - at"
    "validate_batch (take (unat (hdr_length (read_header (take 20 (drop at buf))))) (drop at buf)) = Valid"
    using assms(1,2)
    by (auto simp: salvage_carry_def Let_def kPacketHeaderSize_def read_at_def
        split: if_splits sum.splits prod.splits)
  have "1 \<le> at"
    using f(1,4) assms(3)
    by (auto simp: find_next_batch_header_offset_def kPacketHeaderSize_def split: prod.splits if_splits)
  moreover have "20 \<le> length (drop at buf)"
    using f(5) by (auto simp: read_at_def kPacketHeaderSize_def split: if_splits)
  then have "read_header (take 20 (drop at buf)) = read_header (drop at buf)"
    by (simp add: read_header_take)
  ultimately show ?thesis using f assms(3) by (intro exI [of _ at]) (auto simp: Let_def)
qed

text \<open>A batch of 42 bytes with a wrong checksum whose payload is a whole batch.\<close>

definition sample_cover :: "byte list" where
  "sample_cover = [80, 68, 85, 66, 0, 0, 0, 0, 2, 0, 0, 0, 42, 0, 0, 0, 0, 0, 0, 0] @ sample_batch1"

lemma find_next_loop_skip:
  "20 \<le> length data \<Longrightarrow> take 4 data \<noteq> [80, 68, 85, 66] \<Longrightarrow>
    find_next_loop data want w = (let (i, w') = find_next_loop (drop 1 data) want w in (Suc i, w'))"
  using peek_batch_length_magic [of data]
  by (cases "peek_batch_length data = 0")
    (simp_all add: find_next_loop.simps [of data want w] kPacketHeaderSize_def)

lemma sample_cover_header:
  "read_header sample_cover = \<lparr>hdr_magic = kPacketMagic, hdr_seq = 0, hdr_batch_total = 2,
     hdr_length = 42, hdr_crc32 = 0\<rparr>"
  by (simp add: sample_cover_def read_header_def le32_of_def kPacketMagic_def)

lemma sample_cover_scan:
  "find_next_batch_header_offset sample_cover (Some 1) (Some 2) = (20, Some 2)"
proof -
  have "20 \<le> length sample_batch1" by simp
  have p: "peek_batch_length sample_batch1 = 22"
    by (simp add: peek_batch_length_def kPacketHeaderSize_def sample_batch1_header header_meta_plausible_iff)
  have "find_next_loop sample_batch1 (Some 1) (Some 2) = (0, Some 2)"
    by (simp add: find_next_loop.simps [of sample_batch1] p sample_batch1_header kPacketHeaderSize_def
       kMaxBatchSize_def validate_batch_session_def header_meta_plausible_iff)
  then show ?thesis
    by (simp add: find_next_batch_header_offset_def sample_cover_def find_next_loop_skip kPacketHeaderSize_def)
qed

lemma sample_cover_salvage:
  "salvage_carry sample_cover 42 (read_header sample_cover) (Some 2) = Inr (sample_batch1, Some 2)"
proof -
  have l: "length sample_cover = 42" and d: "drop 20 sample_cover = sample_batch1"
    by (simp_all add: sample_cover_def)
  show ?thesis
    by (simp add: salvage_carry_def sample_cover_header sample_cover_scan kPacketHeaderSize_def
      header_meta_plausible_iff l d read_header_take sample_batch1_header Let_def)
qed

theorem salvage_is_sound_and_shorter_witness:
  "salvage_carry sample_cover 42 (read_header sample_cover) (Some 2) = Inr (sample_batch1, Some 2) \<and>
   (\<exists>at. 1 \<le> at \<and> at < 42 \<and> sample_batch1 = drop at sample_cover)"
proof -
  have "sample_batch1 \<noteq> []" "length sample_cover = 42"
    by (simp_all add: sample_batch1_def sample_cover_def)
  from salvage_is_sound_and_shorter [OF sample_cover_salvage this] sample_cover_salvage
  show ?thesis by blast
qed

text \<open>The state after a batch that is all header, delivered alone.\<close>

lemma header_only_held:
  assumes "validate_batch b = Valid" and "length b = 20"
  obtains s where "ingest_fragment verbose b init_server = Inr s" and "reasm_inv s"
    and "view s = begun init_stats b" and "pending s = b"
    and "active (reasm s)" and "filled (reasm s) = 20" and "expected (reasm s) = 20"
proof -
  obtain s where s: "ingest_fragment verbose b init_server = Inr s" "reasm_inv s"
    "parse_stream init_stats b = (view s, pending s)"
    using ingest_fragment_refines [of init_server verbose b] by auto
  have v: "unat (hdr_length (read_header b)) = 20" and o: "opens None b"
    using assms by (simp_all add: validate_batch_Valid_iff opens_def peek_batch_length_nz
        header_meta_plausible_iff)
  have "parse_stream init_stats b = (begun init_stats b, b)"
    using o assms(2) by (intro parse_stream_wait) (simp_all add: init_stats_def whole_def)
  with s(3) have w: "view s = begun init_stats b" "pending s = b" by auto
  have act: "active (reasm s)"
    using s(2) w(2) assms(2)
    by (cases "active (reasm s)") (auto simp: reasm_inv_def Let_def pending_def buffered_def)
  have t: "take (filled (reasm s)) (buffer (reasm s)) = b"
    using w(2) act by (simp add: pending_def buffered_def)
  then have "length (take (filled (reasm s)) (buffer (reasm s))) = 20" using assms(2) by simp
  then have fl: "filled (reasm s) = 20" using s(2) act by (simp add: reasm_inv_def Let_def)
  then have "20 \<le> length (buffer (reasm s))" using s(2) act by (simp add: reasm_inv_def Let_def)
  then have "read_header (buffer (reasm s)) = read_header b"
    using t fl read_header_take [of 20 "buffer (reasm s)"] by simp
  moreover have "expected (reasm s) = unat (hdr_length (read_header (buffer (reasm s))))"
    using s(2) act by (simp add: reasm_inv_def Let_def)
  ultimately have "expected (reasm s) = 20" using v by (simp only:)
  then show thesis by (rule that [OF s(1,2) w act fl])
qed

text \<open>
  C23. A batch that is all header (\<open>--size 20\<close>) is complete when its header is, but the server
  completes it only when another byte arrives: delivered alone it stays in the buffer, full and not
  counted, so the last one of a session ends as incomplete. The next datagram, of any bytes,
  completes it.
\<close>

theorem header_only_batch_waits:
  assumes "validate_batch b = Valid" and "length b = 20" and "d \<noteq> []"
  shows "\<exists>s s'. ingest_fragment verbose b init_server = Inr s \<and>
    active (reasm s) \<and> filled (reasm s) = expected (reasm s) \<and> batches (stats s) = 0 \<and>
    ingest_fragment verbose d s = Inr s' \<and> 1 \<le> batches (stats s') \<and> hdr_seq (read_header b) \<in> seen_seq (stats s')"
proof -
  obtain s where s: "ingest_fragment verbose b init_server = Inr s" "reasm_inv s"
    "view s = begun init_stats b" "pending s = b"
    "active (reasm s)" "filled (reasm s) = 20" "expected (reasm s) = 20"
    using header_only_held [OF assms(1,2)] by blast
  obtain s' where s': "ingest_fragment verbose d s = Inr s'"
    "parse_stream (view s) (pending s @ d) = (view s', pending s')"
    using ingest_fragment_refines [OF s(2), of verbose d] by auto
  let ?bs = "b @ d" and ?st = "count_batch (begun (view s) (b @ d)) (hdr_seq (read_header b))"
  have v: "unat (hdr_length (read_header b)) = 20" and o: "opens (Some (hdr_batch_total (read_header b))) b"
    using assms(1,2) by (simp_all add: validate_batch_Valid_iff opens_def peek_batch_length_nz
        header_meta_plausible_iff)
  have rh: "read_header ?bs = read_header b" using assms(2) by (simp add: read_header_prefix)
  have "whole (view s) ?bs"
    using o assms(2,3) v s(3) unfolding whole_def rh by (simp add: opens_append)
  moreover have "front ?bs = b" using v assms(2) unfolding front_def rh by simp
  ultimately have p: "parse_stream (view s) (pending s @ d) = parse_stream ?st (after_front ?bs)"
    using parse_stream_valid assms(1) rh s(4) by simp
  have q: "parse_stream ?st (after_front ?bs) = (view s', pending s')"
    using s'(2) unfolding p .
  have "batches ?st \<le> batches (view s')" "seen_seq ?st \<subseteq> seen_seq (view s')"
    using parse_stream_batches_mono [of ?st "after_front ?bs"] unfolding q by simp_all
  then have "1 \<le> batches (stats s')" "hdr_seq (read_header b) \<in> seen_seq (stats s')" by auto
  moreover have "batches (stats s) = 0" using view_counters [OF s(3)] by (simp add: init_stats_def)
  ultimately show ?thesis using s(1,5-7) s'(1) by auto
qed

theorem header_only_batch_waits_witness:
  "\<exists>s s'. ingest_fragment True sample_header_only init_server = Inr s \<and>
     active (reasm s) \<and> filled (reasm s) = expected (reasm s) \<and> batches (stats s) = 0 \<and>
     ingest_fragment True [0] s = Inr s' \<and> 1 \<le> batches (stats s') \<and>
     hdr_seq (read_header sample_header_only) \<in> seen_seq (stats s')"
  by (rule header_only_batch_waits) simp_all

end
