(* ===== verification/Uso_Recv.thy ===== *)
theory Uso_Recv
  imports Sockaddr
begin

section \<open>Coalesced receive (uso_recv.hpp, uso_recv_win.cpp)\<close>

text \<open>
  The configuration of receive coalescing and the blocking read. The Windows socket calls are
  parameters, the fields of a record of functions on a world \<open>'w\<close>: an error is the code that
  \<open>WSAGetLastError\<close> reports. An entry point that may be missing is an \<open>option\<close>.
\<close>

definition kUroMaxCoalescedRecv :: nat where
  "kUroMaxCoalescedRecv = 64 * 1024"

definition WSAETIMEDOUT :: nat where "WSAETIMEDOUT = 10060"
definition WSAEWOULDBLOCK :: nat where "WSAEWOULDBLOCK = 10035"
definition IPPROTO_UDP :: nat where "IPPROTO_UDP = 17"
definition UDP_COALESCED_INFO :: nat where "UDP_COALESCED_INFO = 3"

text \<open>A control message with one \<open>DWORD\<close> of data; \<open>WSA_CMSG_LEN(sizeof(DWORD))\<close> is 20.\<close>

definition wsa_cmsg_len_dword :: nat where "wsa_cmsg_len_dword = 20"

record cmsg =
  cmsg_level :: nat
  cmsg_type :: nat
  cmsg_len :: nat
  cmsg_dword :: u32

record received =
  rm_data :: "byte list"
  rm_name :: sockaddr
  rm_namelen :: int
  rm_control :: "cmsg list"

record 'w uro_api =
  api_set_coalesced :: "(u32 \<Rightarrow> 'w \<Rightarrow> nat option \<times> 'w) option"
  api_setsockopt_coalesced :: "u32 \<Rightarrow> 'w \<Rightarrow> nat option \<times> 'w"
  api_get_coalesced :: "('w \<Rightarrow> (nat + u32) \<times> 'w) option"
  api_getsockopt_coalesced :: "'w \<Rightarrow> (nat + u32) \<times> 'w"
  api_recvmsg :: "(nat \<Rightarrow> 'w \<Rightarrow> (nat + received) \<times> 'w) option"

datatype uro_error =
    UroSetFailed nat
  | UroSetsockoptFailed nat
  | UroGetFailed nat
  | UroGetsockoptFailed nat
  | UroSizeMismatch u32 u32
  | UroMaxSizeRange
  | UroInvalidBuffer
  | UroRecvMsgUnavailable
  | UroRecvMsgFailed nat

subsection \<open>Configuration\<close>

definition get_udp_recv_max_coalesced_size :: "'w uro_api \<Rightarrow> 'w \<Rightarrow> (uro_error + u32) \<times> 'w" where
  "get_udp_recv_max_coalesced_size api w =
     (case api_get_coalesced api of
        Some get_fn \<Rightarrow>
          (case get_fn w of
             (Inr v, w') \<Rightarrow> (Inr v, w')
           | (Inl e, w') \<Rightarrow> (Inl (UroGetFailed e), w'))
      | None \<Rightarrow>
          (case api_getsockopt_coalesced api w of
             (Inr v, w') \<Rightarrow> (Inr v, w')
           | (Inl e, w') \<Rightarrow> (Inl (UroGetsockoptFailed e), w')))"

definition set_udp_recv_max_coalesced_size ::
  "'w uro_api \<Rightarrow> u32 \<Rightarrow> 'w \<Rightarrow> uro_error option \<times> 'w" where
  "set_udp_recv_max_coalesced_size api max_size w =
     (let (failed, w1) =
        (case api_set_coalesced api of
           Some set_fn \<Rightarrow>
             (case set_fn max_size w of
                (Some e, w') \<Rightarrow> (Some (UroSetFailed e), w') | (None, w') \<Rightarrow> (None, w'))
         | None \<Rightarrow>
             (case api_setsockopt_coalesced api max_size w of
                (Some e, w') \<Rightarrow> (Some (UroSetsockoptFailed e), w') | (None, w') \<Rightarrow> (None, w')))
      in case failed of
           Some e \<Rightarrow> (Some e, w1)
         | None \<Rightarrow>
             (case get_udp_recv_max_coalesced_size api w1 of
                (Inl e, w2) \<Rightarrow> (Some e, w2)
              | (Inr actual, w2) \<Rightarrow>
                  if actual \<noteq> max_size then (Some (UroSizeMismatch actual max_size), w2)
                  else (None, w2)))"

definition uro_configure_recv_socket :: "'w uro_api \<Rightarrow> nat \<Rightarrow> 'w \<Rightarrow> uro_error option \<times> 'w" where
  "uro_configure_recv_socket api max_coalesced_size w =
     (if max_coalesced_size = 0 \<or> kUroMaxCoalescedRecv < max_coalesced_size
      then (Some UroMaxSizeRange, w)
      else set_udp_recv_max_coalesced_size api (of_nat max_coalesced_size) w)"

subsection \<open>Receiving\<close>

record uro_recv_result =
  uro_success :: bool
  uro_bytes_received :: int
  uro_coalesced :: bool
  uro_segment_size :: u32
  uro_remote :: "endpoint option"
  uro_error :: "uro_error option"

definition init_uro_result :: uro_recv_result where
  "init_uro_result = \<lparr>uro_success = False, uro_bytes_received = 0, uro_coalesced = False,
     uro_segment_size = 0, uro_remote = None, uro_error = None\<rparr>"

text \<open>The loop over the control messages stops at the first coalescing record that is long enough.\<close>

fun find_coalesced :: "cmsg list \<Rightarrow> u32 option" where
  "find_coalesced [] = None"
| "find_coalesced (cm # cms) =
     (if cmsg_level cm = IPPROTO_UDP \<and> cmsg_type cm = UDP_COALESCED_INFO
         \<and> wsa_cmsg_len_dword \<le> cmsg_len cm
      then Some (cmsg_dword cm) else find_coalesced cms)"

text \<open>The result, with the bytes that are in the caller's buffer afterwards.\<close>

definition uro_recv_msg ::
  "'w uro_api \<Rightarrow> nat \<Rightarrow> 'w \<Rightarrow> (uro_recv_result \<times> byte list) \<times> 'w" where
  "uro_recv_msg api buffer_capacity w =
     (let result = init_uro_result in
      if buffer_capacity = 0 \<or> kUroMaxCoalescedRecv < buffer_capacity
      then ((result\<lparr>uro_error := Some UroInvalidBuffer\<rparr>, []), w)
      else case api_recvmsg api of
        None \<Rightarrow> ((result\<lparr>uro_error := Some UroRecvMsgUnavailable\<rparr>, []), w)
      | Some wsarecvmsg \<Rightarrow>
          (case wsarecvmsg buffer_capacity w of
             (Inl err, w') \<Rightarrow>
               if err = WSAETIMEDOUT \<or> err = WSAEWOULDBLOCK then ((result, []), w')
               else ((result\<lparr>uro_error := Some (UroRecvMsgFailed err)\<rparr>, []), w')
           | (Inr m, w') \<Rightarrow>
               let result1 = result\<lparr>uro_bytes_received := sint (of_nat (length (rm_data m)) :: u32),
                     uro_success := True,
                     uro_remote := sockaddr_to_endpoint (rm_name m) (rm_namelen m)\<rparr>
               in ((case find_coalesced (rm_control m) of
                      Some seg \<Rightarrow> result1\<lparr>uro_coalesced := True, uro_segment_size := seg\<rparr>
                    | None \<Rightarrow> result1, rm_data m), w')))"

subsection \<open>Correctness\<close>

lemma uro_configure_ok:
  assumes "uro_configure_recv_socket api n w = (None, w')"
  shows "0 < n \<and> n \<le> 65536"
    and "\<exists>w1. get_udp_recv_max_coalesced_size api w1 = (Inr (of_nat n), w')"
proof -
  have c: "0 < n" "n \<le> kUroMaxCoalescedRecv"
    "set_udp_recv_max_coalesced_size api (of_nat n) w = (None, w')"
    using assms by (auto simp: uro_configure_recv_socket_def split: if_splits)
  then show "0 < n \<and> n \<le> 65536" by (simp add: kUroMaxCoalescedRecv_def)
  show "\<exists>w1. get_udp_recv_max_coalesced_size api w1 = (Inr (of_nat n), w')"
    using c(3)
    by (auto simp: set_udp_recv_max_coalesced_size_def Let_def
        split: option.splits prod.splits sum.splits if_splits)
qed

text \<open>The read succeeds, times out silently, or reports an error: never two of them.\<close>

lemma uro_recv_msg_outcome:
  assumes "uro_recv_msg api cap w = ((r, data), w')"
  shows "uro_success r \<longrightarrow> uro_error r = None"
    and "\<not> uro_success r \<longrightarrow> uro_bytes_received r = 0 \<and> \<not> uro_coalesced r \<and> data = []"
    and "uro_success r \<longrightarrow> length data \<le> cap \<longrightarrow> uro_bytes_received r = int (length data)"
proof -
  have s: "sint (of_nat n :: u32) = int n" if "n \<le> 65536" for n
    using that by (simp add: signed_of_nat signed_take_bit_int_eq_self)
  show "uro_success r \<longrightarrow> uro_error r = None"
    "\<not> uro_success r \<longrightarrow> uro_bytes_received r = 0 \<and> \<not> uro_coalesced r \<and> data = []"
    "uro_success r \<longrightarrow> length data \<le> cap \<longrightarrow> uro_bytes_received r = int (length data)"
    using assms
    by (auto simp: uro_recv_msg_def init_uro_result_def Let_def kUroMaxCoalescedRecv_def s
        split: if_splits option.splits prod.splits sum.splits)
qed

end
