(* ===== verification/Cli.thy ===== *)
theory Cli
  imports Common
begin

section \<open>Command lines (cli.hpp)\<close>

text \<open>
  The option parsers of both programs. A command line is the list of the arguments after the
  program name; a parser that returns \<open>false\<close> after printing the help text returns \<open>None\<close>.
  The loops over \<open>argv\<close> are recursions on the arguments that are left.
\<close>

definition kUsoMaxBytesPerBatch :: nat where
  "kUsoMaxBytesPerBatch = 64 * 1024"

definition kUsoMaxSegmentSize :: nat where
  "kUsoMaxSegmentSize = 1472"

lemmas cli_consts =
  kMaxBatchSize_def kDefaultMss_def kUsoMaxBytesPerBatch_def kUsoMaxSegmentSize_def kPacketHeaderSize_def

subsection \<open>Options\<close>

record server_options =
  opt_bind_address :: string
  opt_port :: u16
  opt_batch_count :: "nat option"
  opt_verbose :: bool
  opt_uro :: bool
  opt_loop :: bool
  opt_loop_count :: "nat option"

definition default_server_options :: server_options where
  "default_server_options = \<lparr>opt_bind_address = ''0.0.0.0'', opt_port = 0, opt_batch_count = None,
     opt_verbose = False, opt_uro = False, opt_loop = False, opt_loop_count = None\<rparr>"

record client_options =
  opt_source_address :: string
  opt_dest_address :: string
  opt_dest_port :: u16
  opt_batch_size :: nat
  opt_send_count :: nat
  opt_mss :: nat
  opt_no_pktinfo :: bool
  opt_completion_routine :: bool

definition default_client_options :: client_options where
  "default_client_options = \<lparr>opt_source_address = ''0.0.0.0'', opt_dest_address = [], opt_dest_port = 0,
     opt_batch_size = 0, opt_send_count = 10, opt_mss = kDefaultMss, opt_no_pktinfo = False,
     opt_completion_routine = False\<rparr>"

definition is_help_flag :: "string \<Rightarrow> bool" where
  "is_help_flag arg \<longleftrightarrow> arg = ''--help'' \<or> arg = ''-h''"

text \<open>\<open>strchr(arg, '=')\<close>: the text after the first equals sign.\<close>

definition after_equals :: "string \<Rightarrow> string option" where
  "after_equals arg =
     (case dropWhile (\<lambda>c. c \<noteq> CHR ''='') arg of [] \<Rightarrow> None | _ # r \<Rightarrow> Some r)"

definition option_key :: "string \<Rightarrow> string" where
  "option_key arg = takeWhile (\<lambda>c. c \<noteq> CHR ''='') arg"

definition option_value :: "string \<Rightarrow> string list \<Rightarrow> cli_error + (string \<times> string list)" where
  "option_value arg rest =
     (case after_equals arg of
        Some v \<Rightarrow> Inr (v, rest)
      | None \<Rightarrow> (case rest of [] \<Rightarrow> Inl (MissingValue arg) | v # rest' \<Rightarrow> Inr (v, rest')))"

text \<open>\<open>argv[i][0] == '-'\<close>; the first character of an empty argument is the null character.\<close>

definition starts_dash :: "string \<Rightarrow> bool" where
  "starts_dash arg \<longleftrightarrow> (case arg of [] \<Rightarrow> False | c # _ \<Rightarrow> c = CHR ''-'')"

lemma option_value_rest: "option_value arg rest = Inr (v, rest') \<Longrightarrow> length rest' \<le> length rest"
  by (auto simp: option_value_def split: option.splits list.splits)

text \<open>
  The count that may follow \<open>--loop\<close>: after an equals sign, or as the next argument when it
  starts with a digit.
\<close>

definition loop_value :: "string \<Rightarrow> string list \<Rightarrow> cli_error + (nat option \<times> string list)" where
  "loop_value arg rest =
     (case after_equals arg of
        Some v \<Rightarrow> then_do (parse_count v) (\<lambda>n. Inr (Some n, rest))
      | None \<Rightarrow>
          (case rest of
             [] \<Rightarrow> Inr (None, rest)
           | nxt # rest' \<Rightarrow>
               if \<not> starts_dash nxt \<and> nxt \<noteq> [] \<and> is_digit (hd nxt)
               then then_do (parse_count nxt) (\<lambda>n. Inr (Some n, rest'))
               else Inr (None, rest)))"

lemma loop_value_rest: "loop_value arg rest = Inr (n, rest') \<Longrightarrow> length rest' \<le> length rest"
  by (auto simp: loop_value_def then_do_eq_Inr split: option.splits list.splits if_splits)

function server_args :: "platform \<Rightarrow> server_options \<Rightarrow> string list \<Rightarrow> cli_error + server_options" where
  "server_args pf out [] = Inr out"
| "server_args pf out (arg # rest) =
     (if is_help_flag arg then server_args pf out rest
      else if \<not> starts_dash arg then Inl (UnexpectedArgument arg)
      else
        let key = option_key arg in
        if key = ''--bind'' then then_do (option_value arg rest) (\<lambda>(v, rest').
             server_args pf (out\<lparr>opt_bind_address := v\<rparr>) rest')
        else if key = ''--port'' then then_do (option_value arg rest) (\<lambda>(v, rest').
             then_do (parse_port pf v) (\<lambda>p. server_args pf (out\<lparr>opt_port := p\<rparr>) rest'))
        else if key = ''--count'' then then_do (option_value arg rest) (\<lambda>(v, rest').
             then_do (parse_count v) (\<lambda>n. server_args pf (out\<lparr>opt_batch_count := Some n\<rparr>) rest'))
        else if key = ''-v'' then server_args pf (out\<lparr>opt_verbose := True\<rparr>) rest
        else if key = ''--uro'' then server_args pf (out\<lparr>opt_uro := True\<rparr>) rest
        else if key = ''--loop'' then
          (if opt_batch_count out \<noteq> None then Inl LoopWithCount
           else then_do (loop_value arg rest) (\<lambda>(n, rest').
             server_args pf (out\<lparr>opt_loop := True,
               opt_loop_count := (case n of None \<Rightarrow> opt_loop_count out | Some k \<Rightarrow> Some k)\<rparr>) rest'))
        else Inl (UnknownOption key))"
  by pat_completeness auto
termination
  by (relation "measure (\<lambda>(pf, out, args). length args)")
    (auto dest!: option_value_rest loop_value_rest)

definition parse_server_options ::
  "platform \<Rightarrow> string list \<Rightarrow> cli_error + server_options option" where
  "parse_server_options pf args =
     (if list_ex is_help_flag args then Inr None
      else then_do (server_args pf default_server_options args) (\<lambda>out.
        if opt_port out = 0 then Inl PortRequired
        else if pf = Linux \<and> opt_uro out then Inl UroOnlyOnWindows
        else Inr (Some out)))"

function client_args :: "platform \<Rightarrow> client_options \<Rightarrow> string list \<Rightarrow> cli_error + client_options" where
  "client_args pf out [] = Inr out"
| "client_args pf out (arg # rest) =
     (if is_help_flag arg then client_args pf out rest
      else if \<not> starts_dash arg then Inl (UnexpectedArgument arg)
      else
        let key = option_key arg in
        if key = ''--source'' then then_do (option_value arg rest) (\<lambda>(v, rest').
             client_args pf (out\<lparr>opt_source_address := v\<rparr>) rest')
        else if key = ''--dest'' then then_do (option_value arg rest) (\<lambda>(v, rest').
             client_args pf (out\<lparr>opt_dest_address := v\<rparr>) rest')
        else if key = ''--port'' then then_do (option_value arg rest) (\<lambda>(v, rest').
             then_do (parse_port pf v) (\<lambda>p. client_args pf (out\<lparr>opt_dest_port := p\<rparr>) rest'))
        else if key = ''--size'' then then_do (option_value arg rest) (\<lambda>(v, rest').
             then_do (parse_batch_size v) (\<lambda>n. client_args pf (out\<lparr>opt_batch_size := n\<rparr>) rest'))
        else if key = ''--count'' then then_do (option_value arg rest) (\<lambda>(v, rest').
             then_do (parse_count v) (\<lambda>n. client_args pf (out\<lparr>opt_send_count := n\<rparr>) rest'))
        else if key = ''--mss'' then then_do (option_value arg rest) (\<lambda>(v, rest').
             then_do (parse_mss v) (\<lambda>n. client_args pf (out\<lparr>opt_mss := n\<rparr>) rest'))
        else if key = ''--no-pktinfo'' then client_args pf (out\<lparr>opt_no_pktinfo := True\<rparr>) rest
        else if key = ''--completion-routine'' then client_args pf (out\<lparr>opt_completion_routine := True\<rparr>) rest
        else Inl (UnknownOption key))"
  by pat_completeness auto
termination
  by (relation "measure (\<lambda>(pf, out, args). length args)")
    (auto dest!: option_value_rest)

definition parse_client_options ::
  "platform \<Rightarrow> string list \<Rightarrow> cli_error + client_options option" where
  "parse_client_options pf args =
     (if list_ex is_help_flag args then Inr None
      else then_do (client_args pf default_client_options args) (\<lambda>out.
        if opt_dest_address out = [] then Inl DestRequired
        else if opt_dest_port out = 0 then Inl PortRequired
        else if opt_batch_size out = 0 then Inl SizeRequired
        else if opt_mss out \<noteq> 0 \<and> kUsoMaxSegmentSize < opt_mss out then Inl MssTooLarge
        else if kUsoMaxBytesPerBatch < opt_batch_size out then Inl SizeTooLarge
        else Inr (Some out)))"

end
