(* ===== verification/Receive_Loop.thy ===== *)
theory Receive_Loop
  imports Reassembly Uso_Recv Cli "HOL-Library.Signed_Division"
begin

section \<open>The receive loop and the sessions (server.cpp)\<close>

text \<open>
  \<open>run_receive_loop\<close> with its two modes (\<open>--count\<close>, and idle), the functions that set socket
  timeouts and receive one datagram, and the session loop of \<open>run_server\<close>. What the environment
  does is data: one \<open>turn\<close> holds the answers the operating system gives during one round of the
  receive loop (clock readings, readability, the received datagram). A list of turns is an
  environment; a loop that has used them all is still running (\<open>Blocked\<close>). Times are nanoseconds of
  the steady clock, as in both standard libraries.
\<close>

subsection \<open>Timeouts\<close>

definition kIdleTimeout :: int where
  "kIdleTimeout = 3 * 1000000000"

text \<open>\<open>hours(24 * 365)\<close> in milliseconds.\<close>

definition kBlockingRecvTimeout :: int where
  "kBlockingRecvTimeout = 24 * 365 * 3600 * 1000"

text \<open>\<open>SO_RCVTIMEO\<close>: a \<open>DWORD\<close> of milliseconds on Windows, a \<open>timeval\<close> on Linux.\<close>

datatype rcvtimeo = RcvMillis u32 | RcvTimeval int int

definition set_receive_timeout :: "platform \<Rightarrow> int \<Rightarrow> rcvtimeo" where
  "set_receive_timeout pf timeout =
     (case pf of
        Windows \<Rightarrow> RcvMillis (word_of_int timeout)
      | Linux \<Rightarrow> RcvTimeval (timeout sdiv 1000) ((timeout smod 1000) * 1000))"

definition clear_receive_timeout :: "platform \<Rightarrow> rcvtimeo" where
  "clear_receive_timeout pf =
     set_receive_timeout pf (case pf of Windows \<Rightarrow> 0 | Linux \<Rightarrow> kBlockingRecvTimeout)"

text \<open>\<open>duration_cast<milliseconds>\<close> of nanoseconds truncates towards zero.\<close>

definition to_millis :: "int \<Rightarrow> int" where
  "to_millis ns = ns sdiv 1000000"

definition apply_recv_timeout_for_session :: "platform \<Rightarrow> int option \<Rightarrow> int \<Rightarrow> rcvtimeo" where
  "apply_recv_timeout_for_session pf idle_deadline now =
     (case idle_deadline of
        None \<Rightarrow> clear_receive_timeout pf
      | Some deadline \<Rightarrow>
          let remaining = to_millis (deadline - now) in
          set_receive_timeout pf (if remaining \<le> 0 then 1 else remaining))"

subsection \<open>Receiving one datagram\<close>

definition is_receive_timeout :: "error_code \<Rightarrow> bool" where
  "is_receive_timeout ec \<longleftrightarrow> ec = TimedOut \<or> ec = TryAgain \<or> ec = WouldBlock"

text \<open>
  The answers of one round: the clock when the deadline is tested, the clock inside
  \<open>apply_recv_timeout_for_session\<close>, the result of \<open>select\<close> or \<open>poll\<close> with the readiness flag, the
  result of \<open>receive_from\<close>, the result of \<open>uro_recv_msg\<close> with the bytes in the buffer, and the clock
  after a datagram.
\<close>

record turn =
  now_check :: int
  now_apply :: int
  poll_rc :: int
  poll_flag :: bool
  got :: "error_code + byte list"
  got_uro :: "uro_recv_result \<times> byte list"
  now_after :: int

definition wait_udp_readable :: "int \<Rightarrow> turn \<Rightarrow> bool" where
  "wait_udp_readable timeout t = (if timeout \<le> 0 then False else 0 < poll_rc t \<and> poll_flag t)"

datatype rx_error = SystemError error_code | UroRuntimeError uro_error | IngestFault fault

definition ingested :: "bool \<Rightarrow> byte list \<Rightarrow> server_state \<Rightarrow> rx_error + (byte list option \<times> server_state)" where
  "ingested verbose data s =
     (case ingest_fragment verbose data s of
        Inl f \<Rightarrow> Inl (IngestFault f)
      | Inr s' \<Rightarrow> Inr (Some data, s'))"

text \<open>
  \<open>receive_datagram\<close> and \<open>receive_uro_datagram\<close>. The boolean they return is whether a datagram was
  ingested; the model returns the datagram.
\<close>

definition receive_datagram ::
  "bool \<Rightarrow> error_code + byte list \<Rightarrow> server_state \<Rightarrow> rx_error + (byte list option \<times> server_state)" where
  "receive_datagram verbose res s =
     (case res of
        Inl ec \<Rightarrow> if is_receive_timeout ec then Inr (None, s) else Inl (SystemError ec)
      | Inr data \<Rightarrow> ingested verbose data s)"

definition receive_uro_datagram ::
  "bool \<Rightarrow> uro_recv_result \<times> byte list \<Rightarrow> server_state \<Rightarrow> rx_error + (byte list option \<times> server_state)" where
  "receive_uro_datagram verbose res s =
     (let (result, data) = res in
      if \<not> uro_success result then
        (if uro_bytes_received result = 0 \<and> uro_error result = None then Inr (None, s)
         else case uro_error result of
           Some e \<Rightarrow> Inl (UroRuntimeError e)
         | None \<Rightarrow> Inr (None, s))
      else if uro_bytes_received result \<le> 0 then Inr (None, s)
      else ingested verbose (take (nat (uro_bytes_received result)) data)
             (say (verbose \<and> uro_coalesced result \<and> uro_segment_size result \<noteq> 0)
               (LogCoalesced (nat (uro_bytes_received result)) (uro_segment_size result)) s))"

definition receive_one ::
  "bool \<Rightarrow> bool \<Rightarrow> turn \<Rightarrow> server_state \<Rightarrow> rx_error + (byte list option \<times> server_state)" where
  "receive_one use_uro verbose t s =
     (if use_uro then receive_uro_datagram verbose (got_uro t) s
      else receive_datagram verbose (got t) s)"

subsection \<open>The two loops\<close>

text \<open>
  The state of a receive loop: the server, the deadline, the values given to \<open>SO_RCVTIMEO\<close> so far
  and, for the statements, the datagrams ingested so far.
\<close>

record rx_state =
  srv :: server_state
  deadline :: "int option"
  timeouts :: "rcvtimeo list"
  received :: "byte list list"

definition init_rx :: rx_state where
  "init_rx = \<lparr>srv = init_server, deadline = None, timeouts = [], received = []\<rparr>"

definition push_timeout :: "rcvtimeo \<Rightarrow> rx_state \<Rightarrow> rx_state" where
  "push_timeout v x = x\<lparr>timeouts := timeouts x @ [v]\<rparr>"

datatype loop_run = Blocked rx_state | Failed rx_error | Left rx_state "turn list"

text \<open>After a datagram: the new deadline.\<close>

definition got_datagram :: "turn \<Rightarrow> byte list \<Rightarrow> server_state \<Rightarrow> rx_state \<Rightarrow> rx_state" where
  "got_datagram t data s x =
     x\<lparr>srv := s, deadline := Some (now_after t + kIdleTimeout), received := received x @ [data]\<rparr>"

fun count_loop :: "platform \<Rightarrow> bool \<Rightarrow> bool \<Rightarrow> nat \<Rightarrow> turn list \<Rightarrow> rx_state \<Rightarrow> loop_run" where
  "count_loop pf use_uro verbose want_batches turns x =
     (if want_batches \<le> batches (stats (srv x)) then Left x turns
      else case turns of
        [] \<Rightarrow> Blocked x
      | t # ts \<Rightarrow>
          if \<not> active (reasm (srv x)) \<and> (case deadline x of None \<Rightarrow> False | Some d \<Rightarrow> d \<le> now_check t)
          then Left x ts
          else
            let x1 = push_timeout (apply_recv_timeout_for_session pf (deadline x) (now_apply t)) x in
            case receive_one use_uro verbose t (srv x1) of
              Inl e \<Rightarrow> Failed e
            | Inr (None, s) \<Rightarrow>
                if deadline x1 = None
                then count_loop pf use_uro verbose want_batches ts (x1\<lparr>srv := s\<rparr>)
                else Left (x1\<lparr>srv := s\<rparr>) ts
            | Inr (Some data, s) \<Rightarrow>
                let x2 = got_datagram t data s x1 in
                if want_batches \<le> batches (stats (srv x2)) then Left x2 ts
                else count_loop pf use_uro verbose want_batches ts x2)"

declare count_loop.simps [simp del]

text \<open>Idle mode: \<open>continue\<close>, \<open>break\<close> and the receive of one round.\<close>

definition idle_break :: "bool \<Rightarrow> rx_state \<Rightarrow> rx_state" where
  "idle_break verbose x = x\<lparr>srv := say verbose LogIdleTimeout (srv x)\<rparr>"

fun idle_loop :: "platform \<Rightarrow> bool \<Rightarrow> bool \<Rightarrow> turn list \<Rightarrow> rx_state \<Rightarrow> loop_run" where
  "idle_loop pf use_uro verbose [] x = Blocked x"
| "idle_loop pf use_uro verbose (t # ts) x =
     (let receive = (
            let x1 = push_timeout (clear_receive_timeout pf) x in
            case receive_one use_uro verbose t (srv x1) of
              Inl e \<Rightarrow> Failed e
            | Inr (None, s) \<Rightarrow>
                if deadline x1 = None then idle_loop pf use_uro verbose ts (x1\<lparr>srv := s\<rparr>)
                else Left (x1\<lparr>srv := s\<rparr>) ts
            | Inr (Some data, s) \<Rightarrow> idle_loop pf use_uro verbose ts (got_datagram t data s x1))
      in case deadline x of
           None \<Rightarrow> receive
         | Some d \<Rightarrow>
             if d \<le> now_check t then Left (idle_break verbose x) ts
             else let remaining = to_millis (d - now_check t) in
               if remaining \<le> 0 then idle_loop pf use_uro verbose ts x
               else if \<not> wait_udp_readable remaining t then Left (idle_break verbose x) ts
               else receive)"

declare idle_loop.simps(2) [simp del]

subsection \<open>The end of a session\<close>

text \<open>A batch still incomplete when the loop ends is a bad batch.\<close>

definition zero_header :: packet_header where
  "zero_header = \<lparr>hdr_magic = 0, hdr_seq = 0, hdr_batch_total = 0, hdr_length = 0, hdr_crc32 = 0\<rparr>"

definition drop_incomplete :: "bool \<Rightarrow> server_state \<Rightarrow> server_state" where
  "drop_incomplete verbose s =
     (if active (reasm s) then
        let r = reasm s;
            header = (if kPacketHeaderSize \<le> filled r then read_header (take kPacketHeaderSize (buffer r))
                      else zero_header)
        in reset_server (say verbose
             (LogIncomplete (hdr_seq header) (hdr_batch_total header) (filled r) (expected r)) (add_bad s))
      else s)"

definition close_session :: "bool \<Rightarrow> nat option \<Rightarrow> server_state \<Rightarrow> server_state option" where
  "close_session verbose cli_count s =
     (let s1 = drop_incomplete verbose s in
      map_option (\<lambda>st. say True (LogSummary (print_summary st)) (s1\<lparr>stats := st\<rparr>))
        (finalize_lost (stats s1) cli_count))"

datatype session_run =
    SessionBlocked rx_state
  | SessionFailed rx_error
  | SessionHangs
  | SessionDone rx_state "turn list"

definition end_session :: "platform \<Rightarrow> bool \<Rightarrow> nat option \<Rightarrow> loop_run \<Rightarrow> session_run" where
  "end_session pf verbose cli_count r =
     (case r of
        Blocked x \<Rightarrow> SessionBlocked x
      | Failed e \<Rightarrow> SessionFailed e
      | Left x ts \<Rightarrow>
          (case close_session verbose cli_count (srv x) of
             None \<Rightarrow> SessionHangs
           | Some s \<Rightarrow> SessionDone ((push_timeout (clear_receive_timeout pf) x)\<lparr>srv := s\<rparr>) ts))"

definition run_receive_loop :: "platform \<Rightarrow> server_options \<Rightarrow> bool \<Rightarrow> turn list \<Rightarrow> session_run" where
  "run_receive_loop pf options use_uro turns =
     (let verbose = opt_verbose options;
          x = init_rx\<lparr>srv := say verbose (LogSessionStart (opt_batch_count options) use_uro) init_server\<rparr>
      in case opt_batch_count options of
           Some want_batches \<Rightarrow>
             end_session pf verbose (Some want_batches)
               (count_loop pf use_uro verbose want_batches turns (push_timeout (clear_receive_timeout pf) x))
         | None \<Rightarrow> end_session pf verbose None (idle_loop pf use_uro verbose turns x))"

subsection \<open>Sessions\<close>

text \<open>
  The loop of \<open>run_server\<close> after the socket is set up; \<open>None\<close> is a server that never leaves a
  session or runs sessions without end. A server that waits for datagrams is \<open>Serving\<close>.
\<close>

datatype server_run =
    Serving "rx_state list" rx_state
  | ServerFailed "rx_state list" rx_error
  | ServerDone "rx_state list" "turn list"

partial_function (option) run_sessions ::
  "platform \<Rightarrow> server_options \<Rightarrow> bool \<Rightarrow> nat \<Rightarrow> rx_state list \<Rightarrow> turn list \<Rightarrow> server_run option" where
  "run_sessions pf options use_uro session done turns =
     (case run_receive_loop pf options use_uro turns of
        SessionBlocked x \<Rightarrow> Some (Serving done x)
      | SessionFailed e \<Rightarrow> Some (ServerFailed done e)
      | SessionHangs \<Rightarrow> None
      | SessionDone x rest \<Rightarrow>
          if \<not> opt_loop options then Some (ServerDone (done @ [x]) rest)
          else if (case opt_loop_count options of None \<Rightarrow> False | Some n \<Rightarrow> n \<le> session + 1)
          then Some (ServerDone (done @ [x]) rest)
          else run_sessions pf options use_uro (session + 1) (done @ [x]) rest)"

text \<open>
  \<open>run_server\<close>: the address is parsed, the socket opened and bound (\<open>socket_error\<close> is what one
  of these calls throws), on Windows with \<open>--uro\<close> configured; then the sessions run.
\<close>

datatype 'e setup_error = AddressError 'e | SocketError error_code | UroSetupError uro_error

definition run_server ::
  "(string \<Rightarrow> 'e + ip_address) \<Rightarrow> error_code option \<Rightarrow> 'w uro_api \<Rightarrow> platform \<Rightarrow> server_options \<Rightarrow> 'w
     \<Rightarrow> turn list \<Rightarrow> ('e setup_error + server_run) option" where
  "run_server make_address socket_error api pf options w turns =
     (case parse_address make_address (opt_bind_address options) of
        Inl e \<Rightarrow> Some (Inl (AddressError e))
      | Inr _ \<Rightarrow>
          (case socket_error of
             Some ec \<Rightarrow> Some (Inl (SocketError ec))
           | None \<Rightarrow>
               let use_uro = (pf = Windows \<and> opt_uro options);
                   failed = (if use_uro then fst (uro_configure_recv_socket api kUroMaxCoalescedRecv w)
                             else None)
               in case failed of
                    Some e \<Rightarrow> Some (Inl (UroSetupError e))
                  | None \<Rightarrow> map_option Inr (run_sessions pf options use_uro 0 [] turns)))"

text \<open>\<open>main\<close>: every exception is reported and makes the exit status 1; help is status 0.\<close>

datatype exit_status = Exit nat | StillServing

fun server_status :: "'e setup_error + server_run \<Rightarrow> exit_status" where
  "server_status (Inl _) = Exit 1"
| "server_status (Inr (ServerFailed _ _)) = Exit 1"
| "server_status (Inr (ServerDone _ _)) = Exit 0"
| "server_status (Inr (Serving _ _)) = StillServing"

definition server_main ::
  "(string list \<Rightarrow> cli_error + server_options option) \<Rightarrow>
     (server_options \<Rightarrow> ('e setup_error + server_run) option) \<Rightarrow> string list \<Rightarrow> exit_status option" where
  "server_main parse run args =
     (case parse args of
        Inl _ \<Rightarrow> Some (Exit 1)
      | Inr None \<Rightarrow> Some (Exit 0)
      | Inr (Some options) \<Rightarrow> map_option server_status (run options))"

end
