(* ===== verification/Receive_Correct.thy ===== *)
theory Receive_Correct
  imports Receive_Loop Reassembly_Correct
begin

section \<open>What a session computes\<close>

text \<open>
  The specification of a session is a function of the datagrams alone: \<open>session_stats\<close> parses their
  concatenation, counts a batch that is still incomplete as bad, and closes the counters. The
  receive loop implements it, whatever the timing; the lemmas here carry the invariant of the loops
  and what holds when they end.
\<close>

definition session_stats :: "nat option \<Rightarrow> byte list list \<Rightarrow> server_stats option" where
  "session_stats cli_count ds =
     (let (st, waiting) = parse_stream init_stats (concat ds) in
      finalize_lost (st\<lparr>bad_batches := bad_batches st + (if 20 \<le> length waiting then 1 else 0)\<rparr>) cli_count)"

subsection \<open>One round\<close>

lemma ingested_ok:
  assumes "reasm_inv s"
  shows "\<exists>s'. ingested v data s = Inr (Some data, s') \<and> reasm_inv s' \<and>
    parse_stream (view s) (pending s @ data) = (view s', pending s')"
  using ingest_fragment_refines [OF assms, of v data] by (auto simp: ingested_def)

text \<open>A round either leaves the counters and the waiting bytes alone or parses one datagram.\<close>

lemma receive_one_ok:
  assumes "reasm_inv s" and "receive_one uro v t s = Inr (r, s')"
  shows "reasm_inv s' \<and> (case r of
      None \<Rightarrow> stats s' = stats s \<and> pending s' = pending s \<and> active (reasm s') = active (reasm s)
    | Some data \<Rightarrow> parse_stream (view s) (pending s @ data) = (view s', pending s'))"
proof -
  have d: "r = Some data \<and> reasm_inv s' \<and> parse_stream (view s) (pending s @ data) = (view s', pending s')"
    if "ingested v data s2 = Inr (r, s')" "s2 = s \<or> (\<exists>b l. s2 = say b l s)" for data s2
  proof -
    have "reasm_inv s2" "view s2 = view s" "pending s2 = pending s" using that(2) assms(1) by auto
    with ingested_ok [of s2 v data] that(1) show ?thesis by auto
  qed
  show ?thesis
    using assms
    by (auto simp: receive_one_def receive_datagram_def receive_uro_datagram_def Let_def
        split: if_splits sum.splits prod.splits option.splits dest!: d)
qed

lemma receive_one_no_fault:
  assumes "reasm_inv s"
  shows "receive_one uro v t s \<noteq> Inl (IngestFault f)"
proof -
  have i: "reasm_inv (say b l s)" for b l using assms by simp
  have n: "ingested v data s \<noteq> Inl e" "ingested v data (say b l s) \<noteq> Inl e" for data b l e
    using ingested_ok [OF assms, of v data] ingested_ok [OF i, of v data b l] by auto
  then show ?thesis
    by (auto simp: receive_one_def receive_datagram_def receive_uro_datagram_def Let_def
        split: if_splits sum.splits prod.splits option.splits)
qed

subsection \<open>The invariant of the loops\<close>

definition rx_inv :: "rx_state \<Rightarrow> bool" where
  "rx_inv x \<longleftrightarrow> reasm_inv (srv x) \<and>
     parse_stream init_stats (concat (received x)) = (view (srv x), pending (srv x)) \<and>
     (deadline x = None \<longleftrightarrow> received x = [])"

lemma rx_inv_init: "rx_inv (init_rx\<lparr>srv := say v l init_server\<rparr>)"
  using reasm_inv_settled [OF reasm_inv_init] by (simp add: rx_inv_def init_rx_def)

lemma push_timeout_simps [simp]:
  "srv (push_timeout v x) = srv x" "deadline (push_timeout v x) = deadline x"
  "received (push_timeout v x) = received x" "timeouts (push_timeout v x) = timeouts x @ [v]"
  by (simp_all add: push_timeout_def)

lemma rx_inv_push [simp]: "rx_inv (push_timeout v x) = rx_inv x"
  by (simp add: rx_inv_def)

lemma got_datagram_simps [simp]:
  "srv (got_datagram t d s x) = s" "deadline (got_datagram t d s x) = Some (now_after t + kIdleTimeout)"
  "received (got_datagram t d s x) = received x @ [d]" "timeouts (got_datagram t d s x) = timeouts x"
  by (simp_all add: got_datagram_def)

lemma idle_break_simps [simp]:
  "deadline (idle_break v x) = deadline x" "received (idle_break v x) = received x"
  "timeouts (idle_break v x) = timeouts x" "stats (srv (idle_break v x)) = stats (srv x)"
  "reasm (srv (idle_break v x)) = reasm (srv x)"
  by (simp_all add: idle_break_def)

lemma rx_inv_idle_break [simp]: "rx_inv (idle_break v x) = rx_inv x"
  by (simp add: rx_inv_def idle_break_def)

lemma rx_inv_nothing:
  assumes "rx_inv x" and "receive_one uro v t (srv x) = Inr (None, s)"
  shows "rx_inv (x\<lparr>srv := s\<rparr>)" and "stats s = stats (srv x)"
  using receive_one_ok [of "srv x" uro v t None s] assms by (auto simp: rx_inv_def view_def)

lemma rx_inv_datagram:
  assumes "rx_inv x" and "receive_one uro v t (srv x) = Inr (Some d, s)"
  shows "rx_inv (got_datagram t d s x)"
proof -
  have o: "reasm_inv s" "parse_stream (view (srv x)) (pending (srv x) @ d) = (view s, pending s)"
    using receive_one_ok [of "srv x" uro v t "Some d" s] assms by (auto simp: rx_inv_def)
  have "parse_stream init_stats (concat (received x) @ d) = (view s, pending s)"
    using assms(1) o(2) by (simp add: rx_inv_def parse_stream_append [of init_stats "concat (received x)"])
  with o(1) show ?thesis by (simp add: rx_inv_def)
qed

text \<open>
  Batches are counted only while the count is not reached: every datagram was read with fewer
  batches than wanted.
\<close>

definition below :: "nat \<Rightarrow> byte list list \<Rightarrow> bool" where
  "below want ds \<longleftrightarrow>
     (\<forall>k < length ds. batches (fst (parse_stream init_stats (concat (take k ds)))) < want)"

lemma below_snoc:
  "below want (ds @ [d]) \<longleftrightarrow>
     below want ds \<and> batches (fst (parse_stream init_stats (concat ds))) < want"
  by (auto simp: below_def less_Suc_eq)

lemma rx_inv_batches:
  "rx_inv x \<Longrightarrow> batches (fst (parse_stream init_stats (concat (received x)))) = batches (stats (srv x))"
  by (simp add: rx_inv_def)

subsection \<open>Rounds as steps\<close>

text \<open>
  Both loops move by the same steps: a receive that brings nothing, a receive that brings a datagram
  (with \<open>--count\<close>, only while batches are missing), and the verbose line of the idle timeout. The
  invariants are proved for the steps, and hold for both loops.
\<close>

definition session_timeout :: "platform \<Rightarrow> rcvtimeo \<Rightarrow> bool" where
  "session_timeout pf p \<longleftrightarrow>
     p = clear_receive_timeout pf \<or> (\<exists>d now. p = apply_recv_timeout_for_session pf d now)"

inductive rx_round :: "platform \<Rightarrow> bool \<Rightarrow> bool \<Rightarrow> nat option \<Rightarrow> rx_state \<Rightarrow> rx_state \<Rightarrow> bool"
  for pf uro v want where
  quiet: "session_timeout pf p \<Longrightarrow> receive_one uro v t (srv x) = Inr (None, s) \<Longrightarrow>
    rx_round pf uro v want x ((push_timeout p x)\<lparr>srv := s\<rparr>)"
| datagram: "session_timeout pf p \<Longrightarrow> receive_one uro v t (srv x) = Inr (Some d, s) \<Longrightarrow>
    (\<forall>w. want = Some w \<longrightarrow> batches (stats (srv x)) < w) \<Longrightarrow>
    rx_round pf uro v want x (got_datagram t d s (push_timeout p x))"
| idle_line: "rx_round pf uro v want x (idle_break v x)"

inductive_cases rx_roundE: "rx_round pf uro v want x x'"

inductive_simps rx_round_simp: "rx_round pf uro v want x x'"

lemmas round_then = converse_rtranclp_into_rtranclp [of "rx_round pf uro v want" for pf uro v want]

fun run_state :: "loop_run \<Rightarrow> rx_state option" where
  "run_state (Blocked x) = Some x"
| "run_state (Left x rest) = Some x"
| "run_state (Failed e) = None"

lemma session_timeout_simps [simp]:
  "session_timeout pf (clear_receive_timeout pf)"
  "session_timeout pf (apply_recv_timeout_for_session pf d now)"
  by (auto simp: session_timeout_def)

lemma count_loop_rounds:
  "run_state (count_loop pf uro v want turns x) = Some x' \<Longrightarrow> (rx_round pf uro v (Some want))\<^sup>*\<^sup>* x x'"
proof (induction turns arbitrary: x)
  case Nil
  then show ?case by (auto simp: count_loop.simps split: if_splits)
next
  case (Cons t ts)
  let ?go = "count_loop pf uro v want ts"
  define R where "R = (rx_round pf uro v (Some want))\<^sup>*\<^sup>* x"
  have stop: "R y" if "x = y" for y using that by (simp add: R_def)
  have quiet: "R ((push_timeout p x)\<lparr>srv := s\<rparr>)"
    "run_state (?go ((push_timeout p x)\<lparr>srv := s\<rparr>)) = Some x' \<Longrightarrow> R x'"
    if "receive_one uro v t (srv x) = Inr (None, s)" "session_timeout pf p" for p s
    using rx_round.quiet [OF that(2,1)] Cons.IH [of "(push_timeout p x)\<lparr>srv := s\<rparr>"]
    unfolding R_def by (blast intro: round_then)+
  have datagram: "R (got_datagram t d s (push_timeout p x))"
    "run_state (?go (got_datagram t d s (push_timeout p x))) = Some x' \<Longrightarrow> R x'"
    if "receive_one uro v t (srv x) = Inr (Some d, s)" "session_timeout pf p"
      "batches (stats (srv x)) < want" for p s d
    using rx_round.datagram [OF that(2,1), of "Some want"] that(3)
      Cons.IH [of "got_datagram t d s (push_timeout p x)"]
    unfolding R_def by (blast intro: round_then)+
  have "R x'"
    using Cons.prems
    by (auto simp: count_loop.simps [of pf uro v want "t # ts"] Let_def not_le
        split: if_splits sum.splits option.splits prod.splits
        intro: stop quiet(1) datagram(1) quiet(2) [OF _ session_timeout_simps(2)]
          datagram(2) [OF _ session_timeout_simps(2)])
  then show ?case by (simp add: R_def)
qed

lemma idle_loop_rounds:
  "run_state (idle_loop pf uro v turns x) = Some x' \<Longrightarrow> (rx_round pf uro v None)\<^sup>*\<^sup>* x x'"
proof (induction turns arbitrary: x)
  case Nil
  then show ?case by simp
next
  case (Cons t ts)
  let ?go = "idle_loop pf uro v ts"
  let ?p = "clear_receive_timeout pf"
  define R where "R = (rx_round pf uro v None)\<^sup>*\<^sup>* x"
  have on: "R x'" if "run_state (?go x) = Some x'" using Cons.IH [OF that] by (simp add: R_def)
  have stop: "R (idle_break v x)" unfolding R_def by (blast intro: rx_round.idle_line)
  have quiet: "R ((push_timeout ?p x)\<lparr>srv := s\<rparr>)"
    "run_state (?go ((push_timeout ?p x)\<lparr>srv := s\<rparr>)) = Some x' \<Longrightarrow> R x'"
    if "receive_one uro v t (srv x) = Inr (None, s)" for s
    using rx_round.quiet [OF _ that, of pf ?p] Cons.IH [of "(push_timeout ?p x)\<lparr>srv := s\<rparr>"]
    unfolding R_def by (auto intro: round_then)
  have datagram: "R x'" if "receive_one uro v t (srv x) = Inr (Some d, s)"
    "run_state (?go (got_datagram t d s (push_timeout ?p x))) = Some x'" for s d
    using rx_round.datagram [OF _ that(1), of pf ?p None]
      round_then [OF _ Cons.IH [OF that(2)]] unfolding R_def by simp
  have "R x'"
    using Cons.prems
    by (auto simp: idle_loop.simps Let_def split: if_splits sum.splits option.splits prod.splits
        intro: on stop quiet datagram)
  then show ?case by (simp add: R_def)
qed

subsection \<open>Invariants of the steps\<close>

definition want_below :: "nat option \<Rightarrow> rx_state \<Rightarrow> bool" where
  "want_below want x \<longleftrightarrow> (\<forall>w. want = Some w \<longrightarrow> below w (received x))"

lemma rounds_inv:
  assumes "(rx_round pf uro v want)\<^sup>*\<^sup>* x x'" and "rx_inv x" and "want_below want x"
    and "\<forall>p \<in> set (timeouts x). session_timeout pf p"
  shows "rx_inv x' \<and> want_below want x' \<and> (\<forall>p \<in> set (timeouts x'). session_timeout pf p)"
  using assms
proof (induction rule: rtranclp_induct)
  case base
  then show ?case by simp
next
  case (step y z)
  then have y: "rx_inv y" "want_below want y" "\<forall>p \<in> set (timeouts y). session_timeout pf p" by simp_all
  from step.hyps(2) show ?case
  proof (cases rule: rx_round.cases)
    case (quiet p t s)
    then show ?thesis using y rx_inv_nothing [of "push_timeout p y"] by (simp add: want_below_def)
  next
    case (datagram p t d s)
    then show ?thesis
      using y rx_inv_datagram [of "push_timeout p y"]
      by (auto simp: want_below_def below_snoc rx_inv_batches)
  next
    case idle_line
    then show ?thesis using y by (simp add: want_below_def)
  qed
qed

subsection \<open>How a loop ends\<close>

lemma count_loop_Left:
  "count_loop pf uro v want turns x = Left x' rest \<Longrightarrow>
     want \<le> batches (stats (srv x')) \<or> deadline x' \<noteq> None"
proof (induction turns arbitrary: x)
  case Nil
  then show ?case by (auto simp: count_loop.simps split: if_splits)
next
  case (Cons t ts)
  then show ?case
    by (auto simp: count_loop.simps [of pf uro v want "t # ts"] Let_def
        split: if_splits sum.splits option.splits prod.splits dest: Cons.IH)
qed

lemma idle_loop_Left: "idle_loop pf uro v turns x = Left x' rest \<Longrightarrow> deadline x' \<noteq> None"
proof (induction turns arbitrary: x)
  case Nil
  then show ?case by simp
next
  case (Cons t ts)
  then show ?case
    by (auto simp: idle_loop.simps Let_def
        split: if_splits sum.splits option.splits prod.splits dest: Cons.IH)
qed

text \<open>No round faults, so no loop does.\<close>

lemma count_loop_no_fault: "rx_inv x \<Longrightarrow> count_loop pf uro v want turns x \<noteq> Failed (IngestFault f)"
proof (induction turns arbitrary: x)
  case Nil
  then show ?case by (simp add: count_loop.simps)
next
  case (Cons t ts)
  note ok = receive_one_no_fault [of "srv x" uro v t] Cons.prems [unfolded rx_inv_def, THEN conjunct1]
  have q: "rx_inv ((push_timeout p x)\<lparr>srv := s\<rparr>)" if "receive_one uro v t (srv x) = Inr (None, s)" for p s
    using rx_inv_nothing(1) [of "push_timeout p x" uro v t s] Cons.prems that by simp
  have d: "rx_inv (got_datagram t d s (push_timeout p x))"
    if "receive_one uro v t (srv x) = Inr (Some d, s)" for p d s
    using rx_inv_datagram [of "push_timeout p x" uro v t d s] Cons.prems that by simp
  show ?case
    using ok by (auto simp: count_loop.simps [of pf uro v want "t # ts"] Let_def Cons.IH q d
        split: sum.splits option.splits prod.splits)
qed

lemma idle_loop_no_fault: "rx_inv x \<Longrightarrow> idle_loop pf uro v turns x \<noteq> Failed (IngestFault f)"
proof (induction turns arbitrary: x)
  case Nil
  then show ?case by simp
next
  case (Cons t ts)
  note ok = receive_one_no_fault [of "srv x" uro v t] Cons.prems [unfolded rx_inv_def, THEN conjunct1]
  have q: "rx_inv ((push_timeout p x)\<lparr>srv := s\<rparr>)" if "receive_one uro v t (srv x) = Inr (None, s)" for p s
    using rx_inv_nothing(1) [of "push_timeout p x" uro v t s] Cons.prems that by simp
  have d: "rx_inv (got_datagram t d s (push_timeout p x))"
    if "receive_one uro v t (srv x) = Inr (Some d, s)" for p d s
    using rx_inv_datagram [of "push_timeout p x" uro v t d s] Cons.prems that by simp
  show ?case
    using ok Cons.prems by (auto simp: idle_loop.simps Let_def Cons.IH q d
        split: sum.splits option.splits prod.splits)
qed

subsection \<open>Closing a session\<close>

lemma finalize_lost_fragments:
  "finalize_lost (st\<lparr>fragments := k\<rparr>) c = map_option (\<lambda>s. s\<lparr>fragments := k\<rparr>) (finalize_lost st c)"
proof -
  have "lost_upper (st\<lparr>fragments := k\<rparr>) c = lost_upper st c"
    by (simp add: lost_upper_def split: option.split)
  moreover have "(\<lambda>n. st\<lparr>fragments := k, lost := n\<rparr>) = (\<lambda>n. st\<lparr>lost := n, fragments := k\<rparr>)"
    by (rule ext) (cases st, simp)
  ultimately show ?thesis
    by (simp add: finalize_lost_def option.map_comp comp_def split: option.split)
qed

lemma active_iff_pending: "reasm_inv s \<Longrightarrow> active (reasm s) \<longleftrightarrow> 20 \<le> length (pending s)"
  by (auto simp: reasm_inv_def Let_def pending_def buffered_def split: if_splits)

lemma drop_incomplete_stats:
  assumes "reasm_inv s"
  shows "stats (drop_incomplete v s) =
    (stats s)\<lparr>bad_batches := bad_batches (stats s) + (if 20 \<le> length (pending s) then 1 else 0)\<rparr>"
  using active_iff_pending [OF assms]
  by (simp add: drop_incomplete_def Let_def add_bad_def)

lemma drop_incomplete_reasm:
  assumes "reasm_inv s"
  shows "reasm_inv (drop_incomplete v s) \<and> \<not> active (reasm (drop_incomplete v s))"
  using assms by (auto simp: drop_incomplete_def Let_def reasm_inv_def reset_server_def reset_reassembly_def)

lemma close_session_view:
  assumes "reasm_inv s"
  shows "map_option view (close_session v c s) =
    finalize_lost ((view s)\<lparr>bad_batches := bad_batches (view s) + (if 20 \<le> length (pending s) then 1 else 0)\<rparr>) c"
proof -
  let ?st = "stats (drop_incomplete v s)"
  have v: "(view s)\<lparr>bad_batches := bad_batches (view s) + (if 20 \<le> length (pending s) then 1 else 0)\<rparr> =
      ?st\<lparr>fragments := 0\<rparr>"
    by (simp add: drop_incomplete_stats [OF assms] view_def)
  show ?thesis
    unfolding v finalize_lost_fragments
    by (simp add: close_session_def Let_def option.map_comp comp_def view_def)
qed

subsection \<open>The session\<close>

lemma session_done:
  assumes "run_receive_loop pf options uro turns = SessionDone x rest"
  shows "session_stats (opt_batch_count options) (received x) = Some (view (srv x))"
    and "\<forall>p \<in> set (timeouts x). session_timeout pf p"
    and "opt_batch_count options = None \<Longrightarrow> received x \<noteq> []"
    and "opt_batch_count options = Some w \<Longrightarrow> below w (received x) \<and>
      (w \<le> batches (fst (parse_stream init_stats (concat (received x)))) \<or> received x \<noteq> [])"
proof -
  let ?v = "opt_verbose options" and ?c = "opt_batch_count options"
  let ?x = "init_rx\<lparr>srv := say ?v (LogSessionStart ?c uro) init_server\<rparr>"
  define x0 where "x0 = (if ?c = None then ?x else push_timeout (clear_receive_timeout pf) ?x)"
  define r where "r = (case ?c of None \<Rightarrow> idle_loop pf uro ?v turns x0
    | Some w \<Rightarrow> count_loop pf uro ?v w turns x0)"
  have "run_receive_loop pf options uro turns = end_session pf ?v ?c r"
    by (simp add: run_receive_loop_def r_def x0_def Let_def split: option.split)
  with assms obtain y s where y: "r = Left y rest" and s: "close_session ?v ?c (srv y) = Some s"
    and x: "x = (push_timeout (clear_receive_timeout pf) y)\<lparr>srv := s\<rparr>"
    by (auto simp: end_session_def split: loop_run.splits option.splits)
  have i0: "rx_inv x0" using rx_inv_init by (simp add: x0_def)
  have w0: "want_below ?c x0" "\<forall>p \<in> set (timeouts x0). session_timeout pf p"
    by (simp_all add: x0_def want_below_def below_def init_rx_def)
  have "(rx_round pf uro ?v ?c)\<^sup>*\<^sup>* x0 y"
    using y count_loop_rounds [of pf uro ?v _ turns x0 y] idle_loop_rounds [of pf uro ?v turns x0 y]
    by (cases ?c) (simp_all add: r_def)
  from rounds_inv [OF this i0 w0] have i: "rx_inv y" "want_below ?c y"
    "\<forall>p \<in> set (timeouts y). session_timeout pf p" by simp_all
  show "\<forall>p \<in> set (timeouts x). session_timeout pf p" using i(3) by (simp add: x)
  have rx: "received x = received y" by (simp add: x)
  have "map_option view (close_session ?v ?c (srv y)) = session_stats ?c (received y)"
    using close_session_view [of "srv y" ?v ?c] i(1) by (simp add: rx_inv_def session_stats_def)
  then show "session_stats ?c (received x) = Some (view (srv x))" using s x by simp
  show "received x \<noteq> []" if "?c = None"
  proof -
    have "deadline y \<noteq> None" using y that idle_loop_Left by (simp add: r_def)
    moreover have "deadline y = None \<longleftrightarrow> received y = []" using i(1) by (simp only: rx_inv_def)
    ultimately show ?thesis unfolding rx by simp
  qed
  show "below w (received x) \<and> (w \<le> batches (fst (parse_stream init_stats (concat (received x)))) \<or> received x \<noteq> [])"
    if "?c = Some w"
    using y that count_loop_Left [of pf uro ?v w turns x0 y rest] i(1,2) rx rx_inv_batches [OF i(1)]
    by (auto simp: r_def rx_inv_def want_below_def)
qed

end
