(* ===== verification/Receive_Properties.thy ===== *)
theory Receive_Properties
  imports Receive_Correct Samples
begin

section \<open>Properties of the receive loop and the sessions\<close>

text \<open>
  What a session of the server reports, when it ends, which timeouts it asks for, and how many
  sessions a server runs.
\<close>

subsection \<open>The result of a session\<close>

text \<open>
  C13. What a session reports depends on the bytes of the datagrams it ingested alone: with any
  timing, in both modes, with or without coalesced receives, the counters at the end (other than the
  number of fragments) are those of the session specification: the stream parser's, with a batch
  that is still incomplete counted as bad and the missing numbers as lost.
\<close>

theorem session_result_from_datagrams:
  assumes "run_receive_loop pf options uro turns = SessionDone x rest"
  shows "session_stats (opt_batch_count options) (received x) = Some ((stats (srv x))\<lparr>fragments := 0\<rparr>)"
  using session_done(1) [OF assms] by (simp add: view_def)

text \<open>
  C15. A session waits for its first datagram: it does not end before one was ingested. With
  \<open>--count n\<close> it stops reading as soon as \<open>n\<close> batches are counted: each datagram was read while
  fewer were, and if the loop ended before the count was reached it was idle after traffic.
\<close>

theorem session_ends_after_traffic:
  assumes "run_receive_loop pf options uro turns = SessionDone x rest"
    and "opt_batch_count options \<noteq> Some 0"
  shows "received x \<noteq> [] \<and>
    (case opt_batch_count options of
       None \<Rightarrow> True
     | Some n \<Rightarrow> \<forall>k < length (received x).
         batches (fst (parse_stream init_stats (concat (take k (received x))))) < n)"
proof (cases "opt_batch_count options")
  case None
  then show ?thesis using session_done(3) [OF assms(1)] by simp
next
  case (Some n)
  have d: "below n (received x)"
    "n \<le> batches (fst (parse_stream init_stats (concat (received x)))) \<or> received x \<noteq> []"
    using session_done(4) [OF assms(1) Some] by simp_all
  have "n \<noteq> 0" using assms(2) Some by simp
  then have "received x \<noteq> []"
    using d(2) by (auto simp: parse_stream_short init_stats_def)
  then show ?thesis using d(1) Some by (simp add: below_def)
qed

text \<open>
  The receive loop never reports a fault of the reassembly: a session ends with a summary, an
  error of the operating system, or is still waiting.
\<close>

theorem session_never_faults:
  "run_receive_loop pf options uro turns \<noteq> SessionFailed (IngestFault f)"
proof -
  let ?x = "init_rx\<lparr>srv := say (opt_verbose options) (LogSessionStart (opt_batch_count options) uro) init_server\<rparr>"
  have i: "rx_inv ?x" by (rule rx_inv_init)
  have e: "end_session pf v c r \<noteq> SessionFailed (IngestFault f)" if "r \<noteq> Failed (IngestFault f)" for v c r
    using that by (auto simp: end_session_def split: loop_run.split option.split)
  show ?thesis
    using e count_loop_no_fault idle_loop_no_fault i
    by (auto simp: run_receive_loop_def Let_def split: option.split)
qed

subsection \<open>Timeouts\<close>

lemma sdiv_smod_nonneg:
  fixes a b :: int
  assumes "0 \<le> a" and "0 < b"
  shows "a sdiv b = a div b" and "a smod b = a mod b"
  using assms by (auto simp: signed_divide_int_def signed_modulo_int_def sgn_if)

lemma linux_timeout_positive:
  assumes "0 < ms"
  shows "\<exists>sec usec. set_receive_timeout Linux ms = RcvTimeval sec usec \<and>
    0 \<le> sec \<and> 0 \<le> usec \<and> usec < 1000000 \<and> sec * 1000000 + usec = ms * 1000"
  using assms by (auto simp: set_receive_timeout_def sdiv_smod_nonneg) presburger

text \<open>
  C29. On Linux every timeout that a session sets on the socket is a well-formed \<open>timeval\<close> of at least
  one millisecond: never zero, which would mean that a receive does not block at all, however the
  clock behaves.
\<close>

theorem linux_timeouts_never_zero:
  assumes "run_receive_loop Linux options uro turns = SessionDone x rest" and "p \<in> set (timeouts x)"
  shows "\<exists>sec usec. p = RcvTimeval sec usec \<and> 0 \<le> sec \<and> 0 \<le> usec \<and> usec < 1000000 \<and>
    1000 \<le> sec * 1000000 + usec"
proof -
  have "session_timeout Linux p" using session_done(2) [OF assms(1)] assms(2) by blast
  moreover have "clear_receive_timeout Linux = set_receive_timeout Linux kBlockingRecvTimeout"
    by (simp add: clear_receive_timeout_def)
  moreover have "(0 :: int) < kBlockingRecvTimeout" by (simp add: kBlockingRecvTimeout_def)
  ultimately obtain ms where "p = set_receive_timeout Linux ms" "0 < ms"
    by (auto simp: session_timeout_def apply_recv_timeout_for_session_def Let_def split: option.splits if_splits)
  with linux_timeout_positive [OF this(2)] show ?thesis by fastforce
qed

subsection \<open>Ending\<close>

text \<open>Idle sessions always close: the bound of \<open>finalize_lost\<close> is below the session's total.\<close>

lemma finalize_lost_idle:
  assumes "stats_inv st"
  shows "finalize_lost st None \<noteq> None"
proof (cases "wire_batch_total st")
  case None
  with assms have "\<not> have_seq st" by (auto simp: stats_inv_def)
  with None show ?thesis by (simp add: finalize_lost_def lost_upper_def)
next
  case (Some t)
  then show ?thesis using finalize_lost_total [OF assms] by simp
qed

lemma stats_inv_bad: "stats_inv (st\<lparr>bad_batches := n\<rparr>) = stats_inv st"
  by (simp add: stats_inv_def split: option.split)

lemma close_session_idle:
  assumes "rx_inv x"
  shows "\<exists>s. close_session v None (srv x) = Some s"
proof -
  have p: "reasm_inv (srv x)" "parse_stream init_stats (concat (received x)) = (view (srv x), pending (srv x))"
    using assms by (simp_all add: rx_inv_def)
  have "stats_inv (view (srv x))" using parse_stream_stats_inv [of init_stats "concat (received x)"] p(2) by simp
  then have "stats_inv ((view (srv x))\<lparr>bad_batches := n\<rparr>)" for n by (simp add: stats_inv_bad)
  from finalize_lost_idle [OF this] have "map_option view (close_session v None (srv x)) \<noteq> None"
    unfolding close_session_view [OF p(1)] .
  then show ?thesis by simp
qed

lemma idle_loop_append:
  "idle_loop pf uro v (pre @ ts) x =
     (case idle_loop pf uro v pre x of
        Blocked y \<Rightarrow> idle_loop pf uro v ts y
      | Failed e \<Rightarrow> Failed e
      | Left y rest \<Rightarrow> Left y (rest @ ts))"
proof (induction pre arbitrary: x)
  case Nil
  then show ?case by simp
next
  case (Cons t pre)
  then show ?case
    by (simp add: idle_loop.simps Let_def split: sum.split prod.split option.split)
qed

definition session_start :: "server_options \<Rightarrow> bool \<Rightarrow> rx_state" where
  "session_start options uro =
     init_rx\<lparr>srv := say (opt_verbose options) (LogSessionStart (opt_batch_count options) uro) init_server\<rparr>"

lemma idle_session:
  "opt_batch_count options = None \<Longrightarrow>
     run_receive_loop pf options uro turns =
       end_session pf (opt_verbose options) None
         (idle_loop pf uro (opt_verbose options) turns (session_start options uro))"
  by (simp add: run_receive_loop_def Let_def session_start_def)

lemma session_start_inv:
  "rx_inv (session_start options uro)" "want_below want (session_start options uro)"
  "timeouts (session_start options uro) = []" "received (session_start options uro) = []"
  using rx_inv_init by (simp_all add: session_start_def want_below_def below_def init_rx_def)

lemma idle_blocked_inv:
  assumes "idle_loop pf uro v turns (session_start options uro) = Blocked y"
  shows "rx_inv y"
proof -
  have "run_state (idle_loop pf uro v turns (session_start options uro)) = Some y" using assms by simp
  from rounds_inv [OF idle_loop_rounds [OF this] session_start_inv(1,2)]
  show ?thesis by (simp add: session_start_inv)
qed

text \<open>
  A round in which nothing happens: the deadline has passed, or at least a millisecond is left and
  the wait reports no datagram.
\<close>

definition quiet_turn :: "int option \<Rightarrow> turn \<Rightarrow> bool" where
  "quiet_turn dl t \<longleftrightarrow> (case dl of None \<Rightarrow> False | Some d \<Rightarrow>
     d \<le> now_check t \<or> (0 < to_millis (d - now_check t) \<and> \<not> wait_udp_readable (to_millis (d - now_check t)) t))"

text \<open>
  C16. An idle-mode session ends when the traffic does: if it is waiting after at least one datagram
  and the next round is quiet (the deadline, three seconds after the last datagram, has passed, or
  the wait until the deadline reports nothing), the session ends with that round, with its summary,
  having ingested exactly the datagrams so far. It never hangs in the counting of lost batches.
\<close>

theorem idle_session_ends_when_quiet:
  assumes "opt_batch_count options = None"
    and "run_receive_loop pf options uro pre = SessionBlocked y" and "received y \<noteq> []"
    and "quiet_turn (deadline y) t"
  shows "\<exists>x. run_receive_loop pf options uro (pre @ t # post) = SessionDone x post \<and> received x = received y"
proof -
  let ?v = "opt_verbose options"
  have b: "idle_loop pf uro ?v pre (session_start options uro) = Blocked y"
    using assms(2) by (auto simp: idle_session [OF assms(1)] end_session_def split: loop_run.splits option.splits)
  obtain d where d: "deadline y = Some d" using assms(4) by (cases "deadline y") (simp_all add: quiet_turn_def)
  have "idle_loop pf uro ?v (t # post) y = Left (idle_break ?v y) post"
    using assms(4) d by (auto simp: quiet_turn_def idle_loop.simps Let_def wait_udp_readable_def split: if_splits)
  then have l: "idle_loop pf uro ?v (pre @ t # post) (session_start options uro) = Left (idle_break ?v y) post"
    by (simp add: idle_loop_append b)
  have "rx_inv (idle_break ?v y)" using idle_blocked_inv [OF b] by simp
  from close_session_idle [OF this] obtain s where "close_session ?v None (srv (idle_break ?v y)) = Some s" by blast
  with l show ?thesis by (simp add: idle_session [OF assms(1)] end_session_def)
qed

lemma count_loop_append:
  "count_loop pf uro v want (pre @ ts) x =
     (case count_loop pf uro v want pre x of
        Blocked y \<Rightarrow> count_loop pf uro v want ts y
      | Failed e \<Rightarrow> Failed e
      | Left y rest \<Rightarrow> Left y (rest @ ts))"
proof (induction pre arbitrary: x)
  case Nil
  then show ?case by (cases ts) (simp_all add: count_loop.simps)
next
  case (Cons t pre)
  then show ?case
    by (simp add: count_loop.simps [of pf uro v want "t # _"] Let_def
        split: sum.split prod.split option.split)
qed

lemma count_session:
  "opt_batch_count options = Some n \<Longrightarrow>
     run_receive_loop pf options uro turns =
       end_session pf (opt_verbose options) (Some n)
         (count_loop pf uro (opt_verbose options) n turns
           (push_timeout (clear_receive_timeout pf) (session_start options uro)))"
  by (simp add: run_receive_loop_def Let_def session_start_def)

lemma count_loop_Blocked:
  "count_loop pf uro v want turns x = Blocked y \<Longrightarrow> batches (stats (srv y)) < want"
proof (induction turns arbitrary: x)
  case Nil
  then show ?case by (auto simp: count_loop.simps split: if_splits)
next
  case (Cons t ts)
  then show ?case
    by (auto simp: count_loop.simps [of pf uro v want "t # ts"] Let_def
        split: if_splits sum.splits option.splits prod.splits dest: Cons.IH)
qed

lemma count_blocked_inv:
  assumes "count_loop pf uro v n turns (push_timeout p (session_start options uro)) = Blocked y"
    and "session_timeout pf p"
  shows "rx_inv y"
proof -
  let ?x = "push_timeout p (session_start options uro)"
  have "run_state (count_loop pf uro v n turns ?x) = Some y" using assms(1) by simp
  note r = count_loop_rounds [OF this]
  have "rx_inv ?x" "want_below (Some n) ?x" "\<forall>q \<in> set (timeouts ?x). session_timeout pf q"
    using session_start_inv assms(2) by (auto simp: want_below_def)
  from rounds_inv [OF r this] show ?thesis by blast
qed

lemma close_session_count:
  assumes "0 < n" and "n < 2 ^ 32" and "reasm_inv s"
  shows "\<exists>s'. close_session v (Some n) s = Some s' \<and>
    bad_batches (stats s') = bad_batches (stats s) + (if active (reasm s) then 1 else 0)"
proof -
  obtain s' where s': "close_session v (Some n) s = Some s'"
    using close_session_view [OF assms(3), of v "Some n"] finalize_lost_count [OF assms(1,2)] by auto
  then have "bad_batches (view s') = bad_batches (view s) + (if 20 \<le> length (pending s) then 1 else 0)"
    using close_session_view [OF assms(3), of v "Some n"] finalize_lost_count [OF assms(1,2)] by simp
  with s' show ?thesis using active_iff_pending [OF assms(3)] by simp
qed

text \<open>
  C17. With \<open>--count\<close> a session that has had traffic ends with the next receive that brings nothing,
  also in the middle of a batch: if it waits for more batches (of fewer than \<open>2 ^ 32\<close>) and the receive
  of the next round reports a timeout, it ends with that round and its summary, having ingested the
  datagrams so far, and a batch still incomplete is counted bad. That receive was made with a timeout:
  the rest of the three seconds after the last datagram, at least one millisecond, whether or not a
  batch is being assembled (only a session that is past its deadline between batches ends without
  another receive). That the system reports the timeout is a hypothesis, and on Linux it rests on
  \<open>SO_RCVTIMEO\<close> alone.
\<close>

theorem count_session_ends_on_timeout:
  assumes "opt_batch_count options = Some n" and "n < 2 ^ 32"
    and "run_receive_loop pf options uro pre = SessionBlocked y" and "received y \<noteq> []"
    and "receive_one uro (opt_verbose options) t (srv y) = Inr (None, srv y)"
  shows "\<exists>x d. run_receive_loop pf options uro (pre @ t # post) = SessionDone x post \<and> received x = received y \<and>
    bad_batches (stats (srv x)) = bad_batches (stats (srv y)) + (if active (reasm (srv y)) then 1 else 0) \<and>
    deadline y = Some d \<and>
    timeouts x = timeouts y @
      (if \<not> active (reasm (srv y)) \<and> d \<le> now_check t then []
       else [set_receive_timeout pf (max 1 (to_millis (d - now_apply t)))]) @
      [clear_receive_timeout pf]"
proof -
  let ?v = "opt_verbose options" and ?p = "clear_receive_timeout pf"
  let ?x = "push_timeout ?p (session_start options uro)"
  have b: "count_loop pf uro ?v n pre ?x = Blocked y"
    using assms(3) by (auto simp: count_session [OF assms(1)] end_session_def split: loop_run.splits option.splits)
  have i: "rx_inv y" using count_blocked_inv [OF b] by simp
  have lt: "batches (stats (srv y)) < n" using count_loop_Blocked [OF b] .
  obtain d where d: "deadline y = Some d"
  proof -
    have "deadline y = None \<longleftrightarrow> received y = []" using i by (simp only: rx_inv_def)
    then show ?thesis using that assms(4) by auto
  qed
  let ?late = "\<not> active (reasm (srv y)) \<and> d \<le> now_check t"
  let ?q = "set_receive_timeout pf (max 1 (to_millis (d - now_apply t)))"
  have q: "apply_recv_timeout_for_session pf (Some d) (now_apply t) = ?q"
    by (simp add: apply_recv_timeout_for_session_def Let_def max_def)
  define z where "z = (if ?late then y else push_timeout ?q y)"
  have z: "srv z = srv y" "received z = received y" "timeouts z = timeouts y @ (if ?late then [] else [?q])"
    by (simp_all add: z_def)
  have same: "(push_timeout ?q y)\<lparr>srv := srv y\<rparr> = push_timeout ?q y" by (simp add: push_timeout_def)
  have "count_loop pf uro ?v n (t # post) y = Left z post"
    using lt d assms(5) q same
    by (cases ?late) (auto simp: count_loop.simps [of pf uro ?v n "t # post"] Let_def z_def)
  then have l: "count_loop pf uro ?v n (pre @ t # post) ?x = Left z post" by (simp add: count_loop_append b)
  have "reasm_inv (srv y)" using i by (simp add: rx_inv_def)
  then obtain s where "close_session ?v (Some n) (srv y) = Some s"
    "bad_batches (stats s) = bad_batches (stats (srv y)) + (if active (reasm (srv y)) then 1 else 0)"
    using close_session_count [of n "srv y" ?v] assms(2) lt by auto
  with l z d show ?thesis by (simp add: count_session [OF assms(1)] end_session_def)
qed

text \<open>
  C28. A session hangs (its summary is never printed) only with a \<open>--count\<close> that is a multiple of
  \<open>2 ^ 32\<close>; an idle-mode session never does.
\<close>

theorem session_hangs_only_on_wrapped_count:
  assumes "run_receive_loop pf options uro turns = SessionHangs"
  shows "\<exists>n. opt_batch_count options = Some n \<and> 0 < n \<and> n mod 2 ^ 32 = 0"
proof (cases "opt_batch_count options")
  case None
  let ?v = "opt_verbose options"
  obtain y rest where l: "idle_loop pf uro ?v turns (session_start options uro) = Left y rest"
    and c: "close_session ?v None (srv y) = None"
    using assms by (auto simp: idle_session [OF None] end_session_def split: loop_run.splits option.splits)
  have "run_state (idle_loop pf uro ?v turns (session_start options uro)) = Some y" using l by simp
  from rounds_inv [OF idle_loop_rounds [OF this] session_start_inv(1,2)]
  have "rx_inv y" by (simp add: session_start_inv)
  from close_session_idle [OF this, of ?v] c show ?thesis by simp
next
  case (Some n)
  then obtain s where "close_session (opt_verbose options) (Some n) s = None"
    using assms by (auto simp: count_session [OF Some] end_session_def split: loop_run.splits option.splits)
  then obtain st where f: "finalize_lost st (Some n) = None" by (auto simp: close_session_def Let_def)
  then have n: "0 < n" by (cases n) (auto simp: finalize_lost_def lost_upper_def)
  have "lost_upper st (Some n) = Some (- 1)" using f finalize_lost_None_iff by blast
  then have "of_nat (n - 1) = (- 1 :: u32)" using n by (simp add: lost_upper_def)
  then have "of_nat (Suc (n - 1)) = (0 :: u32)" by simp
  moreover have "Suc (n - 1) = n" using n by simp
  ultimately have "(of_nat n :: u32) = 0" by (simp only:)
  then have "n mod 2 ^ 32 = 0" by (simp add: word_of_nat_eq_0_iff dvd_eq_mod_eq_0)
  with Some n show ?thesis by simp
qed

subsection \<open>Sessions of a server\<close>

text \<open>What is known of the sessions a server has completed, from session number \<open>k\<close> on.\<close>

definition sessions_ok :: "server_options \<Rightarrow> nat \<Rightarrow> rx_state list \<Rightarrow> bool" where
  "sessions_ok options k new \<longleftrightarrow>
     (\<forall>x \<in> set new. session_stats (opt_batch_count options) (received x) = Some (view (srv x))) \<and>
     (if opt_loop options
      then \<exists>n. opt_loop_count options = Some n \<and> (k < n \<longrightarrow> k + length new = n)
      else length new = 1)"

lemma run_sessions_done:
  assumes "run_sessions pf options uro session done turns = Some r"
  shows "\<forall>xs rest. r = ServerDone xs rest \<longrightarrow>
    (\<exists>new. xs = done @ new \<and> sessions_ok options session new)"
  using assms
proof (induction rule: run_sessions.raw_induct [rotated, consumes 1, case_names round])
  case (round run pf options uro session dn turns r)
  show ?case
  proof (cases "run_receive_loop pf options uro turns")
    case (SessionDone x rest)
    have v: "session_stats (opt_batch_count options) (received x) = Some (view (srv x))"
      using session_done(1) [OF SessionDone] .
    show ?thesis
    proof (cases "opt_loop options \<and> \<not> (case opt_loop_count options of None \<Rightarrow> False | Some n \<Rightarrow> n \<le> session + 1)")
      case True
      then have "run pf options uro (session + 1) (dn @ [x]) rest = Some r"
        using round(2) SessionDone by simp
      from round(1) [OF this] v True show ?thesis
        by (fastforce simp: sessions_ok_def split: option.splits)
    next
      case False
      then have "r = ServerDone (dn @ [x]) rest" using round(2) SessionDone by (auto split: if_splits)
      with v False show ?thesis by (auto simp: sessions_ok_def split: option.splits)
    qed
  qed (use round(2) in auto)
qed

text \<open>
  C27. A server that finishes has run exactly one session without \<open>--loop\<close>, exactly \<open>n\<close> with
  \<open>--loop n\<close>, and with a bare \<open>--loop\<close> it does not finish; every session reports the counters of its
  own datagrams, starting from nothing.
\<close>

theorem server_runs_requested_sessions:
  assumes "run_sessions pf options uro 0 [] turns = Some (ServerDone xs rest)"
    and "opt_loop_count options \<noteq> Some 0"
  shows "(if opt_loop options then opt_loop_count options = Some (length xs) else length xs = 1) \<and>
    (\<forall>x \<in> set xs. session_stats (opt_batch_count options) (received x) =
       Some ((stats (srv x))\<lparr>fragments := 0\<rparr>))"
proof -
  have "sessions_ok options 0 xs" using run_sessions_done [OF assms(1)] by simp
  with assms(2) show ?thesis by (auto simp: sessions_ok_def view_def split: if_splits)
qed

subsection \<open>Sample sessions\<close>

text \<open>One datagram with the two sample batches, then silence.\<close>

definition traffic_turn :: turn where
  "traffic_turn = \<lparr>now_check = 0, now_apply = 0, poll_rc = 1, poll_flag = True,
     got = Inr (sample_batch0 @ sample_batch1), got_uro = (init_uro_result, []), now_after = 1000\<rparr>"

definition silent_turn :: turn where
  "silent_turn = \<lparr>now_check = 2000, now_apply = 2000, poll_rc = 0, poll_flag = False,
     got = Inl TimedOut, got_uro = (init_uro_result, []), now_after = 2000\<rparr>"

lemma traffic_received:
  assumes "reasm_inv s"
  obtains s' where "receive_one False v traffic_turn s = Inr (Some (sample_batch0 @ sample_batch1), s')"
    and "reasm_inv s'" and "parse_stream (view s) (pending s @ sample_batch0 @ sample_batch1) = (view s', pending s')"
  using ingested_ok [OF assms, of v "sample_batch0 @ sample_batch1"]
  by (auto simp: receive_one_def receive_datagram_def traffic_turn_def)

lemma silent_received: "receive_one False v silent_turn s = Inr (None, s)"
  by (simp add: receive_one_def receive_datagram_def silent_turn_def is_receive_timeout_def)

lemma sample_blocked:
  assumes "opt_batch_count options = None \<or> opt_batch_count options = Some 4 \<or> opt_batch_count options = Some (2 ^ 32)"
  obtains y where "run_receive_loop Linux options False [traffic_turn] = SessionBlocked y"
    and "received y = [sample_batch0 @ sample_batch1]" and "deadline y = Some (1000 + kIdleTimeout)"
    and "batches (stats (srv y)) = 2" and "\<not> active (reasm (srv y))" and "reasm_inv (srv y)"
proof -
  let ?s = "srv (session_start options False)" and ?v = "opt_verbose options"
  have r: "reasm_inv ?s" "view ?s = init_stats" "pending ?s = []" "batches (stats ?s) = 0"
    by (simp_all add: session_start_def) (simp add: init_server_def init_stats_def)
  obtain s where s: "receive_one False ?v traffic_turn ?s = Inr (Some (sample_batch0 @ sample_batch1), s)"
    "reasm_inv s" "parse_stream init_stats (sample_batch0 @ sample_batch1) = (view s, pending s)"
    using traffic_received [OF r(1), of ?v] r by auto
  have "\<forall>b \<in> set [sample_batch0, sample_batch1]. clean_batch 2 b"
    by (simp add: clean_batch_def sample_batch0_header sample_batch1_header)
  from parse_stream_clean [OF this, of init_stats] s(3)
  have p: "pending s = []" "view s = foldl count_batch (init_stats\<lparr>wire_batch_total := Some 2\<rparr>) [0, 1]"
    by (simp_all add: init_stats_def sample_batch0_header sample_batch1_header)
  have b: "batches (stats s) = 2"
  proof -
    have "batches (view s) = 2" unfolding p(2) by (simp add: init_stats_def)
    then show ?thesis by simp
  qed
  have a: "\<not> active (reasm s)" using active_iff_pending [OF s(2)] p(1) by simp
  have n: "now_check traffic_turn = 0" "now_after traffic_turn = 1000" by (simp_all add: traffic_turn_def)
  have d: "deadline (session_start options False) = None" "received (session_start options False) = []"
    by (simp_all add: session_start_def init_rx_def)
  show thesis
  proof (cases "opt_batch_count options")
    case None
    then show thesis
      using that s a b d n
      by (simp add: idle_session end_session_def idle_loop.simps Let_def)
  next
    case (Some k)
    then show thesis
      using that s a b d n r(4) assms
      by (auto simp: count_session end_session_def count_loop.simps Let_def)
  qed
qed

definition sample_options :: "nat option \<Rightarrow> server_options" where
  "sample_options c = default_server_options\<lparr>opt_port := 5000, opt_batch_count := c\<rparr>"

lemma sample_options_simps [simp]:
  "opt_batch_count (sample_options c) = c" "opt_loop (sample_options c) = False"
  "opt_loop_count (sample_options c) = None"
  by (simp_all add: sample_options_def default_server_options_def)

lemma sample_quiet: "deadline y = Some (1000 + kIdleTimeout) \<Longrightarrow> quiet_turn (deadline y) silent_turn"
  by (simp add: quiet_turn_def silent_turn_def wait_udp_readable_def to_millis_def kIdleTimeout_def
      sdiv_smod_nonneg)

text \<open>The idle-mode session of these turns, whole.\<close>

lemma sample_done:
  obtains x where "run_receive_loop pf (sample_options None) False [traffic_turn, silent_turn] = SessionDone x []"
    and "received x = [sample_batch0 @ sample_batch1]"
    and "timeouts x = [clear_receive_timeout pf, clear_receive_timeout pf]"
proof -
  let ?o = "sample_options None" let ?v = "opt_verbose ?o" and ?x = "session_start ?o False"
  let ?p = "clear_receive_timeout pf"
  obtain s where s: "receive_one False ?v traffic_turn (srv ?x) = Inr (Some (sample_batch0 @ sample_batch1), s)"
    using traffic_received [of "srv ?x" ?v] by (auto simp: session_start_def)
  define y where "y = got_datagram traffic_turn (sample_batch0 @ sample_batch1) s (push_timeout ?p ?x)"
  have d: "deadline ?x = None" "received ?x = []" "timeouts ?x = []"
    by (simp_all add: session_start_def init_rx_def)
  have y: "deadline y = Some (1000 + kIdleTimeout)" "received y = [sample_batch0 @ sample_batch1]"
    "timeouts y = [?p]"
    using d by (simp_all add: y_def traffic_turn_def)
  have i: "rx_inv y"
    unfolding y_def using s session_start_inv(1) by (intro rx_inv_datagram) simp_all
  have "idle_loop pf False ?v [traffic_turn] ?x = Blocked y"
    using s d by (simp add: idle_loop.simps Let_def y_def)
  moreover have "idle_loop pf False ?v [silent_turn] y = Left (idle_break ?v y) []"
    using sample_quiet [of y] y(1)
    by (auto simp: quiet_turn_def idle_loop.simps Let_def wait_udp_readable_def split: if_splits)
  ultimately have l: "idle_loop pf False ?v [traffic_turn, silent_turn] ?x = Left (idle_break ?v y) []"
    using idle_loop_append [of pf False ?v "[traffic_turn]" "[silent_turn]" ?x] by simp
  obtain z where "close_session ?v None (srv (idle_break ?v y)) = Some z"
    using close_session_idle [of "idle_break ?v y" ?v] i by auto
  then show thesis using that l y by (simp add: idle_session end_session_def)
qed

theorem session_result_from_datagrams_witness:
  "\<exists>x. run_receive_loop Linux (sample_options None) False [traffic_turn, silent_turn] = SessionDone x [] \<and>
     session_stats None [sample_batch0 @ sample_batch1] = Some ((stats (srv x))\<lparr>fragments := 0\<rparr>)"
proof -
  obtain x where x: "run_receive_loop Linux (sample_options None) False [traffic_turn, silent_turn] = SessionDone x []"
    "received x = [sample_batch0 @ sample_batch1]" by (rule sample_done)
  from session_result_from_datagrams [OF x(1)] x show ?thesis by auto
qed

theorem session_ends_after_traffic_witness:
  "\<exists>x. run_receive_loop Linux (sample_options None) False [traffic_turn, silent_turn] = SessionDone x [] \<and>
     received x \<noteq> []"
proof -
  obtain x where x: "run_receive_loop Linux (sample_options None) False [traffic_turn, silent_turn] = SessionDone x []"
    by (rule sample_done)
  from session_ends_after_traffic [OF x] x show ?thesis by auto
qed

theorem linux_timeouts_never_zero_witness:
  "\<exists>x sec usec. run_receive_loop Linux (sample_options None) False [traffic_turn, silent_turn] = SessionDone x [] \<and>
     hd (timeouts x) = RcvTimeval sec usec \<and> 1000 \<le> sec * 1000000 + usec"
proof -
  obtain x where x: "run_receive_loop Linux (sample_options None) False [traffic_turn, silent_turn] = SessionDone x []"
    "timeouts x = [clear_receive_timeout Linux, clear_receive_timeout Linux]" by (rule sample_done)
  from linux_timeouts_never_zero [OF x(1), of "hd (timeouts x)"] x show ?thesis by auto
qed

theorem idle_session_ends_when_quiet_witness:
  "\<exists>x. run_receive_loop Linux (sample_options None) False ([traffic_turn] @ silent_turn # [traffic_turn]) =
       SessionDone x [traffic_turn] \<and> received x = [sample_batch0 @ sample_batch1]"
proof -
  obtain y where y: "run_receive_loop Linux (sample_options None) False [traffic_turn] = SessionBlocked y"
    "received y = [sample_batch0 @ sample_batch1]" "deadline y = Some (1000 + kIdleTimeout)"
    using sample_blocked [of "sample_options None"] by auto
  have "received y \<noteq> []" using y(2) by simp
  from idle_session_ends_when_quiet [OF _ y(1) this sample_quiet [OF y(3)], of "[traffic_turn]"] y(2)
  show ?thesis by simp
qed

text \<open>A datagram that ends in the middle of a batch, on Windows.\<close>

definition partial_turn :: turn where
  "partial_turn = traffic_turn\<lparr>got := Inr (sample_batch0 @ take 21 sample_batch1)\<rparr>"

lemma sample_mid_batch:
  obtains y where "run_receive_loop Windows (sample_options (Some 4)) False [partial_turn] = SessionBlocked y"
    and "received y \<noteq> []" and "active (reasm (srv y))" and "deadline y = Some (1000 + kIdleTimeout)"
proof -
  let ?o = "sample_options (Some 4)" let ?s = "srv (session_start ?o False)" and ?v = "opt_verbose ?o"
  let ?d = "sample_batch0 @ take 21 sample_batch1" and ?b1 = "take 21 sample_batch1"
  have r: "reasm_inv ?s" "view ?s = init_stats" "pending ?s = []" "batches (stats ?s) = 0"
    by (simp_all add: session_start_def) (simp add: init_server_def init_stats_def)
  obtain s where s: "receive_one False ?v partial_turn ?s = Inr (Some ?d, s)" "reasm_inv s"
    "parse_stream init_stats ?d = (view s, pending s)"
    using ingested_ok [OF r(1), of ?v ?d] r
    by (auto simp: receive_one_def receive_datagram_def partial_turn_def)
  have c: "clean_batch 2 sample_batch0" "clean_batch 2 sample_batch1"
    by (simp_all add: clean_batch_def sample_batch0_header sample_batch1_header)
  let ?st = "count_batch (init_stats\<lparr>wire_batch_total := Some 2\<rparr>) (hdr_seq (read_header sample_batch0))"
  have h: "read_header ?b1 = read_header sample_batch1" by (simp add: read_header_take)
  have "opens (Some 2) (?b1 @ drop 21 sample_batch1)" using clean_batch_opens [OF c(2)] by simp
  then have o: "opens (Some 2) ?b1" by (rule iffD1 [OF opens_append, rotated]) simp
  have "\<not> whole ?st ?b1" by (simp add: whole_def h sample_batch1_header)
  then have "parse_stream ?st ?b1 = (begun ?st ?b1, ?b1)" using o by (intro parse_stream_wait) simp_all
  moreover have "parse_stream init_stats ?d = parse_stream ?st ?b1"
    by (rule parse_stream_clean_one [OF c(1)]) (simp add: init_stats_def)
  ultimately have v: "view s = begun ?st ?b1" "pending s = ?b1" using s(3) by simp_all
  have a: "active (reasm s)" using active_iff_pending [OF s(2)] v(2) by simp
  have "batches (view s) = 1" unfolding v(1) by (simp add: init_stats_def)
  then have b: "batches (stats s) = 1" by simp
  have n: "now_check partial_turn = 0" "now_after partial_turn = 1000" by (simp_all add: partial_turn_def traffic_turn_def)
  have d: "deadline (session_start ?o False) = None" by (simp add: session_start_def init_rx_def)
  show thesis
    using that s(1) a b d n r(4)
    by (auto simp: count_session end_session_def count_loop.simps Let_def)
qed

theorem count_session_ends_on_timeout_witness:
  "\<exists>x y. run_receive_loop Windows (sample_options (Some 4)) False [partial_turn] = SessionBlocked y \<and>
     run_receive_loop Windows (sample_options (Some 4)) False ([partial_turn] @ silent_turn # []) = SessionDone x [] \<and>
     bad_batches (stats (srv x)) = bad_batches (stats (srv y)) + 1 \<and>
     timeouts x = timeouts y @ [RcvMillis 2999, RcvMillis 0]"
proof -
  obtain y where y: "run_receive_loop Windows (sample_options (Some 4)) False [partial_turn] = SessionBlocked y"
    "received y \<noteq> []" "active (reasm (srv y))" "deadline y = Some (1000 + kIdleTimeout)"
    by (rule sample_mid_batch)
  have "to_millis (1000 + kIdleTimeout - now_apply silent_turn) = 2999"
    by (simp add: to_millis_def kIdleTimeout_def silent_turn_def sdiv_smod_nonneg)
  with count_session_ends_on_timeout [OF _ _ y(1,2) silent_received, of 4 "[]"] y(1,3,4)
  show ?thesis by (auto simp: set_receive_timeout_def clear_receive_timeout_def)
qed

theorem session_hangs_only_on_wrapped_count_witness:
  "run_receive_loop Linux (sample_options (Some (2 ^ 32))) False [traffic_turn, silent_turn] = SessionHangs \<and>
   (2 ^ 32 :: nat) mod 2 ^ 32 = 0"
proof -
  let ?o = "sample_options (Some (2 ^ 32))" let ?v = "opt_verbose ?o"
  let ?x = "push_timeout (clear_receive_timeout Linux) (session_start ?o False)"
  obtain y where y: "run_receive_loop Linux ?o False [traffic_turn] = SessionBlocked y"
    "deadline y = Some (1000 + kIdleTimeout)" "batches (stats (srv y)) = 2"
    "\<not> active (reasm (srv y))" "reasm_inv (srv y)"
    by (rule sample_blocked [of ?o]) simp_all
  have b: "count_loop Linux False ?v (2 ^ 32) [traffic_turn] ?x = Blocked y"
    using y(1) by (auto simp: count_session end_session_def split: loop_run.splits option.splits)
  define z where "z = push_timeout (apply_recv_timeout_for_session Linux (deadline y) (now_apply silent_turn)) y"
  have z: "srv z = srv y" by (simp add: z_def)
  have "\<not> 1000 + kIdleTimeout \<le> now_check silent_turn" by (simp add: silent_turn_def kIdleTimeout_def)
  moreover have "z\<lparr>srv := srv y\<rparr> = z" by (simp add: z_def push_timeout_def)
  ultimately have "count_loop Linux False ?v want [silent_turn] y = Left z []" if "2 < want" for want
    using y(2-4) that silent_received [of ?v "srv y"]
    by (subst count_loop.simps) (simp add: Let_def z_def)
  then have "count_loop Linux False ?v (2 ^ 32) [silent_turn] y = Left z []" by simp
  then have l: "count_loop Linux False ?v (2 ^ 32) [traffic_turn, silent_turn] ?x = Left z []"
    using count_loop_append [of Linux False ?v "2 ^ 32" "[traffic_turn]" "[silent_turn]" ?x] b by simp
  have "finalize_lost st (Some (2 ^ 32)) = None" for st
    by (simp add: finalize_lost_None_iff lost_upper_def)
  then have "close_session ?v (Some (2 ^ 32)) (srv z) = None" by (simp add: close_session_def Let_def)
  with l have h: "run_receive_loop Linux ?o False [traffic_turn, silent_turn] = SessionHangs"
    by (simp add: count_session end_session_def)
  from session_hangs_only_on_wrapped_count [OF h] h show ?thesis by simp
qed

theorem server_runs_requested_sessions_witness:
  "\<exists>x. run_sessions Linux (sample_options None) False 0 [] [traffic_turn, silent_turn] = Some (ServerDone [x] []) \<and>
     session_stats None (received x) = Some ((stats (srv x))\<lparr>fragments := 0\<rparr>)"
proof -
  obtain x where x: "run_receive_loop Linux (sample_options None) False [traffic_turn, silent_turn] = SessionDone x []"
    by (rule sample_done)
  have r: "run_sessions Linux (sample_options None) False 0 [] [traffic_turn, silent_turn] = Some (ServerDone [x] [])"
    by (simp add: run_sessions.simps x)
  from server_runs_requested_sessions [OF r] r show ?thesis by simp
qed

end
