(* ===== verification/Cli_Properties.thy ===== *)
theory Cli_Properties
  imports Cli
begin

section \<open>Properties of the command lines\<close>

text \<open>
  What the option parsers guarantee to the programs: the values they return are in range, the help
  flag wins over every error, and a command line written from options is read back.
\<close>

subsection \<open>Numbers\<close>

lemma takeWhile_show_nat [simp]: "takeWhile is_digit (show_nat n) = show_nat n"
  using show_nat_digits [of n] by (simp add: takeWhile_eq_all_conv)

lemma show_nat_head:
  obtains c r where "show_nat n = c # r" and "is_digit c"
  using show_nat_digits [of n] show_nat_nonempty [of n] by (cases "show_nat n") auto

lemma digit_not_special:
  "is_digit c \<Longrightarrow> \<not> is_space c \<and> c \<noteq> CHR ''-'' \<and> c \<noteq> CHR ''+''"
  by (auto simp: is_digit_def is_space_def Let_def)

lemma sto_unsigned_show_nat [simp]:
  assumes "n < 2 ^ w"
  shows "sto_unsigned w (show_nat n) = Inr n"
proof -
  obtain c r where s: "show_nat n = c # r" "is_digit c" by (rule show_nat_head)
  note d = digit_not_special [OF s(2)]
  have t: "takeWhile is_digit (c # r) = c # r" using takeWhile_show_nat [of n] s(1) by simp
  then have tr: "takeWhile is_digit r = r" using s(2) by (simp del: takeWhile_eq_all_conv)
  have v: "digits_value (c # r) = n" using digits_value_show_nat [of n] s(1) by simp
  show ?thesis
    unfolding sto_unsigned_def s(1) using assms d tr v s(2) by (simp add: Let_def del: takeWhile_eq_all_conv)
qed

lemma stoull_show_nat [simp]: "n < 2 ^ 64 \<Longrightarrow> stoull (show_nat n) = Inr n"
  by (simp add: stoull_def)

lemma stoul_show_nat [simp]: "n < 2 ^ 32 \<Longrightarrow> stoul pf (show_nat n) = Inr n"
  by (cases pf) (simp_all add: stoul_def)

text \<open>
  \<open>std::stoul\<close> accepts a sign, so the number parsers do: a minus sign and the digits of
  \<open>n\<close> are read as \<open>2 ^ w - n\<close>. In particular \<open>parse_count\<close> takes \<open>-1\<close> for the greatest
  64-bit count.
\<close>

theorem sto_unsigned_negates:
  assumes "0 < n" and "n < 2 ^ w"
  shows "sto_unsigned w (CHR ''-'' # show_nat n) = Inr (2 ^ w - n)"
proof -
  have "\<not> is_space CHR ''-''" by (simp add: is_space_def Let_def)
  then show ?thesis using assms by (simp add: sto_unsigned_def Let_def)
qed

theorem sto_unsigned_negates_witness: "parse_count ''-1'' = Inr (2 ^ 64 - 1)"
proof -
  have "show_nat 1 = ''1''" by (subst show_nat.simps) (simp, code_simp)
  then have "sto_unsigned 64 ''-1'' = Inr (2 ^ 64 - 1)"
    using sto_unsigned_negates [of 1 64] by simp
  then show ?thesis by (simp add: parse_count_def stoull_def)
qed

subsection \<open>The options returned\<close>

lemma parse_count_pos: "parse_count v = Inr n \<Longrightarrow> 0 < n"
  by (auto simp: parse_count_def then_do_eq_Inr split: if_splits)

lemma parse_batch_size_range: "parse_batch_size v = Inr n \<Longrightarrow> 20 \<le> n \<and> n \<le> 65536"
  by (auto simp: parse_batch_size_def then_do_eq_Inr cli_consts split: if_splits)

lemma loop_value_pos: "loop_value arg rest = Inr (Some n, rest') \<Longrightarrow> 0 < n"
  by (auto simp: loop_value_def then_do_eq_Inr dest: parse_count_pos
      split: option.splits list.splits if_splits)

definition server_opts_inv :: "server_options \<Rightarrow> bool" where
  "server_opts_inv o1 \<longleftrightarrow> opt_batch_count o1 \<noteq> Some 0 \<and> opt_loop_count o1 \<noteq> Some 0 \<and>
     (opt_loop_count o1 \<noteq> None \<longrightarrow> opt_loop o1)"

lemma server_opts_inv_update [simp]:
  "server_opts_inv (o1\<lparr>opt_bind_address := a\<rparr>) = server_opts_inv o1"
  "server_opts_inv (o1\<lparr>opt_port := p\<rparr>) = server_opts_inv o1"
  "server_opts_inv (o1\<lparr>opt_verbose := v\<rparr>) = server_opts_inv o1"
  "server_opts_inv (o1\<lparr>opt_uro := u\<rparr>) = server_opts_inv o1"
  "server_opts_inv o1 \<Longrightarrow> 0 < n \<Longrightarrow> server_opts_inv (o1\<lparr>opt_batch_count := Some n\<rparr>)"
  "server_opts_inv o1 \<Longrightarrow> c \<noteq> Some 0 \<Longrightarrow> server_opts_inv (o1\<lparr>opt_loop := True,
     opt_loop_count := (case c of None \<Rightarrow> opt_loop_count o1 | Some k \<Rightarrow> Some k)\<rparr>)"
  by (auto simp: server_opts_inv_def split: option.split)

lemma loop_value_nz: "loop_value arg rest = Inr (n, rest') \<Longrightarrow> n \<noteq> Some 0"
  by (auto dest: loop_value_pos)

lemma server_args_inv:
  "server_args pf out args = Inr out' \<Longrightarrow> server_opts_inv out \<Longrightarrow> server_opts_inv out'"
proof (induction args arbitrary: out rule: length_induct)
  case (1 args)
  show ?case
  proof (cases args)
    case Nil
    with 1 show ?thesis by simp
  next
    case (Cons arg rest)
    have IH: "server_opts_inv out'" if "server_args pf out2 rest2 = Inr out'"
      "length rest2 \<le> length rest" "server_opts_inv out2" for out2 rest2
      using 1(1) [rule_format, OF _ that(1,3)] that(2) Cons by simp
    show ?thesis
      using 1(2,3) Cons
      by (auto simp: Let_def then_do_eq_Inr split: if_splits
          dest: parse_count_pos loop_value_nz option_value_rest loop_value_rest elim!: IH)
  qed
qed

text \<open>
  Options that \<open>parse_server_options\<close> returns are usable: the port is not zero, counts are at
  least one, a loop count comes with \<open>--loop\<close>, and \<open>--uro\<close> is accepted on Windows only.
\<close>

theorem parse_server_options_ok:
  assumes "parse_server_options pf args = Inr (Some out)"
  shows "opt_port out \<noteq> 0 \<and> opt_batch_count out \<noteq> Some 0 \<and> opt_loop_count out \<noteq> Some 0 \<and>
    (opt_loop_count out \<noteq> None \<longrightarrow> opt_loop out) \<and> (opt_uro out \<longrightarrow> pf = Windows)"
proof -
  have a: "server_args pf default_server_options args = Inr out"
    and p: "opt_port out \<noteq> 0" "\<not> (pf = Linux \<and> opt_uro out)"
    using assms by (auto simp: parse_server_options_def then_do_eq_Inr split: if_splits)
  have "server_opts_inv default_server_options"
    by (simp add: server_opts_inv_def default_server_options_def)
  with a have "server_opts_inv out" by (rule server_args_inv)
  with p show ?thesis by (cases pf) (auto simp: server_opts_inv_def)
qed

definition client_opts_inv :: "client_options \<Rightarrow> bool" where
  "client_opts_inv o1 \<longleftrightarrow> (opt_batch_size o1 = 0 \<or> 20 \<le> opt_batch_size o1) \<and>
     opt_batch_size o1 \<le> 65536 \<and> 0 < opt_send_count o1"

lemma client_opts_inv_update [simp]:
  "client_opts_inv (o1\<lparr>opt_source_address := a\<rparr>) = client_opts_inv o1"
  "client_opts_inv (o1\<lparr>opt_dest_address := a\<rparr>) = client_opts_inv o1"
  "client_opts_inv (o1\<lparr>opt_dest_port := p\<rparr>) = client_opts_inv o1"
  "client_opts_inv (o1\<lparr>opt_mss := n\<rparr>) = client_opts_inv o1"
  "client_opts_inv (o1\<lparr>opt_no_pktinfo := b\<rparr>) = client_opts_inv o1"
  "client_opts_inv (o1\<lparr>opt_completion_routine := b\<rparr>) = client_opts_inv o1"
  "client_opts_inv o1 \<Longrightarrow> 20 \<le> n \<and> n \<le> 65536 \<Longrightarrow> client_opts_inv (o1\<lparr>opt_batch_size := n\<rparr>)"
  "client_opts_inv o1 \<Longrightarrow> 0 < n \<Longrightarrow> client_opts_inv (o1\<lparr>opt_send_count := n\<rparr>)"
  by (auto simp: client_opts_inv_def)

lemma client_args_inv:
  "client_args pf out args = Inr out' \<Longrightarrow> client_opts_inv out \<Longrightarrow> client_opts_inv out'"
proof (induction args arbitrary: out rule: length_induct)
  case (1 args)
  show ?case
  proof (cases args)
    case Nil
    with 1 show ?thesis by simp
  next
    case (Cons arg rest)
    have IH: "client_opts_inv out'" if "client_args pf out2 rest2 = Inr out'"
      "length rest2 \<le> length rest" "client_opts_inv out2" for out2 rest2
      using 1(1) [rule_format, OF _ that(1,3)] that(2) Cons by simp
    show ?thesis
      using 1(2,3) Cons
      by (auto simp: Let_def then_do_eq_Inr split: if_splits
          dest: parse_count_pos parse_batch_size_range option_value_rest elim!: IH)
  qed
qed

text \<open>
  C32. Options that \<open>parse_client_options\<close> returns are usable: a destination and a port are given,
  the batch size holds a header and fits one send, at least one batch is sent, and the segment size
  is at most the greatest datagram (zero for plain sends).
\<close>

theorem parse_client_options_ok:
  assumes "parse_client_options pf args = Inr (Some out)"
  shows "opt_dest_address out \<noteq> [] \<and> opt_dest_port out \<noteq> 0 \<and>
    kPacketHeaderSize \<le> opt_batch_size out \<and> opt_batch_size out \<le> kMaxBatchSize \<and>
    1 \<le> opt_send_count out \<and> opt_mss out \<le> kUsoMaxSegmentSize"
proof -
  have a: "client_args pf default_client_options args = Inr out"
    and p: "opt_dest_address out \<noteq> []" "opt_dest_port out \<noteq> 0" "opt_batch_size out \<noteq> 0"
      "opt_mss out \<le> kUsoMaxSegmentSize"
    using assms by (auto simp: parse_client_options_def then_do_eq_Inr cli_consts split: if_splits)
  have "client_opts_inv default_client_options"
    by (simp add: client_opts_inv_def default_client_options_def)
  with a have "client_opts_inv out" by (rule client_args_inv)
  with p show ?thesis by (auto simp: client_opts_inv_def cli_consts)
qed

text \<open>
  Help wins over everything: a parser prints the help text and stops exactly when the help flag
  is among the arguments, whatever else is wrong with them.
\<close>

theorem help_flag_wins:
  "(parse_server_options pf args = Inr None \<longleftrightarrow> ''--help'' \<in> set args \<or> ''-h'' \<in> set args) \<and>
   (parse_client_options pf args = Inr None \<longleftrightarrow> ''--help'' \<in> set args \<or> ''-h'' \<in> set args)"
proof -
  have h: "list_ex is_help_flag args \<longleftrightarrow> ''--help'' \<in> set args \<or> ''-h'' \<in> set args"
    by (auto simp: list_ex_iff is_help_flag_def)
  show ?thesis
    unfolding h [symmetric]
    by (auto simp: parse_server_options_def parse_client_options_def then_do_eq_Inr split: if_splits)
qed

subsection \<open>Writing and reading back\<close>

text \<open>
  A command line for given options, every value either after an equals sign or as an argument of
  its own.
\<close>

definition opt_arg :: "bool \<Rightarrow> string \<Rightarrow> string \<Rightarrow> string list" where
  "opt_arg eq key v = (if eq then [key @ CHR ''='' # v] else [key, v])"

definition flag_arg :: "bool \<Rightarrow> string \<Rightarrow> string list" where
  "flag_arg b key = (if b then [key] else [])"

definition render_client :: "bool \<Rightarrow> client_options \<Rightarrow> string list" where
  "render_client eq o1 =
     opt_arg eq ''--source'' (opt_source_address o1) @ opt_arg eq ''--dest'' (opt_dest_address o1) @
     opt_arg eq ''--port'' (show_nat (unat (opt_dest_port o1))) @
     opt_arg eq ''--size'' (show_nat (opt_batch_size o1)) @
     opt_arg eq ''--count'' (show_nat (opt_send_count o1)) @
     opt_arg eq ''--mss'' (show_nat (opt_mss o1)) @
     flag_arg (opt_no_pktinfo o1) ''--no-pktinfo'' @
     flag_arg (opt_completion_routine o1) ''--completion-routine''"

definition render_server :: "bool \<Rightarrow> server_options \<Rightarrow> string list" where
  "render_server eq o1 =
     opt_arg eq ''--bind'' (opt_bind_address o1) @
     opt_arg eq ''--port'' (show_nat (unat (opt_port o1))) @
     (case opt_batch_count o1 of None \<Rightarrow> [] | Some n \<Rightarrow> opt_arg eq ''--count'' (show_nat n)) @
     flag_arg (opt_verbose o1) ''-v'' @ flag_arg (opt_uro o1) ''--uro'' @
     (if opt_loop o1
      then (case opt_loop_count o1 of None \<Rightarrow> [''--loop''] | Some n \<Rightarrow> opt_arg eq ''--loop'' (show_nat n))
      else [])"

lemma option_parts [simp]:
  assumes "CHR ''='' \<notin> set key"
  shows "option_key (key @ CHR ''='' # v) = key" and "option_key key = key"
    and "after_equals (key @ CHR ''='' # v) = Some v" and "after_equals key = None"
proof -
  have k: "\<And>c. c \<in> set key \<Longrightarrow> c \<noteq> CHR ''=''" using assms by auto
  then show "option_key (key @ CHR ''='' # v) = key" "option_key key = key"
    by (simp_all add: option_key_def takeWhile_append2 takeWhile_eq_all_conv)
  have "dropWhile (\<lambda>c. c \<noteq> CHR ''='') (key @ CHR ''='' # v) = CHR ''='' # v"
    using k by (simp add: dropWhile_append2)
  then show "after_equals (key @ CHR ''='' # v) = Some v" by (simp add: after_equals_def)
  have "dropWhile (\<lambda>c. c \<noteq> CHR ''='') key = []" using k by (simp add: dropWhile_eq_Nil_conv)
  then show "after_equals key = None" by (simp add: after_equals_def del: dropWhile_eq_Nil_conv)
qed

text \<open>An option and its value, in either form, at the front of the arguments.\<close>

definition is_key :: "string \<Rightarrow> bool" where
  "is_key key \<longleftrightarrow> CHR ''='' \<notin> set key \<and> starts_dash key \<and> \<not> is_help_flag key"

lemma is_key_eq:
  assumes "is_key key"
  shows "starts_dash (key @ CHR ''='' # v)" and "\<not> is_help_flag (key @ CHR ''='' # v)"
proof -
  obtain r where "key = CHR ''-'' # r"
    using assms by (auto simp: is_key_def starts_dash_def split: list.splits)
  then show "starts_dash (key @ CHR ''='' # v)" by (simp add: starts_dash_def)
  have "CHR ''='' \<in> set (key @ CHR ''='' # v)" by simp
  moreover have "CHR ''='' \<notin> set ''--help''" "CHR ''='' \<notin> set ''-h''" by simp_all
  ultimately show "\<not> is_help_flag (key @ CHR ''='' # v)" unfolding is_help_flag_def by metis
qed

lemma opt_arg_cases:
  assumes "is_key key"
  obtains arg rest' where "opt_arg eq key v @ rest = arg # rest'" and "starts_dash arg"
    and "\<not> is_help_flag arg" and "option_key arg = key" and "option_value arg rest' = Inr (v, rest)"
proof (cases eq)
  case True
  have "CHR ''='' \<notin> set key" using assms by (simp add: is_key_def)
  with True show thesis
    using that [of "key @ CHR ''='' # v" rest] is_key_eq [OF assms]
    by (simp add: opt_arg_def option_value_def)
next
  case False
  have "CHR ''='' \<notin> set key" "starts_dash key" "\<not> is_help_flag key" using assms by (simp_all add: is_key_def)
  with False show thesis
    using that [of key "v # rest"] by (simp add: opt_arg_def option_value_def)
qed

lemma is_key_simps:
  "is_key ''--source''" "is_key ''--dest''" "is_key ''--port''" "is_key ''--size''" "is_key ''--count''"
  "is_key ''--mss''" "is_key ''--bind''" "is_key ''--loop''" "is_key ''--no-pktinfo''"
  "is_key ''--completion-routine''" "is_key ''-v''" "is_key ''--uro''"
  by (simp_all add: is_key_def starts_dash_def is_help_flag_def)

lemma client_args_opt:
  "client_args pf out (opt_arg eq ''--source'' v @ rest) = client_args pf (out\<lparr>opt_source_address := v\<rparr>) rest"
  "client_args pf out (opt_arg eq ''--dest'' v @ rest) = client_args pf (out\<lparr>opt_dest_address := v\<rparr>) rest"
  "client_args pf out (opt_arg eq ''--port'' v @ rest) =
     then_do (parse_port pf v) (\<lambda>p. client_args pf (out\<lparr>opt_dest_port := p\<rparr>) rest)"
  "client_args pf out (opt_arg eq ''--size'' v @ rest) =
     then_do (parse_batch_size v) (\<lambda>n. client_args pf (out\<lparr>opt_batch_size := n\<rparr>) rest)"
  "client_args pf out (opt_arg eq ''--count'' v @ rest) =
     then_do (parse_count v) (\<lambda>n. client_args pf (out\<lparr>opt_send_count := n\<rparr>) rest)"
  "client_args pf out (opt_arg eq ''--mss'' v @ rest) =
     then_do (parse_mss v) (\<lambda>n. client_args pf (out\<lparr>opt_mss := n\<rparr>) rest)"
  by (rule opt_arg_cases [OF is_key_simps(1), of eq v rest], simp add: Let_def)
    (rule opt_arg_cases [OF is_key_simps(2), of eq v rest], simp add: Let_def,
     rule opt_arg_cases [OF is_key_simps(3), of eq v rest], simp add: Let_def,
     rule opt_arg_cases [OF is_key_simps(4), of eq v rest], simp add: Let_def,
     rule opt_arg_cases [OF is_key_simps(5), of eq v rest], simp add: Let_def,
     rule opt_arg_cases [OF is_key_simps(6), of eq v rest], simp add: Let_def)

lemma client_args_flag:
  "client_args pf out (flag_arg b ''--no-pktinfo'' @ rest) =
     client_args pf (if b then out\<lparr>opt_no_pktinfo := True\<rparr> else out) rest"
  "client_args pf out (flag_arg b ''--completion-routine'') =
     Inr (if b then out\<lparr>opt_completion_routine := True\<rparr> else out)"
  by (simp_all add: flag_arg_def is_help_flag_def starts_dash_def option_parts(2) Let_def)

lemma parse_show_nat:
  "parse_port pf (show_nat (unat p)) = Inr p"
  "20 \<le> n \<Longrightarrow> n \<le> 65536 \<Longrightarrow> parse_batch_size (show_nat n) = Inr n"
  "m \<le> 65536 \<Longrightarrow> parse_mss (show_nat m) = Inr m"
  "0 < k \<Longrightarrow> k < 2 ^ 64 \<Longrightarrow> parse_count (show_nat k) = Inr k"
proof -
  have "unat p < 2 ^ 16" using unsigned_less [of p] by simp
  then show "parse_port pf (show_nat (unat p)) = Inr p" by (simp add: parse_port_def)
qed (simp_all add: parse_batch_size_def parse_mss_def parse_count_def cli_consts)

lemma no_help_opt_arg:
  "is_key key \<Longrightarrow> eq \<or> \<not> is_help_flag v \<Longrightarrow> \<not> list_ex is_help_flag (opt_arg eq key v)"
  by (auto simp: opt_arg_def is_key_eq) (simp add: is_key_def)

lemma no_help_flag_arg: "is_key key \<Longrightarrow> \<not> list_ex is_help_flag (flag_arg b key)"
  by (simp add: flag_arg_def is_key_def)

lemma show_nat_no_help [simp]: "\<not> is_help_flag (show_nat n)"
proof -
  obtain c r where s: "show_nat n = c # r" "is_digit c" by (rule show_nat_head)
  have "c \<noteq> CHR ''-''" using digit_not_special [OF s(2)] by blast
  with s show ?thesis by (auto simp: is_help_flag_def)
qed

text \<open>
  C30. Round trip of the client's command line: options in range, written with every value after an
  equals sign or as an argument of its own (where an address must not be a help flag), are read
  back unchanged.
\<close>

theorem client_options_roundtrip:
  assumes "opt_dest_address o1 \<noteq> []" and "opt_dest_port o1 \<noteq> 0"
    and "20 \<le> opt_batch_size o1" and "opt_batch_size o1 \<le> 65536"
    and "0 < opt_send_count o1" and "opt_send_count o1 < 2 ^ 64" and "opt_mss o1 \<le> 1472"
    and "eq \<or> \<not> is_help_flag (opt_source_address o1) \<and> \<not> is_help_flag (opt_dest_address o1)"
  shows "parse_client_options pf (render_client eq o1) = Inr (Some o1)"
proof -
  have h: "\<not> list_ex is_help_flag (render_client eq o1)"
    using assms(8) by (auto simp: render_client_def no_help_opt_arg no_help_flag_arg is_key_simps)
  have p: "parse_batch_size (show_nat (opt_batch_size o1)) = Inr (opt_batch_size o1)"
    "parse_count (show_nat (opt_send_count o1)) = Inr (opt_send_count o1)"
    "parse_mss (show_nat (opt_mss o1)) = Inr (opt_mss o1)"
    using assms by (auto intro: parse_show_nat)
  have "client_args pf default_client_options (render_client eq o1) = Inr o1"
    unfolding render_client_def client_args_opt client_args_flag parse_show_nat(1) p then_do_simps
    by (cases o1) (simp add: default_client_options_def)
  with h assms show ?thesis
    by (simp add: parse_client_options_def cli_consts)
qed

theorem client_options_roundtrip_witness:
  "parse_client_options Linux (render_client False
     \<lparr>opt_source_address = ''0.0.0.0'', opt_dest_address = ''::1'', opt_dest_port = 5000,
      opt_batch_size = 65536, opt_send_count = 10, opt_mss = 1400, opt_no_pktinfo = False,
      opt_completion_routine = True\<rparr>) = Inr (Some
     \<lparr>opt_source_address = ''0.0.0.0'', opt_dest_address = ''::1'', opt_dest_port = 5000,
      opt_batch_size = 65536, opt_send_count = 10, opt_mss = 1400, opt_no_pktinfo = False,
      opt_completion_routine = True\<rparr>)"
  by (rule client_options_roundtrip) (simp_all add: is_help_flag_def)

theorem parse_client_options_ok_witness:
  "\<exists>o1. parse_client_options Windows (render_client True o1) = Inr (Some o1) \<and>
     kPacketHeaderSize \<le> opt_batch_size o1 \<and> opt_mss o1 \<le> kUsoMaxSegmentSize"
proof -
  define o1 where "o1 = default_client_options\<lparr>opt_dest_address := ''h'', opt_dest_port := 9, opt_batch_size := 100\<rparr>"
  have "parse_port Windows (show_nat 9) = Inr 9" using parse_show_nat(1) [of Windows 9] by simp
  then have "client_args Windows default_client_options (render_client True o1) = Inr o1"
    by (simp add: render_client_def client_args_opt client_args_flag parse_show_nat o1_def
        default_client_options_def cli_consts)
  moreover have "\<not> list_ex is_help_flag (render_client True o1)"
    by (simp add: render_client_def no_help_opt_arg no_help_flag_arg is_key_simps)
  ultimately have p: "parse_client_options Windows (render_client True o1) = Inr (Some o1)"
    by (simp add: parse_client_options_def o1_def default_client_options_def cli_consts)
  from parse_client_options_ok [OF p] p show ?thesis by blast
qed

lemma server_args_opt:
  "server_args pf out (opt_arg eq ''--bind'' v @ rest) = server_args pf (out\<lparr>opt_bind_address := v\<rparr>) rest"
  "server_args pf out (opt_arg eq ''--port'' v @ rest) =
     then_do (parse_port pf v) (\<lambda>p. server_args pf (out\<lparr>opt_port := p\<rparr>) rest)"
  "server_args pf out (opt_arg eq ''--count'' v @ rest) =
     then_do (parse_count v) (\<lambda>n. server_args pf (out\<lparr>opt_batch_count := Some n\<rparr>) rest)"
  by (rule opt_arg_cases [OF is_key_simps(7), of eq v rest], simp add: Let_def)
    (rule opt_arg_cases [OF is_key_simps(3), of eq v rest], simp add: Let_def,
     rule opt_arg_cases [OF is_key_simps(5), of eq v rest], simp add: Let_def)

lemma server_args_flag:
  "server_args pf out (flag_arg b ''-v'' @ rest) =
     server_args pf (if b then out\<lparr>opt_verbose := True\<rparr> else out) rest"
  "server_args pf out (flag_arg b ''--uro'' @ rest) =
     server_args pf (if b then out\<lparr>opt_uro := True\<rparr> else out) rest"
  "server_args pf out (flag_arg b ''--uro'') = Inr (if b then out\<lparr>opt_uro := True\<rparr> else out)"
  by (simp_all add: flag_arg_def is_help_flag_def starts_dash_def option_parts(2) Let_def)

lemma server_args_loop:
  assumes "opt_batch_count out = None"
  shows "server_args pf out [''--loop''] = Inr (out\<lparr>opt_loop := True\<rparr>)"
    and "0 < n \<Longrightarrow> n < 2 ^ 64 \<Longrightarrow> server_args pf out (opt_arg eq ''--loop'' (show_nat n)) =
      Inr (out\<lparr>opt_loop := True, opt_loop_count := Some n\<rparr>)"
proof -
  note k = is_key_simps(8) [unfolded is_key_def]
  have o1: "option_key ''--loop'' = ''--loop''" "after_equals ''--loop'' = None"
    using option_parts(2,4) [of "''--loop''"] by simp_all
  show "server_args pf out [''--loop''] = Inr (out\<lparr>opt_loop := True\<rparr>)"
    using k o1 assms by (simp add: Let_def loop_value_def)
  assume n: "0 < n" "n < 2 ^ 64"
  note c = parse_show_nat(4) [OF n]
  have o2: "option_key (''--loop'' @ CHR ''='' # show_nat n) = ''--loop''"
    "after_equals (''--loop'' @ CHR ''='' # show_nat n) = Some (show_nat n)"
    using option_parts(1,3) [of "''--loop''" "show_nat n"] by simp_all
  obtain d r where s: "show_nat n = d # r" "is_digit d" by (rule show_nat_head)
  have d: "\<not> starts_dash (show_nat n)" "is_digit (hd (show_nat n))" "show_nat n \<noteq> []"
    using s digit_not_special [OF s(2)] by (simp_all add: starts_dash_def)
  show "server_args pf out (opt_arg eq ''--loop'' (show_nat n)) =
      Inr (out\<lparr>opt_loop := True, opt_loop_count := Some n\<rparr>)"
  proof (cases eq)
    case True
    then show ?thesis
      using k is_key_eq [OF is_key_simps(8), of "show_nat n"] o2 c assms
      by (simp add: opt_arg_def Let_def loop_value_def)
  next
    case False
    then show ?thesis
      using k o1 c d assms by (simp add: opt_arg_def Let_def loop_value_def)
  qed
qed

text \<open>
  C31. Round trip of the server's command line, with a batch count or with \<open>--loop\<close> and an
  optional number of sessions.
\<close>

theorem server_options_roundtrip:
  assumes "opt_port o1 \<noteq> 0" and "opt_uro o1 \<longrightarrow> pf = Windows"
    and "\<forall>n. opt_batch_count o1 = Some n \<longrightarrow> 0 < n \<and> n < 2 ^ 64 \<and> \<not> opt_loop o1"
    and "\<forall>n. opt_loop_count o1 = Some n \<longrightarrow> 0 < n \<and> n < 2 ^ 64 \<and> opt_loop o1"
    and "eq \<or> \<not> is_help_flag (opt_bind_address o1)"
  shows "parse_server_options pf (render_server eq o1) = Inr (Some o1)"
proof -
  have l: "\<not> is_help_flag ''--loop''" using is_key_simps(8) by (simp add: is_key_def)
  have h: "\<not> list_ex is_help_flag (render_server eq o1)"
    using assms(5) l by (auto simp: render_server_def no_help_opt_arg no_help_flag_arg is_key_simps
        split: option.splits)
  have c: "0 < n \<Longrightarrow> n < 2 ^ 64 \<Longrightarrow> parse_count (show_nat n) = Inr n" for n by (rule parse_show_nat(4))
  have "server_args pf default_server_options (render_server eq o1) = Inr o1"
    using assms(3,4)
    by (cases o1; cases "opt_batch_count o1"; cases "opt_loop_count o1"; cases "opt_loop o1")
      (auto simp: render_server_def server_args_opt server_args_flag parse_show_nat(1) c
        server_args_loop default_server_options_def simp del: server_args.simps(2) split: if_splits)
  with h assms(1,2) show ?thesis
    by (auto simp: parse_server_options_def)
qed

theorem server_options_roundtrip_witness:
  "parse_server_options Windows (render_server True
     \<lparr>opt_bind_address = ''*'', opt_port = 5000, opt_batch_count = None, opt_verbose = True,
      opt_uro = True, opt_loop = True, opt_loop_count = Some 3\<rparr>) = Inr (Some
     \<lparr>opt_bind_address = ''*'', opt_port = 5000, opt_batch_count = None, opt_verbose = True,
      opt_uro = True, opt_loop = True, opt_loop_count = Some 3\<rparr>)"
  by (rule server_options_roundtrip) simp_all

theorem parse_server_options_ok_witness:
  "\<exists>o1. parse_server_options Linux (render_server False o1) = Inr (Some o1) \<and>
     opt_port o1 \<noteq> 0 \<and> opt_batch_count o1 \<noteq> Some 0"
proof -
  define o1 where "o1 = default_server_options\<lparr>opt_port := 9\<rparr>"
  have "parse_port Linux (show_nat 9) = Inr 9" using parse_show_nat(1) [of Linux 9] by simp
  then have "server_args Linux default_server_options (render_server False o1) = Inr o1"
    by (simp add: render_server_def server_args_opt server_args_flag o1_def default_server_options_def
        del: server_args.simps(2))
  moreover have "\<not> list_ex is_help_flag (render_server False o1)"
    by (auto simp: render_server_def no_help_opt_arg no_help_flag_arg is_key_simps o1_def
        default_server_options_def is_help_flag_def [of "''0.0.0.0''"])
  ultimately have p: "parse_server_options Linux (render_server False o1) = Inr (Some o1)"
    by (simp add: parse_server_options_def o1_def default_server_options_def)
  from parse_server_options_ok [OF p] p show ?thesis by blast
qed

text \<open>
  C33. \<open>--loop\<close> and \<open>--count\<close> exclude each other in one order only: after \<open>--count\<close> the flag
  \<open>--loop\<close> is an error, but \<open>--loop\<close> followed by \<open>--count\<close> is accepted, and both are set.
\<close>

theorem loop_and_count_exclusion_depends_on_order:
  assumes "0 < n" and "n < 2 ^ 64" and "p \<noteq> 0"
  shows "parse_server_options pf [''--port'', show_nat (unat p), ''--count'', show_nat n, ''--loop''] = Inl LoopWithCount \<and>
    parse_server_options pf [''--port'', show_nat (unat p), ''--loop'', ''--count'', show_nat n] =
      Inr (Some (default_server_options\<lparr>opt_port := p, opt_loop := True, opt_batch_count := Some n\<rparr>))"
proof -
  note c = parse_show_nat(4) [OF assms(1,2)]
  have a: "opt_arg False k v = [k, v]" for k v by (simp add: opt_arg_def)
  note steps = server_args_opt(2,3) [where eq = False, unfolded a append.simps]
  have l: "\<not> is_help_flag ''--loop''" "starts_dash ''--loop''" "option_key ''--loop'' = ''--loop''"
    "loop_value ''--loop'' [] = Inr (None, [])"
    "loop_value ''--loop'' [''--count'', show_nat n] = Inr (None, [''--count'', show_nat n])"
    using is_key_simps(8) option_parts(2,4) [of "''--loop''"]
    by (simp_all add: is_key_def loop_value_def) (simp_all add: starts_dash_def)
  have h: "\<not> is_help_flag ''--port''" "\<not> is_help_flag ''--count''" by (simp_all add: is_help_flag_def)
  show ?thesis
    using assms(3) h l
    by (auto simp: parse_server_options_def steps parse_show_nat(1) c server_args.simps(2) [of _ _ "''--loop''"]
        Let_def default_server_options_def simp del: server_args.simps(2))
qed

theorem loop_and_count_exclusion_depends_on_order_witness:
  "parse_server_options Linux [''--port'', show_nat 9, ''--loop'', ''--count'', show_nat 4] =
     Inr (Some (default_server_options\<lparr>opt_port := 9, opt_loop := True, opt_batch_count := Some 4\<rparr>))"
  using loop_and_count_exclusion_depends_on_order [of 4 9 Linux]
  by (simp del: server_args.simps)

end
