(* ===== verification/Uro_Session.thy ===== *)
theory Uro_Session
  imports Receive_Properties
begin

section \<open>Coalesced receive and verbose output change nothing but the output\<close>

text \<open>
  A session that reads with \<open>uro_recv_msg\<close> is compared, round by round, with one that reads the same
  bytes with \<open>receive_from\<close>. The two states are equal but for the lines printed, so neither \<open>--uro\<close>
  nor \<open>-v\<close> changes what a server counts, which timeouts it sets or when it stops.
\<close>

subsection \<open>Printing has no effect\<close>

definition quiet :: "server_state \<Rightarrow> server_state" where
  "quiet s = s\<lparr>out := []\<rparr>"

lemma quiet_simps [simp]:
  "stats (quiet s) = stats s" "reasm (quiet s) = reasm s" "quiet (quiet s) = quiet s"
  "quiet (say v l s) = quiet s" "say False l s = s"
  by (simp_all add: quiet_def say_def)

lemma quiet_eq_iff: "quiet s = quiet s' \<longleftrightarrow> stats s = stats s' \<and> reasm s = reasm s'"
  by (cases s; cases s') (simp add: quiet_def)

lemma quiet_updates:
  "quiet (add_bad s) = add_bad (quiet s)" "quiet (add_fragment s) = add_fragment (quiet s)"
  "quiet (set_wire w s) = set_wire w (quiet s)" "quiet (reset_server s) = reset_server (quiet s)"
  "quiet (set_buffer b s) = set_buffer b (quiet s)"
  "quiet (s\<lparr>stats := st\<rparr>) = (quiet s)\<lparr>stats := st\<rparr>" "quiet (s\<lparr>reasm := r\<rparr>) = (quiet s)\<lparr>reasm := r\<rparr>"
  by (simp_all add: quiet_def add_bad_def add_fragment_def set_wire_def reset_server_def set_buffer_def)

fun quiet_exit :: "loop_exit \<Rightarrow> loop_exit" where
  "quiet_exit (Returns s) = Returns (quiet s)"
| "quiet_exit (Continues rest s) = Continues rest (quiet s)"

lemma hunt_header_quiet: "quiet_exit (hunt_header v rest s) = hunt_header False rest (quiet s)"
  by (simp add: hunt_header_def Let_def quiet_updates split: prod.split)

lemma ingest_inactive_quiet: "quiet_exit (ingest_inactive v rest s) = ingest_inactive False rest (quiet s)"
  by (simp add: ingest_inactive_def Let_def hunt_header_quiet quiet_updates)

lemma quiet_results:
  assumes "map_sum (\<lambda>e. e) f r = r'"
  shows "r = Inl e \<Longrightarrow> r' = Inl e" and "r = Inr x \<Longrightarrow> r' = Inr (f x)"
  using assms by auto

lemma try_complete_batch_quiet:
  assumes "\<And>carry s. map_sum (\<lambda>e. e) quiet (ingest carry s) = ingest' carry (quiet s)"
  shows "map_sum (\<lambda>e. e) (map_prod (\<lambda>b. b) quiet) (try_complete_batch ingest v s) = try_complete_batch ingest' False (quiet s)"
  unfolding try_complete_batch_def Let_def
  by (auto simp: quiet_updates split: sum.split prod.split dest!: quiet_results [OF assms])

lemma ingest_active_quiet:
  assumes "\<And>carry s. map_sum (\<lambda>e. e) quiet (ingest carry s) = ingest' carry (quiet s)"
  shows "map_sum (\<lambda>e. e) (map_prod (\<lambda>b. b) quiet) (ingest_active ingest v rest s) = ingest_active ingest' False rest (quiet s)"
proof -
  note t = try_complete_batch_quiet [where ingest = ingest and ingest' = ingest' and v = v, OF assms]
  show ?thesis
    by (auto simp: ingest_active_def Let_def quiet_updates split: sum.split prod.split dest!: quiet_results [OF t])
qed

lemma ingest_loop_quiet: "map_sum (\<lambda>e. e) quiet (ingest_loop n v rest s) = ingest_loop n False rest (quiet s)"
proof (induction n arbitrary: rest s)
  case 0
  then show ?case by simp
next
  case (Suc n)
  have i: "map_sum (\<lambda>e. e) quiet (ingest_loop n v carry (add_fragment s')) = ingest_loop n False carry (add_fragment (quiet s'))"
    for carry s' using Suc.IH by (simp add: quiet_updates)
  note a = ingest_active_quiet [where ingest = "\<lambda>carry s'. ingest_loop n v carry (add_fragment s')"
      and ingest' = "\<lambda>carry s'. ingest_loop n False carry (add_fragment s')", OF i, of v rest s]
  show ?case
    by (auto simp: ingest_inactive_quiet [of v, symmetric] Suc.IH [symmetric] split: sum.split prod.split loop_exit.split
        dest!: quiet_results [OF a])
qed

lemma ingest_fragment_quiet: "map_sum (\<lambda>e. e) quiet (ingest_fragment v d s) = ingest_fragment False d (quiet s)"
  by (simp add: ingest_fragment_def ingest_loop_quiet ingest_fuel_def quiet_updates)


subsection \<open>One read\<close>

text \<open>
  What \<open>receive_from\<close> reports for what \<open>WSARecvMsg\<close> reported. The one difference is the empty
  datagram, which \<open>receive_uro_datagram\<close> takes for a timeout.
\<close>

definition plain_read :: "nat + received \<Rightarrow> error_code + byte list" where
  "plain_read r =
     (case r of
        Inl err \<Rightarrow> Inl (if err = WSAETIMEDOUT then TimedOut else if err = WSAEWOULDBLOCK then WouldBlock
                     else OtherError (int err))
      | Inr m \<Rightarrow> if rm_data m = [] then Inl TimedOut else Inr (rm_data m))"

text \<open>
  The two environments: round by round the same, except that where one has the result of
  \<open>uro_recv_msg\<close> on the 64 KiB buffer the other has that of \<open>receive_from\<close>.
\<close>

definition same_read :: "'w uro_api \<Rightarrow> turn \<Rightarrow> turn \<Rightarrow> bool" where
  "same_read api t t' \<longleftrightarrow> (\<exists>recvmsg w. api_recvmsg api = Some recvmsg \<and>
     (\<forall>m. fst (recvmsg kMaxBatchSize w) = Inr m \<longrightarrow> length (rm_data m) \<le> kMaxBatchSize) \<and>
     got_uro t = fst (uro_recv_msg api kMaxBatchSize w) \<and>
     t'\<lparr>got_uro := got_uro t\<rparr> = t\<lparr>got := plain_read (fst (recvmsg kMaxBatchSize w))\<rparr>)"

inductive same_error :: "rx_error \<Rightarrow> rx_error \<Rightarrow> bool" where
  "same_error (UroRuntimeError (UroRecvMsgFailed err)) (SystemError (OtherError (int err)))"
| "same_error (IngestFault f) (IngestFault f)"

lemma ingested_quiet:
  assumes "quiet s = quiet s'"
  shows "rel_sum same_error (rel_prod (=) (\<lambda>a b. quiet a = quiet b)) (ingested v d s) (ingested v' d s')"
proof -
  have "map_sum (\<lambda>e. e) quiet (ingest_fragment v d s) = map_sum (\<lambda>e. e) quiet (ingest_fragment v' d s')"
    by (simp add: ingest_fragment_quiet assms)
  then show ?thesis
    by (cases "ingest_fragment v d s"; cases "ingest_fragment v' d s'") (auto simp: ingested_def intro: same_error.intros)
qed

lemma receive_uro_plain:
  assumes "same_read api t t'" and "quiet s = quiet s'"
  shows "rel_sum same_error (rel_prod (=) (\<lambda>a b. quiet a = quiet b))
    (receive_one True v t s) (receive_one False v' t' s')"
proof -
  obtain recvmsg w where r: "api_recvmsg api = Some recvmsg" "got_uro t = fst (uro_recv_msg api kMaxBatchSize w)"
    "\<forall>m. fst (recvmsg kMaxBatchSize w) = Inr m \<longrightarrow> length (rm_data m) \<le> kMaxBatchSize"
    "t'\<lparr>got_uro := got_uro t\<rparr> = t\<lparr>got := plain_read (fst (recvmsg kMaxBatchSize w))\<rparr>"
    using assms(1) unfolding same_read_def by blast
  have g: "got t' = plain_read (fst (recvmsg kMaxBatchSize w))" using r(4) by (cases t; cases t') simp
  obtain res w' where k: "recvmsg kMaxBatchSize w = (res, w')" by fastforce
  have c: "kMaxBatchSize \<noteq> 0" "kMaxBatchSize \<le> kUroMaxCoalescedRecv" "kMaxBatchSize \<le> 65536"
    by (simp_all add: kMaxBatchSize_def kUroMaxCoalescedRecv_def)
  show ?thesis
  proof (cases res)
    case (Inl err)
    then show ?thesis
      using c r(1,2) g k assms(2)
      by (auto simp: receive_one_def receive_uro_datagram_def receive_datagram_def uro_recv_msg_def plain_read_def
          init_uro_result_def is_receive_timeout_def WSAETIMEDOUT_def WSAEWOULDBLOCK_def same_error.intros)
  next
    case (Inr m)
    have l: "length (rm_data m) \<le> 65536" using r(3) k Inr c by auto
    then have b: "sint (of_nat (length (rm_data m)) :: u32) = int (length (rm_data m))"
      by (simp add: signed_of_nat signed_take_bit_int_eq_self)
    let ?res = "fst (uro_recv_msg api kMaxBatchSize w)"
    have u: "uro_success (fst ?res)" "uro_bytes_received (fst ?res) = int (length (rm_data m))" "snd ?res = rm_data m"
      using c r(1) k Inr b by (simp_all add: uro_recv_msg_def Let_def split: option.split)
    show ?thesis
    proof (cases "rm_data m = []")
      case True
      then show ?thesis
        using r(2) g k Inr u assms(2)
        by (simp add: receive_one_def receive_uro_datagram_def receive_datagram_def plain_read_def
            is_receive_timeout_def case_prod_beta)
    next
      case False
      then show ?thesis
        using r(2) g k Inr u assms(2)
        by (simp add: receive_one_def receive_uro_datagram_def receive_datagram_def plain_read_def
            case_prod_beta ingested_quiet)
    qed
  qed
qed

subsection \<open>The loops\<close>

definition rx_alike :: "rx_state \<Rightarrow> rx_state \<Rightarrow> bool" where
  "rx_alike x y \<longleftrightarrow> quiet (srv x) = quiet (srv y) \<and> deadline x = deadline y \<and> timeouts x = timeouts y \<and>
     received x = received y"

inductive loop_alike :: "'w uro_api \<Rightarrow> loop_run \<Rightarrow> loop_run \<Rightarrow> bool" for api where
  "rx_alike x y \<Longrightarrow> loop_alike api (Blocked x) (Blocked y)"
| "same_error e e' \<Longrightarrow> loop_alike api (Failed e) (Failed e')"
| "rx_alike x y \<Longrightarrow> list_all2 (same_read api) ts ts' \<Longrightarrow> loop_alike api (Left x ts) (Left y ts')"

inductive_simps loop_alike_simps [simp]:
  "loop_alike api (Blocked x) r" "loop_alike api (Failed e) r" "loop_alike api (Left x ts) r"

lemma same_read_clock: "same_read api t t' \<Longrightarrow> now_check t' = now_check t \<and> now_apply t' = now_apply t \<and>
    poll_rc t' = poll_rc t \<and> poll_flag t' = poll_flag t \<and> now_after t' = now_after t"
  by (cases t; cases t') (auto simp: same_read_def)

lemma rx_alike_fields:
  "rx_alike x y \<Longrightarrow> stats (srv y) = stats (srv x) \<and> reasm (srv y) = reasm (srv x) \<and> deadline y = deadline x"
  by (simp add: rx_alike_def quiet_eq_iff)

lemma rx_alike_moves:
  assumes "rx_alike x y"
  shows "rx_alike (push_timeout p x) (push_timeout p y)"
    and "quiet s = quiet s' \<Longrightarrow> rx_alike (x\<lparr>srv := s\<rparr>) (y\<lparr>srv := s'\<rparr>)"
    and "rx_alike (idle_break v x) (idle_break v' y)"
    and "quiet s = quiet s' \<Longrightarrow> now_after t' = now_after t \<Longrightarrow> rx_alike (got_datagram t d s x) (got_datagram t' d s' y)"
  using assms by (simp_all add: rx_alike_def push_timeout_def idle_break_def got_datagram_def)

text \<open>The three outcomes of a round in which both read.\<close>

lemma both_receive:
  assumes "same_read api t t'" and "rx_alike x y"
  obtains (failed) e e' where "receive_one True v t (srv x) = Inl e" "receive_one False v' t' (srv y) = Inl e'"
      "same_error e e'"
    | (timed_out) s s' where "receive_one True v t (srv x) = Inr (None, s)" "receive_one False v' t' (srv y) = Inr (None, s')"
      "rx_alike (x\<lparr>srv := s\<rparr>) (y\<lparr>srv := s'\<rparr>)"
    | (datagram) d s s' where "receive_one True v t (srv x) = Inr (Some d, s)" "receive_one False v' t' (srv y) = Inr (Some d, s')"
      "rx_alike (got_datagram t d s x) (got_datagram t' d s' y)" "stats s' = stats s"
proof -
  have q: "quiet (srv x) = quiet (srv y)" using assms(2) by (simp add: rx_alike_def)
  from receive_uro_plain [OF assms(1) q, of v v'] show ?thesis
  proof (cases rule: rel_sum.cases)
    case (1 e e')
    then show ?thesis by (intro failed)
  next
    case (2 p p')
    obtain d s s' where p: "p = (d, s)" "p' = (d, s')" "quiet s = quiet s'" using 2(3) by (cases p; cases p') auto
    then show ?thesis
      using 2(1,2) timed_out datagram rx_alike_moves(2,4) [OF assms(2) p(3)] same_read_clock [OF assms(1)]
      by (cases d) (auto simp: quiet_eq_iff)
  qed
qed

lemma count_loop_alike:
  assumes "list_all2 (same_read api) ts ts'" and "rx_alike x y"
  shows "loop_alike api (count_loop pf True v want ts x) (count_loop pf False v' want ts' y)"
  using assms
proof (induction ts arbitrary: ts' x y)
  case Nil
  then show ?case using rx_alike_fields [OF Nil(2)] by (simp add: count_loop.simps)
next
  case (Cons t ts)
  then obtain t' rest' where t: "ts' = t' # rest'" "same_read api t t'" "list_all2 (same_read api) ts rest'"
    by (auto simp: list_all2_Cons1)
  note f = rx_alike_fields [OF Cons.prems(2)] and c = same_read_clock [OF t(2)]
  have w: "(case deadline x of None \<Rightarrow> False | Some d \<Rightarrow> d \<le> now_check t') =
      (case deadline x of None \<Rightarrow> False | Some d \<Rightarrow> d \<le> now_check t)"
    using c by (simp split: option.split)
  show ?case
  proof (cases "want \<le> batches (stats (srv x)) \<or>
      \<not> active (reasm (srv x)) \<and> (case deadline x of None \<Rightarrow> False | Some d \<Rightarrow> d \<le> now_check t)")
    case True
    then show ?thesis using f c w t Cons.prems by (auto simp: count_loop.simps [of pf _ _ want])
  next
    case False
    let ?p = "apply_recv_timeout_for_session pf (deadline x) (now_apply t)"
    let ?x = "push_timeout ?p x" and ?y = "push_timeout ?p y"
    have m: "rx_alike ?x ?y" by (rule rx_alike_moves [OF Cons.prems(2)])
    note g = count_loop.simps [of pf _ _ want "t # ts"] count_loop.simps [of pf _ _ want "t' # rest'"]
    from t(2) m show ?thesis
    proof (cases rule: both_receive [where v = v and v' = v'])
      case (failed e e')
      then show ?thesis using False f c w t(1) by (auto simp: g Let_def)
    next
      case (timed_out s s')
      then show ?thesis using False f c w t(1,3) Cons.IH [OF t(3) timed_out(3)] by (auto simp: g Let_def)
    next
      case (datagram d s s')
      then show ?thesis using False f c w t(1,3) Cons.IH [OF t(3) datagram(3)] by (auto simp: g Let_def)
    qed
  qed
qed

lemma idle_loop_alike:
  assumes "list_all2 (same_read api) ts ts'" and "rx_alike x y"
  shows "loop_alike api (idle_loop pf True v ts x) (idle_loop pf False v' ts' y)"
  using assms
proof (induction ts arbitrary: ts' x y)
  case Nil
  then show ?case by simp
next
  case (Cons t ts)
  then obtain t' rest' where t: "ts' = t' # rest'" "same_read api t t'" "list_all2 (same_read api) ts rest'"
    by (auto simp: list_all2_Cons1)
  note f = rx_alike_fields [OF Cons.prems(2)] and c = same_read_clock [OF t(2)]
  have w: "wait_udp_readable n t' = wait_udp_readable n t" for n using c by (simp add: wait_udp_readable_def)
  let ?p = "clear_receive_timeout pf"
  let ?x = "push_timeout ?p x" and ?y = "push_timeout ?p y"
  have m: "rx_alike ?x ?y" by (rule rx_alike_moves [OF Cons.prems(2)])
  note b = rx_alike_moves(3) [OF Cons.prems(2)] and h = Cons.IH [OF t(3) Cons.prems(2)]
  from t(2) m show ?case
  proof (cases rule: both_receive [where v = v and v' = v'])
    case (failed e e')
    then show ?thesis using f c w t(1,3) b h by (simp add: idle_loop.simps(2) Let_def split: option.split)
  next
    case (timed_out s s')
    then show ?thesis using f c w t(1,3) b h Cons.IH [OF t(3) timed_out(3)]
      by (simp add: idle_loop.simps(2) Let_def split: option.split)
  next
    case (datagram d s s')
    then show ?thesis using f c w t(1,3) b h Cons.IH [OF t(3) datagram(3)]
      by (simp add: idle_loop.simps(2) Let_def split: option.split)
  qed
qed

subsection \<open>Sessions\<close>

inductive session_alike :: "'w uro_api \<Rightarrow> session_run \<Rightarrow> session_run \<Rightarrow> bool" for api where
  "rx_alike x y \<Longrightarrow> session_alike api (SessionBlocked x) (SessionBlocked y)"
| "same_error e e' \<Longrightarrow> session_alike api (SessionFailed e) (SessionFailed e')"
| "session_alike api SessionHangs SessionHangs"
| "rx_alike x y \<Longrightarrow> list_all2 (same_read api) ts ts' \<Longrightarrow> session_alike api (SessionDone x ts) (SessionDone y ts')"

lemma drop_incomplete_quiet: "quiet (drop_incomplete v s) = drop_incomplete False (quiet s)"
  by (simp add: drop_incomplete_def Let_def quiet_updates)

lemma close_session_quiet:
  "map_option quiet (close_session v c s) = map_option quiet (close_session False c (quiet s))"
proof -
  have "stats (drop_incomplete v s) = stats (drop_incomplete False (quiet s))"
    using drop_incomplete_quiet [of v s] by (metis quiet_simps(1))
  then show ?thesis
    by (cases "finalize_lost (stats (drop_incomplete v s)) c")
      (simp_all add: close_session_def Let_def quiet_updates drop_incomplete_quiet [of v, symmetric])
qed

lemma end_session_alike:
  assumes "loop_alike api r r'"
  shows "session_alike api (end_session pf v c r) (end_session pf v' c r')"
  using assms
proof cases
  case (3 x y ts ts')
  have q: "map_option quiet (close_session v c (srv x)) = map_option quiet (close_session v' c (srv y))"
    using 3(3) by (simp add: close_session_quiet [of v] close_session_quiet [of v'] rx_alike_def)
  show ?thesis
  proof (cases "close_session v c (srv x)")
    case None
    then show ?thesis using q 3 by (simp add: end_session_def session_alike.intros)
  next
    case (Some s)
    then obtain s' where s': "close_session v' c (srv y) = Some s'" "quiet s = quiet s'"
      using q by (cases "close_session v' c (srv y)") auto
    have "rx_alike ((push_timeout p x)\<lparr>srv := s\<rparr>) ((push_timeout p y)\<lparr>srv := s'\<rparr>)" for p
      using rx_alike_moves(2) [OF rx_alike_moves(1) [OF 3(3)] s'(2)] .
    then show ?thesis using Some s' 3 by (simp add: end_session_def session_alike.intros)
  qed
qed (simp_all add: end_session_def session_alike.intros)

lemma session_alike_runs:
  assumes "list_all2 (same_read api) turns turns'"
  shows "session_alike api (run_receive_loop pf options True turns)
    (run_receive_loop pf (options\<lparr>opt_verbose := v\<rparr>) False turns')"
proof -
  have a: "rx_alike (init_rx\<lparr>srv := say b l init_server\<rparr>) (init_rx\<lparr>srv := say b' l' init_server\<rparr>)" for b l b' l'
    by (simp add: rx_alike_def)
  show ?thesis
    unfolding run_receive_loop_def Let_def
    by (auto split: option.split
        intro!: end_session_alike count_loop_alike idle_loop_alike assms a rx_alike_moves(1))
qed

text \<open>
  C14. Coalesced receive and verbose output change nothing but the lines printed. A Windows session with
  \<open>--uro\<close> is compared with one that reads the same bytes, at the same times, with plain
  \<open>receive_from\<close> and any verbosity: both are still waiting, fail with the same error, hang, or end with
  the same counters and buffers, deadline, timeouts set and datagrams ingested, at the same round.
  The one exception is the empty datagram, which the coalesced receive takes for a timeout.
\<close>

theorem uro_session_equals_plain:
  assumes "list_all2 (same_read api) turns turns'"
    and "plain = run_receive_loop Windows (options\<lparr>opt_verbose := v\<rparr>) False turns'"
  shows "case run_receive_loop Windows options True turns of
      SessionBlocked x \<Rightarrow> \<exists>y. plain = SessionBlocked y \<and> rx_alike x y
    | SessionFailed e \<Rightarrow> \<exists>e'. plain = SessionFailed e' \<and> same_error e e'
    | SessionHangs \<Rightarrow> plain = SessionHangs
    | SessionDone x rest \<Rightarrow> \<exists>y rest'. plain = SessionDone y rest' \<and> rx_alike x y \<and> length rest = length rest'"
  using session_alike_runs [OF assms(1), of Windows options v] assms(2)
  by (cases rule: session_alike.cases) (auto dest: list_all2_lengthD)

text \<open>A kernel that hands over the two sample batches in one coalesced read, then times out.\<close>

definition sample_uro :: "(nat + received) uro_api" where
  "sample_uro = \<lparr>api_set_coalesced = None, api_setsockopt_coalesced = (\<lambda>_ w. (None, w)),
     api_get_coalesced = None, api_getsockopt_coalesced = (\<lambda>w. (Inr 65536, w)),
     api_recvmsg = Some (\<lambda>_ w. (w, w))\<rparr>"

definition coalesced_read :: received where
  "coalesced_read = \<lparr>rm_data = sample_batch0 @ sample_batch1, rm_name = SaNone, rm_namelen = 0,
     rm_control = [\<lparr>cmsg_level = IPPROTO_UDP, cmsg_type = UDP_COALESCED_INFO, cmsg_len = 20, cmsg_dword = 21\<rparr>]\<rparr>"

definition uro_turns :: "turn list" where
  "uro_turns = [traffic_turn\<lparr>got_uro := fst (uro_recv_msg sample_uro kMaxBatchSize (Inr coalesced_read))\<rparr>,
     silent_turn\<lparr>got_uro := fst (uro_recv_msg sample_uro kMaxBatchSize (Inl WSAETIMEDOUT))\<rparr>]"

lemma uro_turns_same: "list_all2 (same_read sample_uro) uro_turns [traffic_turn, silent_turn]"
proof -
  have "same_read sample_uro (traffic_turn\<lparr>got_uro := fst (uro_recv_msg sample_uro kMaxBatchSize (Inr coalesced_read))\<rparr>) traffic_turn"
    unfolding same_read_def
    by (rule exI [of _ "\<lambda>_ w. (w, w)"], rule exI [of _ "Inr coalesced_read"])
      (simp add: sample_uro_def coalesced_read_def plain_read_def traffic_turn_def kMaxBatchSize_def sample_batch0_def)
  moreover have "same_read sample_uro (silent_turn\<lparr>got_uro := fst (uro_recv_msg sample_uro kMaxBatchSize (Inl WSAETIMEDOUT))\<rparr>) silent_turn"
    unfolding same_read_def
    by (rule exI [of _ "\<lambda>_ w. (w, w)"], rule exI [of _ "Inl WSAETIMEDOUT"])
      (simp add: sample_uro_def plain_read_def silent_turn_def)
  ultimately show ?thesis by (simp add: uro_turns_def)
qed

theorem uro_session_equals_plain_witness:
  "\<exists>x y. run_receive_loop Windows ((sample_options None)\<lparr>opt_verbose := True\<rparr>) True uro_turns = SessionDone x [] \<and>
     run_receive_loop Windows (sample_options None) False [traffic_turn, silent_turn] = SessionDone y [] \<and>
     stats (srv x) = stats (srv y) \<and> received x = [sample_batch0 @ sample_batch1]"
proof -
  let ?o = "(sample_options None)\<lparr>opt_verbose := True\<rparr>"
  have o: "sample_options None = ?o\<lparr>opt_verbose := False\<rparr>"
    by (simp add: sample_options_def default_server_options_def)
  obtain y where y: "run_receive_loop Windows (sample_options None) False [traffic_turn, silent_turn] = SessionDone y []"
    "received y = [sample_batch0 @ sample_batch1]" by (rule sample_done)
  have "SessionDone y [] = run_receive_loop Windows (?o\<lparr>opt_verbose := False\<rparr>) False [traffic_turn, silent_turn]"
    unfolding o [symmetric] by (rule y(1) [symmetric])
  from uro_session_equals_plain [OF uro_turns_same this] y show ?thesis
    by (cases "run_receive_loop Windows ?o True uro_turns") (auto simp: rx_alike_def quiet_eq_iff)
qed

end
