(* ===== verification/Uso_Send.thy ===== *)
theory Uso_Send
  imports Sockaddr Cli
begin

section \<open>Segmented send (uso_send.hpp, uso_send_win.cpp)\<close>

text \<open>
  The Windows send path: one batch is handed to the stack in one \<open>WSASendMsg\<close> with a segment size
  (USO), or in one \<open>sendto\<close>. The Winsock and IP Helper entry points are the fields of \<open>uso_api\<close>,
  functions on the state \<open>'w\<close> of the system; the functions that are looked up at run time are
  optional. The lookups are cached in static variables by the code, so their outcome is the same
  at every call. A wait that may never end makes the results options: \<open>None\<close> is a call that does
  not return. Error texts are values of \<open>send_error\<close>.
\<close>

subsection \<open>The interface of the system\<close>

text \<open>
  The control messages of one send. Of a \<open>WSAMSG\<close> the code fills the destination, one buffer and
  the control buffer.
\<close>

datatype control = PktInfo4 "byte list" u32 | PktInfo6 "byte list" u32 | UdpSendMsgSize u32

record wsamsg =
  msg_name :: sockaddr
  msg_namelen :: int
  msg_buffer :: "byte list"
  msg_control :: "control list"
  msg_control_len :: nat

text \<open>
  What an overlapped \<open>WSASendMsg\<close> returns at once: zero with the bytes sent, or an error code. The
  system runs the completion routine by itself, during the call or during an alertable wait, with an
  error code and a number of bytes: both calls tell whether it did, and with which arguments.
\<close>

datatype overlapped_start = StartedOk u32 | StartError int

type_synonym completion = "u32 \<times> u32"

record adapter =
  oper_status_up :: bool
  adapter_if_index :: u32
  adapter_ipv6_if_index :: u32
  unicast_addresses :: "sockaddr option list"

datatype adapters_result = AdaptersOk "adapter list" | BufferOverflow nat | AdaptersError

record 'w uso_api =
  api_set_send_size :: "(u32 \<Rightarrow> 'w \<Rightarrow> int option \<times> 'w) option"
  api_setsockopt_send_size :: "u32 \<Rightarrow> 'w \<Rightarrow> int option \<times> 'w"
  api_sendmsg_available :: bool
  api_wsasendmsg :: "wsamsg \<Rightarrow> 'w \<Rightarrow> (int + u32) \<times> 'w"
  api_wsasendmsg_overlapped :: "wsamsg \<Rightarrow> 'w \<Rightarrow> (overlapped_start \<times> completion option) \<times> 'w"
  api_sleep_ex :: "'w \<Rightarrow> completion option \<times> 'w"
  api_sendto :: "byte list \<Rightarrow> int \<Rightarrow> sockaddr \<Rightarrow> int \<Rightarrow> 'w \<Rightarrow> (int + int) \<times> 'w"
  api_startup :: "'w \<Rightarrow> bool \<times> 'w"
  api_socket :: "'w \<Rightarrow> (int + nat) \<times> 'w"
  api_set_reuseaddr :: "nat \<Rightarrow> 'w \<Rightarrow> int option \<times> 'w"
  api_set_sndbuf :: "nat \<Rightarrow> 'w \<Rightarrow> int option \<times> 'w"
  api_bind :: "nat \<Rightarrow> sockaddr \<Rightarrow> 'w \<Rightarrow> int option \<times> 'w"
  api_getsockname :: "nat \<Rightarrow> 'w \<Rightarrow> (int + u16 \<times> byte list) \<times> 'w"
  api_closesocket :: "nat \<Rightarrow> 'w \<Rightarrow> 'w"
  api_best_interface :: "sockaddr \<Rightarrow> 'w \<Rightarrow> u32 option \<times> 'w"
  api_adapters :: "nat \<Rightarrow> 'w \<Rightarrow> adapters_result \<times> 'w"

definition WSA_IO_PENDING :: int where "WSA_IO_PENDING = 997"
definition WSAEINVAL :: int where "WSAEINVAL = 10022"

subsection \<open>Results\<close>

datatype uso_send_path = PathNone | PathPlain | PathBindOnly | PathPktinfoIfindex

fun uso_send_path_name :: "uso_send_path \<Rightarrow> string" where
  "uso_send_path_name PathPlain = ''plain''"
| "uso_send_path_name PathBindOnly = ''bind-only''"
| "uso_send_path_name PathPktinfoIfindex = ''pktinfo+ifindex''"
| "uso_send_path_name PathNone = ''none''"

datatype send_error =
    EmptyBatchBuffer
  | BatchExceedsMax
  | InvalidMss
  | SendMsgUnavailable
  | UnsupportedFamily
  | SendtoFailed int
  | ShortPlainSend
  | WsaSendMsgFailed int
  | UsoNotImplemented

record uso_send_result =
  send_success :: bool
  segments_sent :: nat
  total_bytes :: nat
  send_path :: uso_send_path
  send_error :: "send_error option"

definition init_send_result :: uso_send_result where
  "init_send_result = \<lparr>send_success = False, segments_sent = 0, total_bytes = 0,
     send_path = PathNone, send_error = None\<rparr>"

subsection \<open>Helpers\<close>

definition configure_udp_send_segment_size :: "'w uso_api \<Rightarrow> u32 \<Rightarrow> 'w \<Rightarrow> int option \<times> 'w" where
  "configure_udp_send_segment_size api segment w =
     (case api_set_send_size api of
        Some set_size \<Rightarrow> set_size segment w
      | None \<Rightarrow> api_setsockopt_send_size api segment w)"

definition bind_option_is_wildcard :: "string \<Rightarrow> bool" where
  "bind_option_is_wildcard text \<longleftrightarrow> text = ''0.0.0.0'' \<or> text = ''*'' \<or> text = ''0''"

text \<open>Boost's \<open>is_unspecified\<close> and, for version 4, \<open>is_loopback\<close>.\<close>

definition is_unspecified :: "ip_address \<Rightarrow> bool" where
  "is_unspecified a \<longleftrightarrow> (\<forall>b \<in> set (address_bytes a). b = 0)"

definition is_loopback_v4 :: "byte list \<Rightarrow> bool" where
  "is_loopback_v4 bytes \<longleftrightarrow> take 1 bytes = [127]"

definition source_address_is_unspecified :: "ip_address \<Rightarrow> bool" where
  "source_address_is_unspecified address =
     (if is_unspecified address then True
      else if is_v4 address \<and> is_unspecified address then True
      else if \<not> is_v4 address \<and> is_unspecified address then True
      else False)"

text \<open>\<open>ipv4_on_interface_index\<close>: the loops over adapters and their addresses.\<close>

fun first_usable_v4 :: "sockaddr option list \<Rightarrow> byte list option" where
  "first_usable_v4 [] = None"
| "first_usable_v4 (u # us) =
     (case u of
        Some (SaIn port bytes) \<Rightarrow>
          if \<not> is_unspecified (V4 bytes) \<and> \<not> is_loopback_v4 bytes then Some bytes
          else first_usable_v4 us
      | _ \<Rightarrow> first_usable_v4 us)"

fun scan_adapters :: "u32 \<Rightarrow> adapter list \<Rightarrow> byte list option" where
  "scan_adapters if_index [] = None"
| "scan_adapters if_index (a # as) =
     (if \<not> oper_status_up a then scan_adapters if_index as
      else if adapter_if_index a \<noteq> if_index \<and> adapter_ipv6_if_index a \<noteq> if_index
      then scan_adapters if_index as
      else case first_usable_v4 (unicast_addresses a) of
        Some bytes \<Rightarrow> Some bytes
      | None \<Rightarrow> scan_adapters if_index as)"

definition ipv4_on_interface_index :: "'w uso_api \<Rightarrow> u32 \<Rightarrow> 'w \<Rightarrow> byte list option \<times> 'w" where
  "ipv4_on_interface_index api if_index w =
     (let (r, w1) = api_adapters api (15 * 1024) w;
          (r', w2) = (case r of BufferOverflow n \<Rightarrow> api_adapters api n w1 | _ \<Rightarrow> (r, w1))
      in case r' of
           AdaptersOk addresses \<Rightarrow> (scan_adapters if_index addresses, w2)
         | _ \<Rightarrow> (None, w2))"

definition ipv4_egress_for_destination ::
  "'w uso_api \<Rightarrow> endpoint \<Rightarrow> 'w \<Rightarrow> (byte list \<times> u32) option \<times> 'w" where
  "ipv4_egress_for_destination api destination w =
     (case ep_address destination of
        V6 _ _ \<Rightarrow> (None, w)
      | V4 bytes \<Rightarrow>
          (case api_best_interface api (SaIn (htons (ep_port destination)) bytes) w of
             (None, w1) \<Rightarrow> (None, w1)
           | (Some if_index, w1) \<Rightarrow>
               (case ipv4_on_interface_index api if_index w1 of
                  (None, w2) \<Rightarrow> (None, w2)
                | (Some address, w2) \<Rightarrow> (Some (address, if_index), w2))))"

definition ipv4_interface_index :: "'w uso_api \<Rightarrow> byte list \<Rightarrow> 'w \<Rightarrow> u32 option \<times> 'w" where
  "ipv4_interface_index api address w =
     (if is_unspecified (V4 address) then (None, w)
      else api_best_interface api (SaIn 0 address) w)"

subsection \<open>One call of \<open>WSASendMsg\<close>\<close>

text \<open>
  \<open>WsaSendMsgIoContext\<close>, without the \<open>OVERLAPPED\<close> that only gives its address, and the completion
  routine, which stores into it. \<open>run_routine\<close> is what the system does to the context.
\<close>

record io_context =
  io_completed :: int
  io_error :: u32
  io_bytes_transferred :: u32

definition init_io_context :: io_context where
  "init_io_context = \<lparr>io_completed = 0, io_error = 0, io_bytes_transferred = 0\<rparr>"

definition wsasendmsg_completion_routine :: "u32 \<Rightarrow> u32 \<Rightarrow> io_context \<Rightarrow> io_context" where
  "wsasendmsg_completion_routine error cb_transferred ctx =
     ctx\<lparr>io_error := error, io_bytes_transferred := cb_transferred, io_completed := 1\<rparr>"

definition run_routine :: "completion option \<Rightarrow> io_context \<Rightarrow> io_context" where
  "run_routine c ctx =
     (case c of None \<Rightarrow> ctx | Some (error, bytes) \<Rightarrow> wsasendmsg_completion_routine error bytes ctx)"

text \<open>The wait: \<open>while (completed != 1) SleepEx(16, TRUE)\<close>.\<close>

partial_function (option) await_completion ::
  "('w \<Rightarrow> completion option \<times> 'w) \<Rightarrow> io_context \<Rightarrow> 'w \<Rightarrow> (io_context \<times> 'w) option" where
  "await_completion sleep ctx w =
     (if io_completed ctx \<noteq> 1
      then (case sleep w of (c, w1) \<Rightarrow> await_completion sleep (run_routine c ctx) w1)
      else Some (ctx, w))"

text \<open>The result: the return value, \<open>bytes_sent\<close> and \<open>wsa_error\<close>.\<close>

definition invoke_wsasendmsg ::
  "'w uso_api \<Rightarrow> wsamsg \<Rightarrow> bool \<Rightarrow> 'w \<Rightarrow> ((bool \<times> u32 \<times> int) \<times> 'w) option" where
  "invoke_wsasendmsg api msg use_completion_routine w =
     (if \<not> use_completion_routine then
        Some (case api_wsasendmsg api msg w of
                (Inl err, w1) \<Rightarrow> ((False, 0, err), w1)
              | (Inr bytes, w1) \<Rightarrow> ((True, bytes, 0), w1))
      else case api_wsasendmsg_overlapped api msg w of
        ((rc, c), w1) \<Rightarrow>
          let ctx = run_routine c init_io_context in
          case rc of
            StartedOk sync_bytes \<Rightarrow>
              Some ((True, if io_completed ctx = 1 then io_bytes_transferred ctx else sync_bytes, 0), w1)
          | StartError wsa_error \<Rightarrow>
              if wsa_error \<noteq> WSA_IO_PENDING then Some ((False, 0, wsa_error), w1)
              else map_option (\<lambda>(ctx', w2).
                     (if io_error ctx' \<noteq> 0 then (False, 0, sint (io_error ctx'))
                      else (True, io_bytes_transferred ctx', wsa_error), w2))
                   (await_completion (api_sleep_ex api) ctx w1))"

definition send_plain_datagram ::
  "'w uso_api \<Rightarrow> byte list \<Rightarrow> endpoint \<Rightarrow> 'w \<Rightarrow> send_error option \<times> 'w" where
  "send_plain_datagram api data target w =
     (case endpoint_to_sockaddr target of
        None \<Rightarrow> (Some UnsupportedFamily, w)
      | Some (dest_storage, dest_len) \<Rightarrow>
          (case api_sendto api data (sint (of_nat (length data) :: u32)) dest_storage dest_len w of
             (Inl err, w1) \<Rightarrow> (Some (SendtoFailed err), w1)
           | (Inr sent, w1) \<Rightarrow>
               if sent \<noteq> int (length data) then (Some ShortPlainSend, w1) else (None, w1)))"

subsection \<open>The control buffer\<close>

text \<open>
  Sizes on a 64-bit system: a header of 16 bytes, data aligned to 8. The buffer holds a segment size
  and the larger of the two packet-info structures. \<open>next_cmsg\<close> is whether \<open>WSA_CMSG_NXTHDR\<close> after
  \<open>used\<close> bytes finds room for a header.
\<close>

definition cmsg_space :: "nat \<Rightarrow> nat" where
  "cmsg_space n = 16 + (n + 7) div 8 * 8"

definition sizeof_DWORD :: nat where "sizeof_DWORD = 4"
definition sizeof_IN_PKTINFO :: nat where "sizeof_IN_PKTINFO = 8"
definition sizeof_IN6_PKTINFO :: nat where "sizeof_IN6_PKTINFO = 20"

definition cmbuf_size :: nat where
  "cmbuf_size = cmsg_space sizeof_DWORD + max (cmsg_space sizeof_IN6_PKTINFO) (cmsg_space sizeof_IN_PKTINFO)"

definition next_cmsg :: "nat \<Rightarrow> bool" where
  "next_cmsg used \<longleftrightarrow> used + 16 \<le> cmbuf_size"

fun control_size :: "control \<Rightarrow> nat" where
  "control_size (PktInfo4 _ _) = cmsg_space sizeof_IN_PKTINFO"
| "control_size (PktInfo6 _ _) = cmsg_space sizeof_IN6_PKTINFO"
| "control_size (UdpSendMsgSize _) = cmsg_space sizeof_DWORD"

text \<open>The packet-info message, if one is wanted; the interface index is looked up when unknown.\<close>

definition pktinfo_control ::
  "'w uso_api \<Rightarrow> ip_address \<Rightarrow> bool \<Rightarrow> u32 \<Rightarrow> 'w \<Rightarrow> control list \<times> 'w" where
  "pktinfo_control api source_address include_pktinfo interface_index w =
     (if include_pktinfo \<and> \<not> source_address_is_unspecified source_address then
        (case source_address of
           V6 bytes scope \<Rightarrow> ([PktInfo6 bytes 0], w)
         | V4 bytes \<Rightarrow>
             if interface_index \<noteq> 0 then ([PktInfo4 bytes interface_index], w)
             else (case ipv4_interface_index api bytes w of
                     (Some if_index, w1) \<Rightarrow> ([PktInfo4 bytes if_index], w1)
                   | (None, w1) \<Rightarrow> ([PktInfo4 bytes 0], w1)))
      else ([], w))"

definition try_wsasendmsg_uso ::
  "'w uso_api \<Rightarrow> byte list \<Rightarrow> nat \<Rightarrow> endpoint \<Rightarrow> ip_address \<Rightarrow> bool \<Rightarrow> u32 \<Rightarrow> bool \<Rightarrow> 'w
     \<Rightarrow> ((bool \<times> int) \<times> 'w) option" where
  "try_wsasendmsg_uso api data mss target source_address include_pktinfo interface_index
       use_completion_routine w =
     (case endpoint_to_sockaddr target of
        None \<Rightarrow> Some ((False, WSAEINVAL), w)
      | Some (dest_storage, dest_len) \<Rightarrow>
          if \<not> next_cmsg 0 then Some ((False, WSAEINVAL), w)
          else
            let (ctl, w1) = pktinfo_control api source_address include_pktinfo interface_index w;
                used = sum_list (map control_size ctl)
            in if ctl \<noteq> [] \<and> \<not> next_cmsg used then Some ((False, WSAEINVAL), w1)
               else
                 let segments = (length data + mss - 1) div mss;
                     (cfg, w2) = (if 1 < segments
                       then configure_udp_send_segment_size api (of_nat mss) w1 else (None, w1))
                 in case cfg of
                      Some cfg_error \<Rightarrow> Some ((False, cfg_error), w2)
                    | None \<Rightarrow>
                        let ctl' = (if 1 < segments then ctl @ [UdpSendMsgSize (of_nat mss)] else ctl);
                            msg = \<lparr>msg_name = dest_storage, msg_namelen = dest_len, msg_buffer = data,
                                   msg_control = ctl', msg_control_len = sum_list (map control_size ctl')\<rparr>
                        in map_option (\<lambda>((ok, bytes_sent, wsa_error), w3).
                             ((ok \<and> bytes_sent = of_nat (length data), wsa_error), w3))
                           (invoke_wsasendmsg api msg use_completion_routine w2))"

subsection \<open>Sending a batch\<close>

definition plain_result :: "'w uso_api \<Rightarrow> byte list \<Rightarrow> endpoint \<Rightarrow> 'w \<Rightarrow> uso_send_result \<times> 'w" where
  "plain_result api data target w =
     (case send_plain_datagram api data target w of
        (Some e, w1) \<Rightarrow> (init_send_result\<lparr>send_error := Some e\<rparr>, w1)
      | (None, w1) \<Rightarrow>
          (init_send_result\<lparr>send_success := True, segments_sent := 1, total_bytes := length data,
             send_path := PathPlain\<rparr>, w1))"

text \<open>
  One attempt of the chain in \<open>send_buffer_uso\<close>: skipped when its guard fails, the result when it
  succeeds, otherwise the error code is kept and the next attempt is made.
\<close>

definition attempt ::
  "bool \<Rightarrow> ('w \<Rightarrow> ((bool \<times> int) \<times> 'w) option) \<Rightarrow> uso_send_result \<Rightarrow>
     (int \<Rightarrow> 'w \<Rightarrow> (uso_send_result \<times> 'w) option) \<Rightarrow> int \<Rightarrow> 'w \<Rightarrow> (uso_send_result \<times> 'w) option" where
  "attempt guard send sent next_try wsa_error w =
     (if \<not> guard then next_try wsa_error w
      else case send w of
        None \<Rightarrow> None
      | Some ((True, _), w1) \<Rightarrow> Some (sent, w1)
      | Some ((False, err), w1) \<Rightarrow> next_try err w1)"

definition send_buffer_uso ::
  "'w uso_api \<Rightarrow> byte list \<Rightarrow> nat \<Rightarrow> endpoint \<Rightarrow> ip_address \<Rightarrow> u32 \<Rightarrow> bool \<Rightarrow> bool \<Rightarrow> 'w
     \<Rightarrow> (uso_send_result \<times> 'w) option" where
  "send_buffer_uso api data mss target source_address if_index no_pktinfo use_completion_routine w =
     (let total_size = length data; result = init_send_result in
      if total_size = 0 then Some (result\<lparr>send_error := Some EmptyBatchBuffer\<rparr>, w)
      else if kUsoMaxBytesPerBatch < total_size then Some (result\<lparr>send_error := Some BatchExceedsMax\<rparr>, w)
      else if mss = 0 \<or> total_size < mss then Some (plain_result api data target w)
      else if kUsoMaxSegmentSize < mss then Some (result\<lparr>send_error := Some InvalidMss\<rparr>, w)
      else
        let segments = (total_size + mss - 1) div mss in
        if segments = 1 then Some (plain_result api data target w)
        else if \<not> api_sendmsg_available api then Some (result\<lparr>send_error := Some SendMsgUnavailable\<rparr>, w)
        else
          let specific_bind = (\<not> source_address_is_unspecified source_address);
              try = (\<lambda>include_pktinfo. try_wsasendmsg_uso api data mss target source_address
                      include_pktinfo if_index use_completion_routine);
              sent = (\<lambda>path. result\<lparr>send_success := True, segments_sent := segments,
                        total_bytes := total_size, send_path := path\<rparr>);
              failed = (\<lambda>err w'. Some (result\<lparr>send_error := Some (WsaSendMsgFailed err)\<rparr>, w'))
          in if no_pktinfo then attempt True (try False) (sent PathBindOnly) failed 0 w
             else attempt (if_index \<noteq> 0 \<and> specific_bind) (try True) (sent PathPktinfoIfindex)
                    (attempt True (try False) (sent PathBindOnly)
                      (attempt specific_bind (try True) (sent PathPktinfoIfindex) failed)) 0 w)"

text \<open>The definition for other platforms.\<close>

definition send_buffer_uso_other :: uso_send_result where
  "send_buffer_uso_other = init_send_result\<lparr>send_error := Some UsoNotImplemented\<rparr>"

subsection \<open>The socket\<close>

text \<open>The static variables of \<open>ensure_winsock_initialized\<close> are a record passed along.\<close>

record winsock =
  ws_initialized :: bool
  ws_ok :: bool

datatype 'e socket_error =
    WsaStartupFailed
  | WsaSocketFailed int
  | ReuseAddrFailed int
  | SndBufFailed int
  | BindAddressInvalid 'e
  | NotIpv4
  | BindFailed int
  | GetSockNameFailed int

definition ensure_winsock_initialized ::
  "'w uso_api \<Rightarrow> winsock \<Rightarrow> 'w \<Rightarrow> (bool \<times> winsock) \<times> 'w" where
  "ensure_winsock_initialized api ws w =
     (let (ws1, w1) =
        (if \<not> ws_initialized ws
         then (let (ok, w1) = api_startup api w in (ws\<lparr>ws_initialized := True, ws_ok := ok\<rparr>, w1))
         else (ws, w))
      in ((ws_ok ws1, ws1), w1))"

text \<open>
  \<open>create_uso_udp_socket\<close>. An address that cannot be parsed throws out of the function before the
  socket is closed. The error numbers of the two socket options are read after \<open>closesocket\<close>, which
  is taken not to change them.
\<close>

definition create_uso_udp_socket ::
  "'w uso_api \<Rightarrow> (string \<Rightarrow> 'e + ip_address) \<Rightarrow> string \<Rightarrow> winsock \<Rightarrow> 'w
     \<Rightarrow> (('e socket_error + nat) \<times> winsock) \<times> 'w" where
  "create_uso_udp_socket api make_address bind_address ws w =
     (case ensure_winsock_initialized api ws w of ((ok, ws1), w1) \<Rightarrow>
        if \<not> ok then ((Inl WsaStartupFailed, ws1), w1)
        else case api_socket api w1 of
          (Inl err, w2) \<Rightarrow> ((Inl (WsaSocketFailed err), ws1), w2)
        | (Inr sock, w2) \<Rightarrow>
            (case api_set_reuseaddr api sock w2 of
               (Some err, w3) \<Rightarrow> ((Inl (ReuseAddrFailed err), ws1), api_closesocket api sock w3)
             | (None, w3) \<Rightarrow>
                 (case api_set_sndbuf api sock w3 of
                    (Some err, w4) \<Rightarrow> ((Inl (SndBufFailed err), ws1), api_closesocket api sock w4)
                  | (None, w4) \<Rightarrow>
                      (case parse_address make_address bind_address of
                         Inl e \<Rightarrow> ((Inl (BindAddressInvalid e), ws1), w4)
                       | Inr (V6 _ _) \<Rightarrow> ((Inl NotIpv4, ws1), api_closesocket api sock w4)
                       | Inr (V4 bytes) \<Rightarrow>
                           (case api_bind api sock (SaIn 0 bytes) w4 of
                              (Some err, w5) \<Rightarrow> ((Inl (BindFailed err), ws1), api_closesocket api sock w5)
                            | (None, w5) \<Rightarrow> ((Inr sock, ws1), w5))))))"

definition close_uso_udp_socket :: "'w uso_api \<Rightarrow> nat \<Rightarrow> 'w \<Rightarrow> 'w" where
  "close_uso_udp_socket api sock w = api_closesocket api sock w"

text \<open>\<open>getsockname\<close> fills a \<open>sockaddr_in\<close>: its port in network order and its address.\<close>

definition uso_socket_local_endpoint ::
  "'w uso_api \<Rightarrow> nat \<Rightarrow> 'w \<Rightarrow> ('e socket_error + endpoint) \<times> 'w" where
  "uso_socket_local_endpoint api sock w =
     (case api_getsockname api sock w of
        (Inl err, w1) \<Rightarrow> (Inl (GetSockNameFailed err), w1)
      | (Inr (port, bytes), w1) \<Rightarrow> (Inr \<lparr>ep_address = V4 bytes, ep_port = ntohs port\<rparr>, w1))"

subsection \<open>Choosing the bind address\<close>

record uso_bind_info =
  info_bind_address :: string
  info_interface_index :: u32
  info_auto_selected :: bool

definition resolve_uso_bind_address ::
  "'w uso_api \<Rightarrow> (string \<Rightarrow> 'e + ip_address) \<Rightarrow> (byte list \<Rightarrow> string) \<Rightarrow> string \<Rightarrow> endpoint \<Rightarrow> 'w
     \<Rightarrow> ('e + uso_bind_info) \<times> 'w" where
  "resolve_uso_bind_address api make_address to_string source_option destination w =
     (let info = \<lparr>info_bind_address = source_option, info_interface_index = 0, info_auto_selected = False\<rparr> in
      if \<not> bind_option_is_wildcard source_option then
        (case parse_address make_address source_option of
           Inl e \<Rightarrow> (Inl e, w)
         | Inr addr \<Rightarrow>
             (let (index, w1) =
                (case addr of
                   V4 bytes \<Rightarrow>
                     (case ipv4_interface_index api bytes w of
                        (Some i, w1) \<Rightarrow> (i, w1) | (None, w1) \<Rightarrow> (0, w1))
                 | V6 _ _ \<Rightarrow> (0, w));
                  (index', w2) =
                (if index = 0 \<and> is_v4 (ep_address destination) then
                   (case ipv4_egress_for_destination api destination w1 of
                      (Some (_, i), w2) \<Rightarrow> (i, w2) | (None, w2) \<Rightarrow> (index, w2))
                 else (index, w1))
              in (Inr (info\<lparr>info_interface_index := index'\<rparr>), w2)))
      else
        (case ipv4_egress_for_destination api destination w of
           (None, w1) \<Rightarrow> (Inr info, w1)
         | (Some (egress, if_index), w1) \<Rightarrow>
             (Inr (info\<lparr>info_bind_address := to_string egress, info_interface_index := if_index,
                info_auto_selected := True\<rparr>), w1)))"

end
