(* ===== verification/Client.thy ===== *)
theory Client
  imports Uso_Send
begin

section \<open>The client (client.cpp)\<close>

text \<open>
  \<open>run_client\<close> on both platforms, with the functions that send one batch. The socket's \<open>send_to\<close> is
  a parameter on the state \<open>'w\<close> of the network, as is the Winsock interface of \<open>Uso_Send\<close>; the
  random source is that of \<open>build_batch\<close>. A send that does not return is \<open>None\<close>. Of the output the
  lines about batches are kept.
\<close>

datatype 'e client_error =
    BadAddress 'e
  | NetError error_code
  | ShortSend
  | BuildFailed build_error
  | SendFailed send_error
  | ClientSocketError "'e socket_error"

datatype client_line =
    LineBatch nat
  | LinePlain nat
  | LineUso nat nat nat
  | LineSent nat nat nat
  | LineSummary nat nat

subsection \<open>Sending one batch\<close>

text \<open>
  The loop of \<open>send_batch_fallback\<close>; \<open>rest\<close> is the batch from \<open>offset\<close> on. The loop is only entered
  with a positive segment size.
\<close>

function send_chunks ::
  "(byte list \<Rightarrow> 'w \<Rightarrow> (error_code + nat) \<times> 'w) \<Rightarrow> nat \<Rightarrow> byte list \<Rightarrow> nat \<Rightarrow> 'w
     \<Rightarrow> ('e client_error + nat) \<times> 'w" where
  "send_chunks send_to mss rest segments w =
     (if rest = [] \<or> mss = 0 then (Inr segments, w)
      else
        let chunk = min mss (length rest) in
        case send_to (take chunk rest) w of
          (Inl ec, w1) \<Rightarrow> (Inl (NetError ec), w1)
        | (Inr sent, w1) \<Rightarrow>
            if sent \<noteq> chunk then (Inl ShortSend, w1)
            else send_chunks send_to mss (drop chunk rest) (segments + 1) w1)"
  by pat_completeness auto
termination
  by (relation "measure (\<lambda>(send_to, mss, rest, segments, w). length rest)") auto

declare send_chunks.simps [simp del]

definition send_batch_fallback ::
  "(byte list \<Rightarrow> 'w \<Rightarrow> (error_code + nat) \<times> 'w) \<Rightarrow> nat \<Rightarrow> byte list \<Rightarrow> 'w
     \<Rightarrow> (('e client_error + client_line) \<times> 'w) option" where
  "send_batch_fallback send_to mss data w =
     (if mss = 0 then
        (case send_to data w of
           (Inl ec, w1) \<Rightarrow> Some (Inl (NetError ec), w1)
         | (Inr sent, w1) \<Rightarrow>
             if sent \<noteq> length data then Some (Inl ShortSend, w1)
             else Some (Inr (LinePlain (length data)), w1))
      else
        (case send_chunks send_to mss data 0 w of
           (Inl e, w1) \<Rightarrow> Some (Inl e, w1)
         | (Inr segments, w1) \<Rightarrow> Some (Inr (LineSent (length data) segments mss), w1)))"

definition send_batch_windows ::
  "'w uso_api \<Rightarrow> endpoint \<Rightarrow> ip_address \<Rightarrow> u32 \<Rightarrow> bool \<Rightarrow> bool \<Rightarrow> nat \<Rightarrow> byte list \<Rightarrow> 'w
     \<Rightarrow> (('e client_error + client_line) \<times> 'w) option" where
  "send_batch_windows api remote source_address interface_index no_pktinfo completion_routine mss data w =
     map_option (\<lambda>(result, w1).
         (if \<not> send_success result
          then Inl (SendFailed (case send_error result of Some e \<Rightarrow> e | None \<Rightarrow> WsaSendMsgFailed 0))
          else if mss = 0 \<or> length data < mss then Inr (LinePlain (total_bytes result))
          else Inr (LineUso (total_bytes result) (segments_sent result) mss), w1))
       (send_buffer_uso api data mss remote source_address interface_index no_pktinfo completion_routine w)"

subsection \<open>The loop over batches\<close>

text \<open>
  \<open>for (i = 0; i < batchCount; ++i)\<close>, with \<open>k\<close> batches left: the batch is built in the same buffer
  and sent; a throw leaves the loop. The casts to \<open>uint32_t\<close> are those of the call of
  \<open>build_batch\<close>.
\<close>

fun client_batches ::
  "(byte list \<Rightarrow> 'w \<Rightarrow> (('e client_error + client_line) \<times> 'w) option) \<Rightarrow> ('g \<Rightarrow> int \<times> 'g) \<Rightarrow> nat
     \<Rightarrow> nat \<Rightarrow> nat \<Rightarrow> byte list \<Rightarrow> 'g \<Rightarrow> client_line list \<Rightarrow> 'w
     \<Rightarrow> (('e client_error + client_line list) \<times> 'w) option" where
  "client_batches send byte_dist count 0 i batch rng lines w = Some (Inr lines, w)"
| "client_batches send byte_dist count (Suc k) i batch rng lines w =
     (case build_batch byte_dist batch (of_nat i) (of_nat count) rng of
        Inl e \<Rightarrow> Some (Inl (BuildFailed e), w)
      | Inr (b, rng') \<Rightarrow>
          (case send b w of
             None \<Rightarrow> None
           | Some (Inl e, w1) \<Rightarrow> Some (Inl e, w1)
           | Some (Inr line, w1) \<Rightarrow>
               client_batches send byte_dist count k (i + 1) b rng' (lines @ [LineBatch i, line]) w1))"

definition client_run ::
  "(byte list \<Rightarrow> 'w \<Rightarrow> (('e client_error + client_line) \<times> 'w) option) \<Rightarrow> ('g \<Rightarrow> int \<times> 'g) \<Rightarrow> client_options
     \<Rightarrow> 'g \<Rightarrow> 'w \<Rightarrow> (('e client_error + client_line list) \<times> 'w) option" where
  "client_run send byte_dist options rng w =
     map_option (\<lambda>(r, w1).
         (case r of
            Inl e \<Rightarrow> Inl e
          | Inr lines \<Rightarrow>
              Inr (lines @ [LineSummary (opt_send_count options)
                (opt_batch_size options * opt_send_count options mod 2 ^ 64)]), w1))
       (client_batches send byte_dist (opt_send_count options) (opt_send_count options) 0
          (replicate (opt_batch_size options) 0) rng [] w)"

text \<open>\<open>run_client\<close> on Linux; \<open>socket_fails\<close> is what opening or binding the socket throws.\<close>

definition run_client_linux ::
  "(string \<Rightarrow> 'e + ip_address) \<Rightarrow> error_code option \<Rightarrow> (endpoint \<Rightarrow> byte list \<Rightarrow> 'w \<Rightarrow> (error_code + nat) \<times> 'w)
     \<Rightarrow> ('g \<Rightarrow> int \<times> 'g) \<Rightarrow> client_options \<Rightarrow> 'g \<Rightarrow> 'w \<Rightarrow> (('e client_error + client_line list) \<times> 'w) option" where
  "run_client_linux make_address socket_fails send_to byte_dist options rng w =
     (case parse_address make_address (opt_dest_address options) of
        Inl e \<Rightarrow> Some (Inl (BadAddress e), w)
      | Inr dest \<Rightarrow>
          let remote = \<lparr>ep_address = dest, ep_port = opt_dest_port options\<rparr> in
          case parse_address make_address (opt_source_address options) of
            Inl e \<Rightarrow> Some (Inl (BadAddress e), w)
          | Inr source \<Rightarrow>
              (case socket_fails of
                 Some ec \<Rightarrow> Some (Inl (NetError ec), w)
               | None \<Rightarrow> client_run (send_batch_fallback (send_to remote) (opt_mss options)) byte_dist options rng w))"

text \<open>
  \<open>run_client\<close> on Windows. The socket is closed when all batches are sent; an exception leaves it to
  the end of the process.
\<close>

definition run_client_windows ::
  "'w uso_api \<Rightarrow> (string \<Rightarrow> 'e + ip_address) \<Rightarrow> (byte list \<Rightarrow> string) \<Rightarrow> ('g \<Rightarrow> int \<times> 'g) \<Rightarrow> client_options
     \<Rightarrow> winsock \<Rightarrow> 'g \<Rightarrow> 'w \<Rightarrow> (('e client_error + client_line list) \<times> 'w) option" where
  "run_client_windows api make_address to_string byte_dist options ws rng w =
     (case parse_address make_address (opt_dest_address options) of
        Inl e \<Rightarrow> Some (Inl (BadAddress e), w)
      | Inr dest \<Rightarrow>
          let remote = \<lparr>ep_address = dest, ep_port = opt_dest_port options\<rparr> in
          case resolve_uso_bind_address api make_address to_string (opt_source_address options) remote w of
            (Inl e, w1) \<Rightarrow> Some (Inl (BadAddress e), w1)
          | (Inr info, w1) \<Rightarrow>
              (case create_uso_udp_socket api make_address (info_bind_address info) ws w1 of
                 ((Inl e, _), w2) \<Rightarrow> Some (Inl (ClientSocketError e), w2)
               | ((Inr sock, _), w2) \<Rightarrow>
                   (case uso_socket_local_endpoint api sock w2 of
                      (Inl e, w3) \<Rightarrow> Some (Inl (ClientSocketError e), w3)
                    | (Inr bound, w3) \<Rightarrow>
                        map_option (\<lambda>(r, w4).
                            (r, case r of Inl _ \<Rightarrow> w4 | Inr _ \<Rightarrow> close_uso_udp_socket api sock w4))
                          (client_run (send_batch_windows api remote (ep_address bound)
                              (info_interface_index info) (opt_no_pktinfo options)
                              (opt_completion_routine options) (opt_mss options))
                            byte_dist options rng w3))))"

subsection \<open>The program\<close>

text \<open>\<open>main\<close>: every exception is reported and makes the exit status 1; help is status 0.\<close>

definition client_main ::
  "(string list \<Rightarrow> cli_error + client_options option) \<Rightarrow>
     (client_options \<Rightarrow> 'w \<Rightarrow> (('e client_error + client_line list) \<times> 'w) option) \<Rightarrow> string list \<Rightarrow> 'w
     \<Rightarrow> (nat \<times> 'w) option" where
  "client_main parse run args w =
     (case parse args of
        Inl _ \<Rightarrow> Some (1, w)
      | Inr None \<Rightarrow> Some (0, w)
      | Inr (Some options) \<Rightarrow>
          map_option (\<lambda>(r, w'). (case r of Inl _ \<Rightarrow> 1 | Inr _ \<Rightarrow> 0, w')) (run options w))"

end
