(* ===== verification/Client_Correct.thy ===== *)
theory Client_Correct
  imports Client Packet
begin

section \<open>What the client puts on the network\<close>

text \<open>
  The specification of a send is the list of datagrams that leave the machine: \<open>chunks mss b\<close> for a
  batch \<open>b\<close>, on both platforms. To speak of it, a send primitive is wrapped so that the state of the
  network carries a log. A way to send one batch is a \<open>batch_sender\<close> when its successful sends append
  the chunks of the batch to the log; the loop over batches is treated once, in that locale, and the
  locale is interpreted on \<open>send_batch_fallback\<close> here.
\<close>

subsection \<open>Cutting a batch\<close>

function chunks :: "nat \<Rightarrow> 'a list \<Rightarrow> 'a list list" where
  "chunks mss xs =
     (if mss = 0 then [xs] else if xs = [] then [] else take mss xs # chunks mss (drop mss xs))"
  by pat_completeness auto
termination by (relation "measure (length \<circ> snd)") auto

declare chunks.simps [simp del]

lemma chunks_simps [simp]: "chunks 0 xs = [xs]" "0 < mss \<Longrightarrow> chunks mss [] = []"
  by (subst chunks.simps, simp)+

lemma chunks_more: "0 < mss \<Longrightarrow> xs \<noteq> [] \<Longrightarrow> chunks mss xs = take mss xs # chunks mss (drop mss xs)"
  by (subst chunks.simps) simp

lemma concat_chunks [simp]: "concat (chunks mss xs) = xs"
proof (induction mss xs rule: chunks.induct)
  case (1 mss xs)
  then show ?case by (cases "mss = 0"; cases "xs = []") (simp_all add: chunks_more [of mss xs])
qed

lemma chunks_single: "xs \<noteq> [] \<Longrightarrow> length xs \<le> mss \<Longrightarrow> chunks mss xs = [xs]"
  by (cases "mss = 0") (simp_all add: chunks_more [of mss xs])

lemma chunks_bound: "0 < mss \<Longrightarrow> d \<in> set (chunks mss xs) \<Longrightarrow> d \<noteq> [] \<and> length d \<le> mss"
proof (induction mss xs rule: chunks.induct)
  case (1 mss xs)
  then show ?case by (cases "xs = []") (auto simp: chunks_more [of mss xs])
qed

lemma chunks_Nil_iff: "chunks mss xs = [] \<longleftrightarrow> mss \<noteq> 0 \<and> xs = []"
  by (cases "mss = 0"; cases "xs = []") (simp_all add: chunks_more [of mss xs])

lemma chunks_full: "0 < mss \<Longrightarrow> d \<in> set (butlast (chunks mss xs)) \<Longrightarrow> length d = mss"
proof (induction mss xs rule: chunks.induct)
  case (1 mss xs)
  show ?case
  proof (cases "drop mss xs = []")
    case True
    then show ?thesis using 1 by (cases "xs = []") (simp_all add: chunks_more [of mss xs])
  next
    case False
    then have "xs \<noteq> []" by auto
    with False 1 show ?thesis by (auto simp: chunks_more [of mss xs] chunks_Nil_iff split: if_splits)
  qed
qed

lemma length_chunks: "0 < mss \<Longrightarrow> length (chunks mss xs) = (length xs + mss - 1) div mss"
proof (induction mss xs rule: chunks.induct)
  case (1 mss xs)
  show ?case
  proof (cases "xs = []")
    case True
    then show ?thesis using 1 by simp
  next
    case False
    then have l: "length (chunks mss xs) = Suc ((length xs - mss + mss - 1) div mss)"
      using 1 by (simp add: chunks_more [of mss xs])
    show ?thesis
    proof (cases "mss \<le> length xs")
      case True
      then have "length xs + mss - 1 = (length xs - mss + mss - 1) + mss" using \<open>0 < mss\<close> by simp
      then show ?thesis using l \<open>0 < mss\<close> by (simp only: div_add_self2)
    next
      case c: False
      have "(mss - 1) div mss = 0" using \<open>0 < mss\<close> by simp
      moreover have "length xs + mss - 1 = (length xs - 1) + mss" using False by (cases xs) simp_all
      moreover have "(length xs - 1) div mss = 0" using c by simp
      moreover have "length xs - mss + mss - 1 = mss - 1" using c by simp
      ultimately show ?thesis using l \<open>0 < mss\<close> by (simp only: div_add_self2)
    qed
  qed
qed

subsection \<open>A network that keeps a log\<close>

definition logged ::
  "(byte list \<Rightarrow> 'w \<Rightarrow> 'r \<times> 'w) \<Rightarrow> byte list \<Rightarrow> 'w \<times> byte list list \<Rightarrow> 'r \<times> 'w \<times> byte list list" where
  "logged send_to d = (\<lambda>(w, log). let (r, w') = send_to d w in (r, w', log @ [d]))"

lemma send_chunks_logged:
  assumes "0 < mss"
  shows "case (send_chunks (logged send_to) mss rest k (w, log) :: ('e client_error + nat) \<times> _) of
      (Inr n, w', log') \<Rightarrow> log' = log @ chunks mss rest \<and> n = k + length (chunks mss rest)
    | (Inl e, w', log') \<Rightarrow> \<exists>j < length (chunks mss rest). log' = log @ take (Suc j) (chunks mss rest)"
  using assms
proof (induction mss rest arbitrary: k w log rule: chunks.induct)
  case (1 mss rest)
  show ?case
  proof (cases "rest = []")
    case True
    then show ?thesis using 1 by (simp add: send_chunks.simps)
  next
    case False
    obtain r w1 where s: "send_to (take mss rest) w = (r, w1)" by fastforce
    have t: "take (min mss (length rest)) rest = take mss rest"
      "drop (min mss (length rest)) rest = drop mss rest" by (simp_all add: min_def)
    let ?log = "log @ [take mss rest]"
    have l: "logged send_to (take (min mss (length rest)) rest) (w, log) = (r, w1, ?log)"
      using s by (simp add: logged_def t(1))
    have c: "chunks mss rest = take mss rest # chunks mss (drop mss rest)" using False 1 by (simp add: chunks_more [of mss rest])
    have stop: "\<exists>j < length (chunks mss rest). ?log = log @ take (Suc j) (chunks mss rest)"
      by (intro exI [of _ 0]) (simp add: c)
    have nz: "mss \<noteq> 0" using 1 by simp
    obtain r' w' log' where go: "send_chunks (logged send_to) mss (drop mss rest) (Suc k) (w1, ?log) =
        (r' :: 'e client_error + nat, w', log')"
      by (metis surj_pair)
    note IH = "1.IH" [OF nz False "1.prems", where k = "Suc k" and w = w1 and log = ?log,
      unfolded go prod.case]
    have more: "case (r', w', log') of
        (Inr n, w', log') \<Rightarrow> log' = log @ chunks mss rest \<and> n = k + length (chunks mss rest)
      | (Inl e, w', log') \<Rightarrow> \<exists>j < length (chunks mss rest). log' = log @ take (Suc j) (chunks mss rest)"
    proof (cases r')
      case (Inl e)
      then obtain j where "j < length (chunks mss (drop mss rest))"
        "log' = ?log @ take (Suc j) (chunks mss (drop mss rest))" using IH by auto
      then show ?thesis using Inl by (auto simp: c intro: exI [of _ "Suc j"])
    next
      case (Inr n)
      then show ?thesis using IH by (simp add: c)
    qed
    have "send_chunks (logged send_to) mss rest k (w, log) =
        (case r of Inl ec \<Rightarrow> (Inl (NetError ec), w1, ?log)
         | Inr sent \<Rightarrow> if sent \<noteq> min mss (length rest) then (Inl ShortSend, w1, ?log) else (r', w', log'))"
      using False 1 go
      by (subst send_chunks.simps) (simp add: l Let_def t(2) del: take_all drop_all split: sum.split)
    then show ?thesis using stop more by (auto split: sum.splits)
  qed
qed

subsection \<open>The loop over batches, for any way to send one\<close>

text \<open>The sizes the command line accepts are those a batch can have.\<close>

definition batch_size_ok :: "nat \<Rightarrow> bool" where
  "batch_size_ok n \<longleftrightarrow> kPacketHeaderSize \<le> n \<and> n \<le> kMaxPacketLength"

text \<open>Batch \<open>i\<close> of a session of \<open>count\<close> batches of \<open>n\<close> bytes.\<close>

definition session_batch :: "nat \<Rightarrow> nat \<Rightarrow> nat \<Rightarrow> byte list \<Rightarrow> bool" where
  "session_batch n count i b \<longleftrightarrow> length b = n \<and> validate_batch b = Valid \<and>
     hdr_seq (read_header b) = of_nat i \<and> hdr_batch_total (read_header b) = of_nat count"

lemma build_batch_step:
  assumes "batch_size_ok (length batch)"
    and "build_batch byte_dist batch (of_nat i) (of_nat count) rng = Inr (b, rng')"
  shows "session_batch (length batch) count i b \<and> (of_nat i :: u32) < of_nat count"
proof -
  have lt: "(of_nat i :: u32) < of_nat count"
    using assms(2) by (auto simp: build_batch_def split: if_splits)
  show ?thesis
    by (rule build_batch_ok [OF assms(1) [unfolded batch_size_ok_def, THEN conjunct1]
          assms(1) [unfolded batch_size_ok_def, THEN conjunct2] lt, of byte_dist rng])
      (use lt assms(2) in \<open>simp add: session_batch_def\<close>)
qed

text \<open>The batches of the loop, in their order; \<open>None\<close> when one of them cannot be built.\<close>

fun built_batches ::
  "('g \<Rightarrow> int \<times> 'g) \<Rightarrow> nat \<Rightarrow> nat \<Rightarrow> nat \<Rightarrow> byte list \<Rightarrow> 'g \<Rightarrow> byte list list option" where
  "built_batches byte_dist count 0 i batch rng = Some []"
| "built_batches byte_dist count (Suc k) i batch rng =
     (case build_batch byte_dist batch (of_nat i) (of_nat count) rng of
        Inl e \<Rightarrow> None
      | Inr (b, rng') \<Rightarrow> map_option ((#) b) (built_batches byte_dist count k (i + 1) b rng'))"

lemma built_batches_ok:
  assumes "built_batches byte_dist count k i batch rng = Some bs" and "batch_size_ok (length batch)"
  shows "list_all2 (session_batch (length batch) count) [i ..< i + k] bs \<and>
    (\<forall>j \<in> {i ..< i + k}. (of_nat j :: u32) < of_nat count)"
  using assms
proof (induction k arbitrary: i batch rng bs)
  case 0
  then show ?case by simp
next
  case (Suc k)
  obtain b rng' bs' where b: "build_batch byte_dist batch (of_nat i) (of_nat count) rng = Inr (b, rng')"
    and bs: "built_batches byte_dist count k (i + 1) b rng' = Some bs'" "bs = b # bs'"
    using Suc.prems(1) by (auto split: sum.splits)
  note ok = build_batch_step [OF Suc.prems(2) b]
  then have len: "length b = length batch" by (simp add: session_batch_def)
  note IH = Suc.IH [OF bs(1), unfolded len, OF Suc.prems(2)]
  have u: "[i ..< i + Suc k] = i # [i + 1 ..< i + 1 + k]" by (simp add: upt_conv_Cons)
  have "j = i \<or> j \<in> {i + 1 ..< i + 1 + k}" if "j \<in> {i ..< i + Suc k}" for j using that by auto
  then have "\<forall>j \<in> {i ..< i + Suc k}. (of_nat j :: u32) < of_nat count" using IH ok by blast
  moreover have "list_all2 (session_batch (length batch) count) [i ..< i + Suc k] bs"
    using IH ok u bs(2) by simp
  ultimately show ?case by blast
qed

text \<open>No session of \<open>2 ^ 32\<close> batches or more can be built to its end.\<close>

lemma built_batches_count:
  assumes "built_batches byte_dist count count 0 batch rng = Some bs" and "batch_size_ok (length batch)"
  shows "count < 2 ^ 32"
proof (rule ccontr)
  let ?m = "count mod 2 ^ 32"
  assume "\<not> count < 2 ^ 32"
  then have "?m < count" by (simp add: less_le_trans [OF mod_less_divisor])
  then have "(of_nat ?m :: u32) < of_nat count" using built_batches_ok [OF assms] by simp
  moreover have "(of_nat ?m :: u32) = of_nat count"
    by (rule word_unat_eq_iff [THEN iffD2]) (simp add: unsigned_of_nat take_bit_eq_mod)
  ultimately show False by simp
qed

lemma client_batches_built:
  assumes "client_batches send byte_dist count k i batch rng lines w = Some (Inr lines', w')"
  shows "built_batches byte_dist count k i batch rng \<noteq> None"
  using assms
  by (induction k arbitrary: i batch rng lines w) (auto split: sum.splits option.splits)

lemma client_run_batches:
  assumes "client_run send byte_dist options rng w = Some (Inr lines, w')"
  shows "\<exists>lines'. client_batches send byte_dist (opt_send_count options) (opt_send_count options) 0
    (replicate (opt_batch_size options) 0) rng [] w = Some (Inr lines', w')"
proof -
  let ?go = "client_batches send byte_dist (opt_send_count options) (opt_send_count options) 0
    (replicate (opt_batch_size options) 0) rng [] w"
  obtain r w1 where go: "?go = Some (r, w1)" using assms by (auto simp: client_run_def)
  show ?thesis
  proof (cases r)
    case (Inl e)
    then show ?thesis using assms go by (simp add: client_run_def)
  next
    case (Inr lines')
    then show ?thesis using assms go by (simp add: client_run_def)
  qed
qed

locale batch_sender =
  fixes send :: "byte list \<Rightarrow> 'w \<Rightarrow> (('e client_error + client_line) \<times> 'w) option"
    and log :: "'w \<Rightarrow> byte list list"
    and mss :: nat
  assumes sent: "send b w = Some (Inr line, w') \<Longrightarrow> b \<noteq> [] \<Longrightarrow> log w' = log w @ chunks mss b"
begin

lemma batches_sent:
  assumes "client_batches send byte_dist count k i batch rng lines w = Some (Inr lines', w')"
    and "batch_size_ok (length batch)"
  shows "\<exists>bs. built_batches byte_dist count k i batch rng = Some bs \<and>
    log w' = log w @ concat (map (chunks mss) bs)"
  using assms
proof (induction k arbitrary: i batch rng lines w)
  case 0
  then show ?case by simp
next
  case (Suc k)
  obtain b rng' line w1 where b: "build_batch byte_dist batch (of_nat i) (of_nat count) rng = Inr (b, rng')"
    and s: "send b w = Some (Inr line, w1)"
    and go: "client_batches send byte_dist count k (i + 1) b rng' (lines @ [LineBatch i, line]) w1 = Some (Inr lines', w')"
    using Suc.prems(1) by (auto split: sum.splits option.splits)
  have len: "length b = length batch"
    using build_batch_step [OF Suc.prems(2) b] by (simp add: session_batch_def)
  then have "b \<noteq> []" using Suc.prems(2) by (auto simp: batch_size_ok_def packet_consts)
  from sent [OF s this] Suc.IH [OF go] len Suc.prems(2) b show ?case by auto
qed

lemma run_sent:
  assumes "client_run send byte_dist options rng w = Some (Inr lines, w')"
    and "batch_size_ok (opt_batch_size options)"
  shows "\<exists>bs. built_batches byte_dist (opt_send_count options) (opt_send_count options) 0
      (replicate (opt_batch_size options) 0) rng = Some bs \<and>
    log w' = log w @ concat (map (chunks mss) bs)"
  using client_run_batches [OF assms(1)] batches_sent assms(2) by fastforce

end

text \<open>
  A sender that never fails on batches of a size finishes every session whose numbers fit the header.
\<close>

locale reliable_sender = batch_sender send log mss
  for send :: "byte list \<Rightarrow> 'w \<Rightarrow> (('e client_error + client_line) \<times> 'w) option" and log and mss +
  fixes size :: nat
  assumes returns: "length b = size \<Longrightarrow> \<exists>line w'. send b w = Some (Inr line, w')"
    and size_ok: "batch_size_ok size"
begin

lemma batches_complete:
  assumes "length batch = size" and "i + k \<le> count" and "count < 2 ^ 32"
  shows "\<exists>lines' w'. client_batches send byte_dist count k i batch rng lines w = Some (Inr lines', w')"
  using assms
proof (induction k arbitrary: i batch rng lines w)
  case 0
  then show ?case by simp
next
  case (Suc k)
  have lt: "(of_nat i :: u32) < of_nat count"
    using Suc.prems(2,3) by (simp add: word_less_nat_alt unat_of_nat_u32)
  obtain b rng' where
    b: "build_batch byte_dist batch (of_nat i) (of_nat count) rng = Inr (b, rng')" "length b = size"
    using build_batch_ok [of batch "of_nat i" "of_nat count" byte_dist rng]
      size_ok [unfolded batch_size_ok_def] lt Suc.prems(1) by metis
  obtain line w1 where s: "send b w = Some (Inr line, w1)" using returns b(2) by blast
  show ?case using Suc.IH [of b "i + 1" rng' "lines @ [LineBatch i, line]" w1] Suc.prems b s by simp
qed

end

subsection \<open>The two interpretations on the fallback\<close>

definition all_sent :: "byte list \<Rightarrow> 'w \<Rightarrow> (error_code + nat) \<times> 'w" where
  "all_sent d w = (Inr (length d), w)"

text \<open>What the fallback tells the network, whether it succeeds or not.\<close>

lemma send_batch_fallback_log:
  "case (send_batch_fallback (logged send_to) mss b (w, log)
      :: (('e client_error + client_line) \<times> _) option) of
    Some (Inr line, w', log') \<Rightarrow> log' = log @ chunks mss b \<and>
      line = (if mss = 0 then LinePlain (length b)
              else LineSent (length b) ((length b + mss - 1) div mss) mss)
  | Some (Inl e, w', log') \<Rightarrow> \<exists>j < length (chunks mss b). log' = log @ take (Suc j) (chunks mss b)
  | None \<Rightarrow> False"
proof (cases "mss = 0")
  case True
  then show ?thesis
    by (auto simp: send_batch_fallback_def logged_def Let_def split: sum.splits prod.splits)
next
  case False
  obtain r w1 log1 where go: "send_chunks (logged send_to) mss b 0 (w, log) = (r :: 'e client_error + nat, w1, log1)"
    by (metis surj_pair)
  have "0 < mss" using False by simp
  from send_chunks_logged [where 'e = 'e and send_to = send_to and rest = b and k = 0 and w = w and log = log,
    OF this, unfolded go] False
  show ?thesis by (cases r) (auto simp: send_batch_fallback_def go length_chunks)
qed

interpretation fallback: batch_sender "send_batch_fallback (logged send_to) mss" snd mss for send_to mss
proof
  fix b w line w'
  assume a: "send_batch_fallback (logged send_to) mss b w = Some (Inr line :: 'c client_error + client_line, w')"
  show "snd w' = snd w @ chunks mss b"
    using send_batch_fallback_log [where 'e = 'c and send_to = send_to and mss = mss and b = b
      and w = "fst w" and log = "snd w"] a by (cases w') simp
qed

lemma logged_all_sent [simp]: "logged all_sent d w = (Inr (length d), fst w, snd w @ [d])"
  by (simp add: logged_def all_sent_def Let_def split: prod.split)

lemma send_chunks_all_sent:
  "\<exists>n w'. send_chunks (logged all_sent) mss rest k w = (Inr n :: 'e client_error + nat, w')"
proof (induction rest arbitrary: k w rule: length_induct)
  case (1 rest)
  show ?case
  proof (cases "rest = [] \<or> mss = 0")
    case True
    then show ?thesis by (simp add: send_chunks.simps)
  next
    case False
    then have "length (drop (min mss (length rest)) rest) < length rest" by simp
    then obtain n w' where "send_chunks (logged all_sent) mss (drop (min mss (length rest)) rest) (k + 1)
        (fst w, snd w @ [take (min mss (length rest)) rest]) = (Inr n :: 'e client_error + nat, w')"
      using 1 by blast
    then show ?thesis using False by (subst send_chunks.simps) (simp add: Let_def)
  qed
qed

lemma send_batch_fallback_all_sent:
  "\<exists>line w'. send_batch_fallback (logged all_sent) mss b w = Some (Inr line :: 'e client_error + client_line, w')"
proof -
  obtain n w' where "send_chunks (logged all_sent) mss b 0 w = (Inr n :: 'e client_error + nat, w')"
    using send_chunks_all_sent by blast
  then show ?thesis by (cases "mss = 0") (auto simp: send_batch_fallback_def)
qed

lemma ideal_fallback:
  "batch_size_ok n \<Longrightarrow> reliable_sender (send_batch_fallback (logged all_sent) mss) snd mss n"
  by unfold_locales (rule send_batch_fallback_all_sent)

interpretation ideal: reliable_sender "send_batch_fallback (logged all_sent) mss" snd mss kMaxPacketLength
  for mss
  by (rule ideal_fallback) (simp add: batch_size_ok_def packet_consts)

end
