(* ===== verification/Uso_Send_Correct.thy ===== *)
theory Uso_Send_Correct
  imports Client_Correct
begin

section \<open>What the Windows send path puts on the network\<close>

text \<open>
  The Winsock interface is wrapped as the network was for the fallback: the state carries a log of
  every send with the datagrams it asks for and whether it reported all their bytes, at once or when
  its completion routine ran. A message with a segment size asks for the segments of its buffer (the
  documented behaviour of \<open>UDP_SEND_MSG_SIZE\<close>), another for one datagram. The log itself assumes
  nothing about a send that fails or reports fewer bytes; \<open>wire\<close>, the datagrams of the sends that
  reported all their bytes, is what is on the network when such a send puts nothing there.
\<close>

subsection \<open>The wait for a completion\<close>

text \<open>The state after \<open>n\<close> calls of \<open>SleepEx\<close>.\<close>

fun after_sleeps :: "('w \<Rightarrow> 'r \<times> 'w) \<Rightarrow> nat \<Rightarrow> 'w \<Rightarrow> 'w" where
  "after_sleeps sleep 0 w = w"
| "after_sleeps sleep (Suc n) w = after_sleeps sleep n (snd (sleep w))"

text \<open>
  The first completion: already there, or given by the first call of \<open>SleepEx\<close> that runs the
  routine, which leaves the system in the state \<open>w'\<close>.
\<close>

definition first_completion ::
  "('w \<Rightarrow> completion option \<times> 'w) \<Rightarrow> completion option \<Rightarrow> 'w \<Rightarrow> completion \<Rightarrow> 'w \<Rightarrow> bool" where
  "first_completion sleep c w r w' \<longleftrightarrow>
     (case c of
        Some r0 \<Rightarrow> r = r0 \<and> w' = w
      | None \<Rightarrow> \<exists>n. sleep (after_sleeps sleep n w) = (Some r, w') \<and>
          (\<forall>k < n. fst (sleep (after_sleeps sleep k w)) = None))"

lemma first_completion_step:
  "first_completion sleep None w r w' \<longleftrightarrow> first_completion sleep (fst (sleep w)) (snd (sleep w)) r w'"
proof (cases "fst (sleep w)")
  case None
  have ab: "(\<exists>n. sleep (after_sleeps sleep n w) = (Some r, w') \<and> (\<forall>k < n. fst (sleep (after_sleeps sleep k w)) = None)) \<longleftrightarrow>
      (\<exists>n. sleep (after_sleeps sleep (Suc n) w) = (Some r, w') \<and>
        (\<forall>k < Suc n. fst (sleep (after_sleeps sleep k w)) = None))" (is "?A \<longleftrightarrow> ?B")
  proof
    assume ?A
    then obtain n where n: "sleep (after_sleeps sleep n w) = (Some r, w')"
      "\<forall>k < n. fst (sleep (after_sleeps sleep k w)) = None" by blast
    have "n \<noteq> 0"
    proof
      assume "n = 0"
      then show False using n(1) None by simp
    qed
    then obtain m where "n = Suc m" by (cases n) auto
    with n show ?B by blast
  qed blast
  then show ?thesis
    using None by (simp add: first_completion_def ab All_less_Suc2 del: after_sleeps.simps(1), simp)
next
  case (Some r0)
  have "(\<forall>k < n. fst (sleep (after_sleeps sleep k w)) = None) \<longleftrightarrow> n = 0" for n
    using Some by (cases n) force+
  then show ?thesis
    using Some by (cases "sleep w") (auto simp: first_completion_def)
qed

lemma run_routine_sel [simp]:
  "io_completed (run_routine None ctx) = io_completed ctx"
  "io_completed (run_routine (Some r) ctx) = 1" "io_error (run_routine (Some r) ctx) = fst r"
  "io_bytes_transferred (run_routine (Some r) ctx) = snd r"
  by (simp_all add: run_routine_def wsasendmsg_completion_routine_def split: prod.split)

lemma run_routine_None [simp]: "run_routine None ctx = ctx"
  by (simp add: run_routine_def)

lemma init_io_context_sel [simp]: "io_completed init_io_context = 0"
  by (simp add: init_io_context_def)

text \<open>The wait returns exactly when there is a first completion, and with what it stored.\<close>

lemma await_completion_returns:
  assumes "await_completion sleep (run_routine c init_io_context) w = Some (ctx, w')"
  shows "\<exists>r. first_completion sleep c w r w' \<and> ctx = run_routine (Some r) init_io_context"
proof -
  have "\<exists>r. first_completion sleep c w r w' \<and> ctx = run_routine (Some r) init_io_context"
    if "await_completion sleep ctx0 w = Some y" "ctx0 = run_routine c init_io_context" "y = (ctx, w')" for ctx0 y
    using that
  proof (induction arbitrary: c rule: await_completion.raw_induct [rotated, consumes 1, case_names step])
    case (step await sleep ctx0 w y)
    show ?case
    proof (cases c)
      case None
      obtain c1 w1 where s: "sleep w = (c1, w1)" by fastforce
      then have "await sleep (run_routine c1 init_io_context) w1 = Some y"
        using step(2,3) None by simp
      from step(1) [OF this _ step(4)] show ?thesis
        using s None first_completion_step [of sleep w] by auto
    next
      case (Some r)
      then show ?thesis using step(2-4) by (auto simp: first_completion_def)
    qed
  qed
  then show ?thesis using assms by blast
qed

lemma after_sleeps_returns:
  assumes "sleep (after_sleeps sleep n w) = (Some r, w')"
    and "\<forall>k < n. fst (sleep (after_sleeps sleep k w)) = None"
  shows "await_completion sleep init_io_context w = Some (run_routine (Some r) init_io_context, w')"
  using assms
proof (induction n arbitrary: w)
  case 0
  then show ?case
    by (simp add: await_completion.simps [of sleep init_io_context w]
        await_completion.simps [of sleep "run_routine (Some r) init_io_context"])
next
  case (Suc n)
  obtain w1 where s: "sleep w = (None, w1)" using Suc.prems(2) by (cases "sleep w") force
  have "await_completion sleep init_io_context w1 = Some (run_routine (Some r) init_io_context, w')"
  proof (rule Suc.IH)
    show "sleep (after_sleeps sleep n w1) = (Some r, w')" using Suc.prems(1) s by simp
    show "\<forall>k < n. fst (sleep (after_sleeps sleep k w1)) = None"
      using Suc.prems(2) s by (auto dest: spec [of _ "Suc _"])
  qed
  then show ?case by (simp add: await_completion.simps [of sleep init_io_context w] s)
qed

lemma await_completion_first:
  "await_completion sleep (run_routine c init_io_context) w = Some (ctx, w') \<longleftrightarrow>
     (\<exists>r. first_completion sleep c w r w' \<and> ctx = run_routine (Some r) init_io_context)"
proof
  assume "\<exists>r. first_completion sleep c w r w' \<and> ctx = run_routine (Some r) init_io_context"
  then show "await_completion sleep (run_routine c init_io_context) w = Some (ctx, w')"
    using after_sleeps_returns
    by (cases c) (auto simp: first_completion_def await_completion.simps [of sleep "run_routine (Some _) _"])
qed (rule await_completion_returns)

subsection \<open>The recording system\<close>

record 'w recorder =
  sys :: 'w
  sends :: "(byte list list \<times> bool) list"
  in_flight :: "wsamsg option"

definition delivered :: "wsamsg \<Rightarrow> byte list list" where
  "delivered msg =
     (case [n. UdpSendMsgSize n \<leftarrow> msg_control msg] of
        [] \<Rightarrow> [msg_buffer msg]
      | n # _ \<Rightarrow> chunks (unat n) (msg_buffer msg))"

definition logs_send :: "byte list list \<Rightarrow> bool \<Rightarrow> 'w recorder \<Rightarrow> 'w recorder" where
  "logs_send ds whole s = s\<lparr>sends := sends s @ [(ds, whole)]\<rparr>"

definition wire :: "'w recorder \<Rightarrow> byte list list" where
  "wire s = concat (map fst (filter snd (sends s)))"

definition all_bytes :: "u32 \<Rightarrow> wsamsg \<Rightarrow> bool" where
  "all_bytes n msg \<longleftrightarrow> n = of_nat (length (msg_buffer msg))"

text \<open>
  A system inside a larger state: \<open>lift_call\<close> runs a call on it and leaves the rest alone,
  \<open>lift_api\<close> does so for the whole interface.
\<close>

definition lift_call :: "('s \<Rightarrow> 'w) \<Rightarrow> ('w \<Rightarrow> 's \<Rightarrow> 's) \<Rightarrow> ('w \<Rightarrow> 'r \<times> 'w) \<Rightarrow> 's \<Rightarrow> 'r \<times> 's" where
  "lift_call get put f s = (let (r, w') = f (get s) in (r, put w' s))"

definition lift_api :: "('s \<Rightarrow> 'w) \<Rightarrow> ('w \<Rightarrow> 's \<Rightarrow> 's) \<Rightarrow> 'w uso_api \<Rightarrow> 's uso_api" where
  "lift_api get put api =
     \<lparr>api_set_send_size = map_option (\<lambda>f n. lift_call get put (f n)) (api_set_send_size api),
      api_setsockopt_send_size = (\<lambda>n. lift_call get put (api_setsockopt_send_size api n)),
      api_sendmsg_available = api_sendmsg_available api,
      api_wsasendmsg = (\<lambda>msg. lift_call get put (api_wsasendmsg api msg)),
      api_wsasendmsg_overlapped = (\<lambda>msg. lift_call get put (api_wsasendmsg_overlapped api msg)),
      api_sleep_ex = lift_call get put (api_sleep_ex api),
      api_sendto = (\<lambda>d len dest dest_len. lift_call get put (api_sendto api d len dest dest_len)),
      api_startup = lift_call get put (api_startup api),
      api_socket = lift_call get put (api_socket api),
      api_set_reuseaddr = (\<lambda>n. lift_call get put (api_set_reuseaddr api n)),
      api_set_sndbuf = (\<lambda>n. lift_call get put (api_set_sndbuf api n)),
      api_bind = (\<lambda>n a. lift_call get put (api_bind api n a)),
      api_getsockname = (\<lambda>n. lift_call get put (api_getsockname api n)),
      api_closesocket = (\<lambda>n s. put (api_closesocket api n (get s)) s),
      api_best_interface = (\<lambda>a. lift_call get put (api_best_interface api a)),
      api_adapters = (\<lambda>n. lift_call get put (api_adapters api n))\<rparr>"

definition silent :: "('w \<Rightarrow> 'r \<times> 'w) \<Rightarrow> 'w recorder \<Rightarrow> 'r \<times> 'w recorder" where
  "silent = lift_call sys (\<lambda>w s. s\<lparr>sys := w\<rparr>)"

definition recorded :: "'w uso_api \<Rightarrow> 'w recorder uso_api" where
  "recorded api = (lift_api sys (\<lambda>w s. s\<lparr>sys := w\<rparr>) api)
     \<lparr>api_wsasendmsg := (\<lambda>msg s. let (r, s') = silent (api_wsasendmsg api msg) s in
        (r, logs_send (delivered msg) (case r of Inr n \<Rightarrow> all_bytes n msg | Inl _ \<Rightarrow> False) s')),
      api_wsasendmsg_overlapped := (\<lambda>msg s. let ((rc, c), s') = silent (api_wsasendmsg_overlapped api msg) s in
        ((rc, c), case rc of
              StartedOk n \<Rightarrow>
                logs_send (delivered msg) (all_bytes (case c of Some (_, m) \<Rightarrow> m | None \<Rightarrow> n) msg) s'
            | StartError err \<Rightarrow>
                if err \<noteq> WSA_IO_PENDING then logs_send (delivered msg) False s'
                else case c of
                  Some (error, n) \<Rightarrow> logs_send (delivered msg) (error = 0 \<and> all_bytes n msg) s'
                | None \<Rightarrow> s'\<lparr>in_flight := Some msg\<rparr>)),
      api_sleep_ex := (\<lambda>s. let (c, s') = silent (api_sleep_ex api) s in
        (c, case c of
              None \<Rightarrow> s'
            | Some (error, n) \<Rightarrow>
                (case in_flight s' of
                   None \<Rightarrow> s'
                 | Some msg \<Rightarrow> logs_send (delivered msg) (error = 0 \<and> all_bytes n msg) (s'\<lparr>in_flight := None\<rparr>)))),
      api_sendto := (\<lambda>d len dest dest_len s. let (r, s') = silent (api_sendto api d len dest dest_len) s in
        (r, logs_send [d] (r = Inr (int (length d))) s'))\<rparr>"

lemma recorded_sel [simp]:
  "api_set_send_size (recorded api) = map_option (\<lambda>f n. silent (f n)) (api_set_send_size api)"
  "api_setsockopt_send_size (recorded api) n = silent (api_setsockopt_send_size api n)"
  "api_sendmsg_available (recorded api) = api_sendmsg_available api"
  "api_startup (recorded api) = silent (api_startup api)"
  "api_socket (recorded api) = silent (api_socket api)"
  "api_set_reuseaddr (recorded api) k = silent (api_set_reuseaddr api k)"
  "api_set_sndbuf (recorded api) k = silent (api_set_sndbuf api k)"
  "api_bind (recorded api) k a = silent (api_bind api k a)"
  "api_getsockname (recorded api) k = silent (api_getsockname api k)"
  "api_best_interface (recorded api) a = silent (api_best_interface api a)"
  "api_adapters (recorded api) m = silent (api_adapters api m)"
  by (simp_all add: recorded_def lift_api_def silent_def)

lemma fst_silent [simp]: "fst (silent f s) = fst (f (sys s))"
  by (simp add: silent_def lift_call_def split_beta Let_def)

lemma sends_silent [simp]: "sends (snd (silent f s)) = sends s"
  by (simp add: silent_def lift_call_def split_beta Let_def)

lemma in_flight_silent [simp]: "in_flight (snd (silent f s)) = in_flight s"
  by (simp add: silent_def lift_call_def split_beta Let_def)

lemma silent_sends: "silent f s = (r, s') \<Longrightarrow> sends s' = sends s"
  by (metis sends_silent snd_conv)

lemma silent_wire: "silent f s = (r, s') \<Longrightarrow> wire s' = wire s"
  by (simp add: wire_def silent_sends)

lemma silent_in_flight: "silent f s = (r, s') \<Longrightarrow> in_flight s' = in_flight s"
  by (metis in_flight_silent snd_conv)

lemma sends_logs_send [simp]: "sends (logs_send ds whole s) = sends s @ [(ds, whole)]"
  by (simp add: logs_send_def)

lemma wire_simps [simp]:
  "wire (s\<lparr>sys := w\<rparr>) = wire s" "wire \<lparr>sys = w, sends = [], in_flight = f\<rparr> = []"
  by (simp_all add: wire_def)

lemma wire_sends:
  "sends s' = sends s @ replicate k (ds, False) @ (if ok then [(ds, True)] else []) \<Longrightarrow>
     wire s' = wire s @ (if ok then ds else [])"
  by (simp add: wire_def)

subsection \<open>Calls that send nothing\<close>

lemma sends_lookups:
  "configure_udp_send_segment_size (recorded api) n s = (r1, s1) \<Longrightarrow> sends s1 = sends s"
  "ipv4_interface_index (recorded api) bytes s = (r2, s2) \<Longrightarrow> sends s2 = sends s"
  "pktinfo_control (recorded api) a include i s = (r3, s3) \<Longrightarrow> sends s3 = sends s"
proof -
  show "configure_udp_send_segment_size (recorded api) n s = (r1, s1) \<Longrightarrow> sends s1 = sends s"
    by (auto simp: configure_udp_send_segment_size_def silent_sends split: option.splits)
  show i: "ipv4_interface_index (recorded api) bytes s = (r, s') \<Longrightarrow> sends s' = sends s" for bytes r s'
    by (auto simp: ipv4_interface_index_def silent_sends split: if_splits)
  show "pktinfo_control (recorded api) a include i s = (r3, s3) \<Longrightarrow> sends s3 = sends s"
    by (auto simp: pktinfo_control_def dest!: i split: if_splits ip_address.splits option.splits prod.splits)
qed

lemma wire_lookups:
  "configure_udp_send_segment_size (recorded api) n s = (r1, s1) \<Longrightarrow> wire s1 = wire s"
  "ipv4_interface_index (recorded api) bytes s = (r2, s2) \<Longrightarrow> wire s2 = wire s"
  "pktinfo_control (recorded api) a include i s = (r3, s3) \<Longrightarrow> wire s3 = wire s"
  by (simp_all add: wire_def sends_lookups)

lemma pktinfo_no_segment_size:
  "pktinfo_control api a include i s = (ctl, s') \<Longrightarrow> UdpSendMsgSize n \<notin> set ctl"
  by (auto simp: pktinfo_control_def split: if_splits ip_address.splits option.splits prod.splits)

subsection \<open>One message\<close>

lemma recorded_sleep:
  "api_sleep_ex (recorded api) s = (None, s') \<Longrightarrow> sends s' = sends s \<and> in_flight s' = in_flight s"
  "api_sleep_ex (recorded api) s = (Some (err, n), s') \<Longrightarrow> in_flight s = Some msg \<Longrightarrow>
     sends s' = sends s @ [(delivered msg, err = 0 \<and> all_bytes n msg)]"
  using silent_sends [of "api_sleep_ex api" s] silent_in_flight [of "api_sleep_ex api" s]
  by (auto simp: recorded_def Let_def split: prod.splits option.splits)

lemma recorded_wait:
  assumes "first_completion (api_sleep_ex (recorded api)) None s (err, n) s'"
    and "in_flight s = Some msg"
  shows "sends s' = sends s @ [(delivered msg, err = 0 \<and> all_bytes n msg)]"
proof -
  let ?sleep = "api_sleep_ex (recorded api)"
  obtain k where k: "?sleep (after_sleeps ?sleep k s) = (Some (err, n), s')"
    "\<forall>j < k. fst (?sleep (after_sleeps ?sleep j s)) = None"
    using assms(1) by (auto simp: first_completion_def)
  have "sends (after_sleeps ?sleep k s) = sends s \<and> in_flight (after_sleeps ?sleep k s) = in_flight s"
    using k(2)
  proof (induction k arbitrary: s)
    case 0
    then show ?case by simp
  next
    case (Suc k)
    obtain v where v: "?sleep s = (None, v)" using Suc.prems by (cases "?sleep s") force
    have "\<forall>j < k. fst (?sleep (after_sleeps ?sleep j v)) = None"
      using Suc.prems v by (auto dest: spec [of _ "Suc _"])
    from Suc.IH [OF this] recorded_sleep(1) [OF v] v show ?case by simp
  qed
  with recorded_sleep(2) [OF k(1)] assms(2) show ?thesis by simp
qed

text \<open>
  The outcome of an overlapped send: of the routine's effect only its first run matters.
\<close>

lemma invoke_overlapped:
  "invoke_wsasendmsg api msg True w = Some ((ok, n, err), w') \<longleftrightarrow>
     (case api_wsasendmsg_overlapped api msg w of
        ((StartedOk sync_bytes, c), w1) \<Rightarrow>
          ok \<and> n = (case c of Some (_, m) \<Rightarrow> m | None \<Rightarrow> sync_bytes) \<and> err = 0 \<and> w' = w1
      | ((StartError e, c), w1) \<Rightarrow>
          if e \<noteq> WSA_IO_PENDING then \<not> ok \<and> n = 0 \<and> err = e \<and> w' = w1
          else \<exists>error m. first_completion (api_sleep_ex api) c w1 (error, m) w' \<and>
            (if error = 0 then ok \<and> n = m \<and> err = e else \<not> ok \<and> n = 0 \<and> err = sint error))"
proof -
  obtain rc c w1 where o: "api_wsasendmsg_overlapped api msg w = ((rc, c), w1)" by (metis prod.collapse)
  show ?thesis
  proof (cases rc)
    case (StartedOk sync_bytes)
    then show ?thesis using o by (cases c) (auto simp: invoke_wsasendmsg_def Let_def)
  next
    case (StartError e)
    show ?thesis
    proof (cases "e = WSA_IO_PENDING")
      case False
      then show ?thesis using o StartError by (auto simp: invoke_wsasendmsg_def Let_def)
    next
      case True
      have "invoke_wsasendmsg api msg True w = Some ((ok, n, err), w') \<longleftrightarrow>
          (\<exists>ctx. await_completion (api_sleep_ex api) (run_routine c init_io_context) w1 = Some (ctx, w') \<and>
             (ok, n, err) = (if io_error ctx \<noteq> 0 then (False, 0, sint (io_error ctx))
               else (True, io_bytes_transferred ctx, e)))"
        using o StartError True by (auto simp: invoke_wsasendmsg_def Let_def)
      also have "\<dots> \<longleftrightarrow> (\<exists>r. first_completion (api_sleep_ex api) c w1 r w' \<and>
          (ok, n, err) = (if fst r \<noteq> 0 then (False, 0, sint (fst r)) else (True, snd r, e)))"
      proof -
        have ex: "(\<exists>ctx. (\<exists>r. A r \<and> ctx = f r) \<and> P ctx) \<longleftrightarrow> (\<exists>r. A r \<and> P (f r))" for A P and f :: "completion \<Rightarrow> io_context"
          by blast
        show ?thesis unfolding await_completion_first ex by (simp only: run_routine_sel)
      qed
      also have "\<dots> \<longleftrightarrow> (\<exists>error m. first_completion (api_sleep_ex api) c w1 (error, m) w' \<and>
          (if error = 0 then ok \<and> n = m \<and> err = e else \<not> ok \<and> n = 0 \<and> err = sint error))"
        unfolding split_paired_Ex by (intro iff_exI) auto
      finally show ?thesis using o StartError True by simp
    qed
  qed
qed

lemma invoke_overlapped_None:
  "invoke_wsasendmsg api msg True w = None \<longleftrightarrow>
     (case api_wsasendmsg_overlapped api msg w of
        ((rc, c), w1) \<Rightarrow> rc = StartError WSA_IO_PENDING \<and> c = None \<and>
          (\<forall>k. fst (api_sleep_ex api (after_sleeps (api_sleep_ex api) k w1)) = None))"
proof -
  obtain rc c w1 where o: "api_wsasendmsg_overlapped api msg w = ((rc, c), w1)" by (metis prod.collapse)
  let ?sleep = "api_sleep_ex api" and ?ctx = "run_routine c init_io_context"
  let ?asleep = "\<lambda>k. fst (?sleep (after_sleeps ?sleep k w1)) = None"
  have "invoke_wsasendmsg api msg True w = None \<longleftrightarrow>
      rc = StartError WSA_IO_PENDING \<and> await_completion ?sleep ?ctx w1 = None"
    using o by (cases rc) (auto simp: invoke_wsasendmsg_def Let_def)
  moreover have "await_completion ?sleep ?ctx w1 = None \<longleftrightarrow> (\<forall>r w'. \<not> first_completion ?sleep c w1 r w')"
    using await_completion_first [of ?sleep c w1] by (metis not_None_eq prod.collapse)
  moreover have "(\<forall>r w'. \<not> first_completion ?sleep c w1 r w') \<longleftrightarrow> c = None \<and> (\<forall>k. ?asleep k)"
  proof (cases c)
    case None
    have "\<exists>r w'. first_completion ?sleep None w1 r w'" if "\<not> ?asleep k" for k
    proof -
      define n where "n = (LEAST k. \<not> ?asleep k)"
      have "\<not> ?asleep n" "\<forall>j < n. ?asleep j"
        unfolding n_def using LeastI [of "\<lambda>k. \<not> ?asleep k", OF that] not_less_Least by blast+
      then show ?thesis by (cases "?sleep (after_sleeps ?sleep n w1)") (auto simp: first_completion_def)
    qed
    moreover have "\<not> first_completion ?sleep None w1 r w'" if "\<forall>k. ?asleep k" for r w'
    proof
      assume "first_completion ?sleep None w1 r w'"
      then obtain n where "?sleep (after_sleeps ?sleep n w1) = (Some r, w')" by (auto simp: first_completion_def)
      then show False using that by (metis fst_conv option.distinct(1))
    qed
    ultimately show ?thesis using None by blast
  qed (simp add: first_completion_def)
  ultimately show ?thesis using o by simp
qed

lemma recorded_invoke:
  assumes "invoke_wsasendmsg (recorded api) msg use_routine s = Some ((ok, n, err), s')"
  shows "sends s' = sends s @ [(delivered msg, ok \<and> all_bytes n msg)]"
proof (cases use_routine)
  case False
  then show ?thesis
    using assms by (auto simp: invoke_wsasendmsg_def recorded_def Let_def
        dest: silent_sends split: sum.splits prod.splits)
next
  case True
  obtain rc c s1 where r: "silent (api_wsasendmsg_overlapped api msg) s = ((rc, c), s1)" by (metis prod.collapse)
  note w1 = silent_sends [OF r]
  have "invoke_wsasendmsg (recorded api) msg True s = Some ((ok, n, err), s')" using assms True by simp
  note inv = this [unfolded invoke_overlapped]
  show ?thesis
  proof (cases rc)
    case (StartedOk m)
    then show ?thesis using inv r w1 by (auto simp: recorded_def Let_def split: option.splits)
  next
    case (StartError e)
    show ?thesis
    proof (cases "e = WSA_IO_PENDING \<and> c = None")
      case False
      then show ?thesis
        using inv r w1 StartError
        by (auto simp: recorded_def Let_def first_completion_def split: if_splits option.splits)
    next
      case pend: True
      then have "api_wsasendmsg_overlapped (recorded api) msg s = ((StartError e, None), s1\<lparr>in_flight := Some msg\<rparr>)"
        using StartError r by (simp add: recorded_def Let_def)
      then obtain error m where "first_completion (api_sleep_ex (recorded api)) None (s1\<lparr>in_flight := Some msg\<rparr>) (error, m) s'"
        and res: "if error = 0 then ok \<and> n = m \<and> err = e else \<not> ok \<and> n = 0 \<and> err = sint error"
        using inv pend by auto
      from recorded_wait [OF this(1)] res w1 show ?thesis by (auto split: if_splits)
    qed
  qed
qed

lemma delivered_segments:
  assumes "\<forall>n. UdpSendMsgSize n \<notin> set ctl" and "msg_control msg = ctl @ [UdpSendMsgSize m]"
  shows "delivered msg = chunks (unat m) (msg_buffer msg)"
proof -
  have "concat (map (case_control (\<lambda>_ _. []) (\<lambda>_ _. []) (\<lambda>n. [n])) ctl) = []"
    using assms(1) by (induction ctl) (auto split: control.splits)
  then show ?thesis using assms(2) by (simp add: delivered_def del: concat_eq_Nil_conv)
qed

text \<open>
  At most \<open>n\<close> sends were tried, all of the datagrams \<open>ds\<close>: they failed or reported too few bytes, except
  for the last one when \<open>ok\<close>.
\<close>

definition tries :: "nat \<Rightarrow> byte list list \<Rightarrow> bool \<Rightarrow> 'w recorder \<Rightarrow> 'w recorder \<Rightarrow> bool" where
  "tries n ds ok s s' \<longleftrightarrow>
     (\<exists>k. sends s' = sends s @ replicate k (ds, False) @ (if ok then [(ds, True)] else []) \<and>
        k + (if ok then 1 else 0) \<le> n)"

lemma tries_none: "sends s' = sends s \<Longrightarrow> tries n ds False s s'"
  unfolding tries_def by (intro exI [of _ 0]) simp

lemma tries_one: "sends s' = sends s @ [(ds, ok)] \<Longrightarrow> 1 \<le> n \<Longrightarrow> tries n ds ok s s'"
  unfolding tries_def by (cases ok) (auto intro: exI [of _ 0] exI [of _ 1])

lemma tries_then:
  assumes "tries m ds False s s1" and "tries n ds ok s1 s2"
  shows "tries (m + n) ds ok s s2"
proof -
  obtain k where k: "sends s1 = sends s @ replicate k (ds, False)" "k \<le> m"
    using assms(1) by (auto simp: tries_def)
  obtain l where l: "sends s2 = sends s1 @ replicate l (ds, False) @ (if ok then [(ds, True)] else [])"
    "l + (if ok then 1 else 0) \<le> n" using assms(2) unfolding tries_def by blast
  show ?thesis
    unfolding tries_def using k l by (intro exI [of _ "k + l"]) (simp add: replicate_add)
qed

lemma tries_mono: "tries m ds ok s s' \<Longrightarrow> m \<le> n \<Longrightarrow> tries n ds ok s s'"
  unfolding tries_def by (meson le_trans)

lemma tries_wire: "tries n ds ok s s' \<Longrightarrow> wire s' = wire s @ (if ok then ds else [])"
  unfolding tries_def using wire_sends by blast

text \<open>An attempt to send a batch of more than one segment hands over all its segments, or nothing.\<close>

lemma recorded_try:
  assumes "try_wsasendmsg_uso (recorded api) data mss target source include i use_routine s = Some ((ok, err), s')"
    and "mss < length data" and "0 < mss" and "mss < 2 ^ 32"
  shows "tries 1 (chunks mss data) ok s s'"
proof -
  have seg: "1 < (length data + mss - 1) div mss"
  proof -
    have "2 * mss \<le> length data + mss - 1" using assms(2,3) by simp
    then show ?thesis using assms(3) div_le_mono [of "2 * mss" "length data + mss - 1" mss] by simp
  qed
  have m: "unat (of_nat mss :: u32) = mss" using assms(4) by (rule unat_of_nat_u32)
  show ?thesis
  proof (cases "endpoint_to_sockaddr target")
    case None
    then show ?thesis using assms(1) by (simp add: try_wsasendmsg_uso_def tries_none)
  next
    case (Some dest)
    obtain ctl s1 where c: "pktinfo_control (recorded api) source include i s = (ctl, s1)" by fastforce
    obtain cfg s2 where g: "configure_udp_send_segment_size (recorded api) (of_nat mss) s1 = (cfg, s2)" by fastforce
    have w: "sends s1 = sends s" "sends s2 = sends s"
      using sends_lookups(3) [OF c] sends_lookups(1) [OF g] by simp_all
    note d = delivered_segments [of ctl _ "of_nat mss", unfolded m]
    show ?thesis
      using assms(1) Some seg c g w
      by (auto simp: try_wsasendmsg_uso_def Let_def all_bytes_def d pktinfo_no_segment_size [OF c]
          dest!: recorded_invoke split: if_splits option.splits prod.splits intro!: tries_none tries_one)
  qed
qed

subsection \<open>A batch\<close>

lemma recorded_plain:
  assumes "plain_result (recorded api) data target s = (result, s')"
  shows "tries 1 [data] (send_success result) s s'"
    and "send_success result \<Longrightarrow> result = \<lparr>send_success = True, segments_sent = 1,
      total_bytes = length data, send_path = PathPlain, send_error = None\<rparr>"
    and "\<not> send_success result \<Longrightarrow> send_error result \<noteq> None"
  using assms
  by (auto simp: plain_result_def send_plain_datagram_def init_send_result_def recorded_def Let_def
      dest!: silent_sends intro: tries_none tries_one split: option.splits sum.splits prod.splits if_splits)

lemma attempt_elim:
  assumes "attempt guard send res next_try e s = Some (result, s')"
  obtains (sent) err where "send s = Some ((True, err), s')" and "result = res"
  | (missed) err s1 where "send s = Some ((False, err), s1)" and "next_try err s1 = Some (result, s')"
  | (skipped) "next_try e s = Some (result, s')"
  using assms by (auto simp: attempt_def split: if_splits option.splits prod.splits bool.splits)

definition uso_outcome :: "nat \<Rightarrow> byte list list \<Rightarrow> uso_send_result \<Rightarrow> 'w recorder \<Rightarrow> 'w recorder \<Rightarrow> bool" where
  "uso_outcome n ds result s s' \<longleftrightarrow> tries n ds (send_success result) s s' \<and>
     (if send_success result
      then segments_sent result = length ds \<and> total_bytes result = length (concat ds) \<and> send_error result = None
      else send_error result \<noteq> None)"

lemma attempt_outcome:
  assumes "attempt guard send res next_try e s = Some (result, s')"
    and "\<And>ok err s1. send s = Some ((ok, err), s1) \<Longrightarrow> tries 1 ds ok s s1"
    and "\<And>err s1. next_try err s1 = Some (result, s') \<Longrightarrow> uso_outcome n ds result s1 s'"
    and "send_success res \<and> segments_sent res = length ds \<and> total_bytes res = length (concat ds) \<and>
      send_error res = None"
  shows "uso_outcome (Suc n) ds result s s'"
  using assms(1)
proof (cases rule: attempt_elim)
  case (sent err)
  then show ?thesis
    using tries_mono [OF assms(2) [OF sent(1)], of "Suc n"] assms(4) by (simp add: uso_outcome_def)
next
  case (missed err s1)
  then show ?thesis
    using assms(3) [OF missed(2)] tries_then [OF assms(2) [OF missed(1)]] by (simp add: uso_outcome_def)
next
  case skipped
  from assms(3) [OF this] show ?thesis by (auto simp: uso_outcome_def intro: tries_mono)
qed

text \<open>
  The whole of \<open>send_buffer_uso\<close>: at most three attempts, each with all datagrams of the batch, and one
  if it fits one datagram or packet info is not wanted.
\<close>

definition most_attempts :: "byte list \<Rightarrow> nat \<Rightarrow> bool \<Rightarrow> nat" where
  "most_attempts data mss no_pktinfo = (if mss = 0 \<or> length data \<le> mss \<or> no_pktinfo then 1 else 3)"

lemma recorded_send_buffer:
  assumes "send_buffer_uso (recorded api) data mss target source i no_pktinfo use_routine s = Some (result, s')"
  shows "uso_outcome (most_attempts data mss no_pktinfo) (chunks mss data) result s s'"
proof -
  let ?segs = "(length data + mss - 1) div mss" and ?n = "most_attempts data mss no_pktinfo"
  let ?att = "\<lambda>inc. try_wsasendmsg_uso (recorded api) data mss target source inc i use_routine"
  let ?done = "\<lambda>path. init_send_result\<lparr>send_success := True, segments_sent := ?segs,
    total_bytes := length data, send_path := path\<rparr>"
  let ?failed = "\<lambda>err w'. Some (init_send_result\<lparr>send_error := Some (WsaSendMsgFailed err)\<rparr>, w')"
  have fail: "uso_outcome n ds (init_send_result\<lparr>send_error := Some e\<rparr>) v v" for n ds e and v :: "'a recorder"
    by (simp add: uso_outcome_def init_send_result_def tries_none)
  have plain: "uso_outcome ?n (chunks mss data) r s v"
    if "plain_result (recorded api) data target s = (r, v)" "chunks mss data = [data]" for r v
  proof -
    have "1 \<le> ?n" by (simp add: most_attempts_def)
    then show ?thesis
      using recorded_plain [OF that(1)] that(2) by (auto simp: uso_outcome_def intro: tries_mono)
  qed
  consider (empty) "data = []" | (big) "kUsoMaxBytesPerBatch < length data" "data \<noteq> []"
    | (plain) "data \<noteq> []" "length data \<le> kUsoMaxBytesPerBatch" "mss = 0 \<or> length data \<le> mss"
    | (mss) "data \<noteq> []" "0 < mss" "mss < length data" "kUsoMaxSegmentSize < mss" "length data \<le> kUsoMaxBytesPerBatch"
    | (uso) "data \<noteq> []" "0 < mss" "mss < length data" "mss \<le> kUsoMaxSegmentSize" "length data \<le> kUsoMaxBytesPerBatch"
    by linarith
  then show ?thesis
  proof cases
    case empty
    then show ?thesis using assms fail by (auto simp: send_buffer_uso_def)
  next
    case big
    then show ?thesis using assms fail by (auto simp: send_buffer_uso_def)
  next
    case p: plain
    have c: "chunks mss data = [data]" using p by (cases "mss = 0") (simp_all add: chunks_single)
    show ?thesis
      using assms p fail plain [OF _ c] length_chunks [of mss data] c
      by (auto simp: send_buffer_uso_def Let_def split: if_splits)
  next
    case mss
    then show ?thesis using assms fail by (auto simp: send_buffer_uso_def)
  next
    case uso
    have m: "mss < 2 ^ 32" using uso(4) by (simp add: kUsoMaxSegmentSize_def)
    have len: "?segs = length (chunks mss data)" using length_chunks [OF uso(2), of data] by simp
    have "chunks mss data = take mss data # chunks mss (drop mss data)" using uso by (simp add: chunks_more)
    moreover have "chunks mss (drop mss data) \<noteq> []" using uso by (simp add: chunks_Nil_iff)
    ultimately have "?segs \<noteq> 1" using len by simp
    have full: "send_success (?done path) \<and> segments_sent (?done path) = length (chunks mss data) \<and>
        total_bytes (?done path) = length (concat (chunks mss data)) \<and> send_error (?done path) = None" for path
      using len by (simp add: init_send_result_def)
    have step: "uso_outcome (Suc n) (chunks mss data) result v s'"
      if "attempt g (?att inc) (?done path) next_try e v = Some (result, s')"
        and "\<And>err s1. next_try err s1 = Some (result, s') \<Longrightarrow> uso_outcome n (chunks mss data) result s1 s'"
      for g inc path next_try e v n
      by (rule attempt_outcome [OF that(1) recorded_try [OF _ uso(3,2) m] that(2) full])
    have one: "uso_outcome (Suc 0) (chunks mss data) result v s'"
      if "attempt g (?att inc) (?done path) ?failed e v = Some (result, s')" for g inc path e v
      using step [OF that, of 0] fail by auto
    have three: "uso_outcome 3 (chunks mss data) result v s'"
      if "attempt g (?att inc) (?done path)
          (attempt g' (?att inc') (?done path') (attempt g'' (?att inc'') (?done path'') ?failed)) e v = Some (result, s')"
      for g inc path g' inc' path' g'' inc'' path'' e v
      using step [OF that step [OF _ one]] by (simp add: numeral_3_eq_3)
    have n: "most_attempts data mss True = Suc 0" "most_attempts data mss False = 3"
      using uso(2,3) by (simp_all add: most_attempts_def)
    show ?thesis
    proof (cases "api_sendmsg_available api")
      case False
      then show ?thesis using assms uso fail \<open>?segs \<noteq> 1\<close> by (auto simp: send_buffer_uso_def Let_def)
    next
      case True
      then show ?thesis
        using assms uso \<open>?segs \<noteq> 1\<close>
        by (simp add: send_buffer_uso_def Let_def one three n split: if_splits)
    qed
  qed
qed

subsection \<open>The client's sender\<close>

lemma send_batch_windows_log:
  assumes "send_batch_windows (recorded api) remote source i no_pktinfo use_routine mss b s =
      Some (r :: 'e client_error + client_line, s')"
  shows "wire s' = wire s @ (case r of Inr _ \<Rightarrow> chunks mss b | Inl _ \<Rightarrow> [])"
  using assms
  by (auto simp: send_batch_windows_def uso_outcome_def tries_wire dest!: recorded_send_buffer split: if_splits)

interpretation uso: batch_sender
  "send_batch_windows (recorded api) remote source i no_pktinfo use_routine mss" wire mss
  for api remote source i no_pktinfo use_routine mss
  by unfold_locales (simp add: send_batch_windows_log)

text \<open>A Winsock on which every send succeeds at once.\<close>

definition healthy :: "'w uso_api \<Rightarrow> bool" where
  "healthy api \<longleftrightarrow> api_sendmsg_available api \<and>
     (\<forall>n w. fst (configure_udp_send_segment_size api n w) = None) \<and>
     (\<forall>msg w. fst (api_wsasendmsg api msg w) = Inr (of_nat (length (msg_buffer msg)))) \<and>
     (\<forall>d len dest dest_len w. fst (api_sendto api d len dest dest_len w) = Inr (int (length d)))"

lemma healthy_recorded:
  assumes "healthy api"
  shows "healthy (recorded api)"
proof -
  have "fst (configure_udp_send_segment_size (recorded api) n w) =
      fst (configure_udp_send_segment_size api n (sys w))" for n w
    by (simp add: configure_udp_send_segment_size_def split: option.split)
  moreover have "fst (api_wsasendmsg (recorded api) msg w) = fst (api_wsasendmsg api msg (sys w))" for msg w
    by (simp add: recorded_def split_beta Let_def)
  moreover have "fst (api_sendto (recorded api) d len dest dest_len w) =
      fst (api_sendto api d len dest dest_len (sys w))" for d len dest dest_len w
    by (simp add: recorded_def split_beta Let_def)
  ultimately show ?thesis using assms by (simp add: healthy_def)
qed

lemma healthyD:
  assumes "healthy api"
  shows "\<exists>w'. configure_udp_send_segment_size api n w = (None, w')"
    and "\<exists>w'. api_wsasendmsg api msg w = (Inr (of_nat (length (msg_buffer msg))), w')"
    and "\<exists>w'. api_sendto api d len dest dest_len w = (Inr (int (length d)), w')"
  using assms unfolding healthy_def by (metis prod.collapse)+

lemma healthy_plain:
  assumes "healthy api"
  shows "send_success (fst (plain_result api data target w))"
proof -
  obtain dest n where e: "endpoint_to_sockaddr target = Some (dest, n)"
    using endpoint_to_sockaddr_total by blast
  obtain w1 where "api_sendto api data (sint (of_nat (length data) :: u32)) dest n w = (Inr (int (length data)), w1)"
    using healthyD(3) [OF assms] by blast
  with e show ?thesis by (simp add: plain_result_def send_plain_datagram_def init_send_result_def)
qed

lemma control_room:
  "next_cmsg 0" "pktinfo_control api a include i w = (ctl, w') \<Longrightarrow>
     next_cmsg (sum_list (map control_size ctl)) \<and> sum_list (map control_size ctl) + cmsg_space sizeof_DWORD \<le> cmbuf_size"
  by (auto simp: pktinfo_control_def next_cmsg_def cmbuf_size_def cmsg_space_def sizeof_DWORD_def
      sizeof_IN_PKTINFO_def sizeof_IN6_PKTINFO_def
      split: if_splits ip_address.splits option.splits prod.splits)

lemma healthy_try:
  assumes "healthy api"
  shows "\<exists>w'. try_wsasendmsg_uso api data mss target source include i False w = Some ((True, 0), w')"
proof -
  obtain dest n where e: "endpoint_to_sockaddr target = Some (dest, n)"
    using endpoint_to_sockaddr_total by blast
  obtain ctl w1 where c: "pktinfo_control api source include i w = (ctl, w1)" by fastforce
  obtain w2 where g: "configure_udp_send_segment_size api (of_nat mss) w1 = (None, w2)"
    using healthyD(1) [OF assms] by blast
  have inv: "\<exists>w'. invoke_wsasendmsg api msg False v = Some ((True, of_nat (length (msg_buffer msg)), 0), w')" for msg v
    using healthyD(2) [OF assms, of msg v] by (auto simp: invoke_wsasendmsg_def)
  have fin: "\<exists>w'. map_option (\<lambda>((ok, bytes_sent, wsa_error), w3). ((ok \<and> bytes_sent = of_nat (length (msg_buffer msg)), wsa_error), w3))
      (invoke_wsasendmsg api msg False v) = Some ((True, 0), w')" for msg v
    using inv [of msg v] by auto
  show ?thesis
    using e c g control_room(1) control_room(2) [OF c] fin
      [of "\<lparr>msg_name = dest, msg_namelen = n, msg_buffer = data, msg_control = ctl', msg_control_len = m\<rparr>" for ctl' m]
    by (simp add: try_wsasendmsg_uso_def Let_def)
qed

lemma healthy_send_buffer:
  assumes "healthy api" and "data \<noteq> []" and "length data \<le> kUsoMaxBytesPerBatch" and "mss \<le> kUsoMaxSegmentSize"
  shows "\<exists>result w'. send_buffer_uso api data mss target source i no_pktinfo False w = Some (result, w') \<and>
    send_success result"
proof -
  have plain: "\<exists>result w'. Some (plain_result api data target w) = Some (result, w') \<and> send_success result"
    using healthy_plain [OF assms(1), of data target w] by (metis prod.collapse)
  have tried: "\<exists>r w'. attempt True (try_wsasendmsg_uso api data mss target source inc i False) res nxt e w = Some (r, w') \<and>
      send_success r" if "send_success res" for inc res nxt e
    using healthy_try [OF assms(1), of data mss target source inc i w] that by (auto simp: attempt_def)
  have tried2: "\<exists>r w'. attempt g (try_wsasendmsg_uso api data mss target source inc i False) res
        (attempt True (try_wsasendmsg_uso api data mss target source inc' i False) res' nxt) e w = Some (r, w') \<and>
      send_success r" if "send_success res" "send_success res'" for g inc res inc' res' nxt e
    using tried that by (cases g) (simp_all add: attempt_def)
  have av: "api_sendmsg_available api" using assms(1) by (simp add: healthy_def)
  show ?thesis
    using assms(2,3,4) plain tried tried2 av
    by (auto simp: send_buffer_uso_def Let_def init_send_result_def)
qed

lemma healthy_windows:
  assumes "healthy api" and "batch_size_ok n" and "mss \<le> kUsoMaxSegmentSize"
  shows "reliable_sender (send_batch_windows (recorded api) remote source i no_pktinfo False mss) wire mss n"
proof unfold_locales
  fix b :: "byte list" and s
  assume n: "length b = n"
  have "b \<noteq> []" "length b \<le> kUsoMaxBytesPerBatch"
    using n assms(2) by (auto simp: batch_size_ok_def packet_consts kUsoMaxBytesPerBatch_def)
  from healthy_send_buffer [OF healthy_recorded [OF assms(1)] this assms(3)] obtain result s' where
    "send_buffer_uso (recorded api) b mss remote source i no_pktinfo False s = Some (result, s')"
    "send_success result" by blast
  then show "\<exists>line s'. send_batch_windows (recorded api) remote source i no_pktinfo False mss b s = Some (Inr line, s')"
    by (cases "mss = 0 \<or> length b < mss") (simp_all add: send_batch_windows_def)
qed (rule assms(2))

end
