(* ===== verification/End_To_End.thy ===== *)
theory End_To_End
  imports Uso_Send_Correct Receive_Properties Reassembly_Properties
begin

section \<open>Client and server together\<close>

text \<open>
  What a server session reports of the datagrams of a client: the batches of one session, undamaged,
  in any order and number, cut into datagrams in any way, and then the two cases that matter: every
  byte arrives in order, or whole batches are lost, repeated and reordered.
\<close>

subsection \<open>Batches of a session\<close>

lemma session_batch_clean:
  assumes "session_batch n count i b" and "20 < n"
  shows "clean_batch (of_nat count) b"
  using assms by (simp add: session_batch_def clean_batch_def)

lemma session_batches_seqs:
  assumes "list_all2 (session_batch n count) is bs"
  shows "map (hdr_seq \<circ> read_header) bs = map of_nat is"
  using assms by (induction rule: list_all2_induct) (auto simp: session_batch_def)

lemma session_batches_in:
  assumes "list_all2 (session_batch n count) is bs" and "b \<in> set bs"
  shows "\<exists>i \<in> set is. session_batch n count i b"
  using assms by (induction rule: list_all2_induct) auto

lemma of_nat_u32_inj: "inj_on (of_nat :: nat \<Rightarrow> u32) {..<2 ^ 32}"
  by (rule inj_onI) (metis lessThan_iff unat_of_nat_u32)

lemma seqs_inj: "count < 2 ^ 32 \<Longrightarrow> inj_on (of_nat :: nat \<Rightarrow> u32) {0 ..< count}"
  by (rule inj_on_subset [OF of_nat_u32_inj]) auto

subsection \<open>What the server makes of them\<close>

lemma lossy_session:
  assumes "\<forall>b \<in> set bs. \<exists>i < count. session_batch n count i b" and "bs \<noteq> []" and "20 < n"
    and "count < 2 ^ 32" and "concat ds = concat bs" and "cli = None \<or> cli = Some count"
  shows "\<exists>st. session_stats cli ds = Some st \<and>
    (let sqs = map (hdr_seq \<circ> read_header) bs in
       batches st = length bs \<and> bad_batches st = 0 \<and> lost st = count - card (set sqs) \<and>
       duplicates st = length bs - card (set sqs) \<and> out_of_order st = card (late_positions sqs))"
proof -
  let ?sqs = "map (hdr_seq \<circ> read_header) bs"
  let ?t = "of_nat count :: u32"
  have clean: "\<forall>b \<in> set bs. clean_batch ?t b" using assms(1,3) session_batch_clean by blast
  have nz: "0 < count" using assms(1,2) by (cases bs) auto
  have t: "unat ?t = count" using assms(4) by (rule unat_of_nat_u32)
  define st where "st = foldl count_batch (init_stats\<lparr>wire_batch_total := Some ?t\<rparr>) ?sqs"
  have p: "parse_stream init_stats (concat ds) = (st, [])"
    using parse_stream_clean [OF clean assms(2), of init_stats] assms(5) by (simp add: st_def init_stats_def)
  have st: "st = (foldl track_sequence init_stats ?sqs)\<lparr>wire_batch_total := Some ?t, batches := length bs\<rparr>"
    unfolding st_def count_batches track_sequence_start by (simp add: init_stats_def)
  have inv: "stats_inv st" using parse_stream_stats_inv [of init_stats "concat ds"] p by simp
  have seen: "seen_seq st = set ?sqs" using track_sequence_run [of ?sqs] by (simp add: st Let_def)
  have l: "lost st = 0" by (simp add: st track_sequence_start_frame init_stats_def)
  have tot: "wire_batch_total st = Some ?t" by (simp add: st)
  have sub: "seen_seq st \<subseteq> {s. unat s < count}"
    using inv tot t by (auto simp: stats_inv_def word_less_nat_alt)
  then have inter: "{s. unat s < count} \<inter> seen_seq st = seen_seq st" by blast
  have "finalize_lost st cli = Some (st\<lparr>lost := count - card (set ?sqs)\<rparr>)"
  proof (cases cli)
    case None
    then show ?thesis using finalize_lost_total [OF inv tot] t l seen by simp
  next
    case (Some c)
    then have "cli = Some count" using assms(6) by simp
    then show ?thesis using finalize_lost_count [OF nz assms(4), of st] l seen inter by simp
  qed
  then have "session_stats cli ds = Some (st\<lparr>lost := count - card (set ?sqs)\<rparr>)"
    by (simp add: session_stats_def p)
  moreover have "duplicates st + card (set ?sqs) = length bs" "out_of_order st = card (late_positions ?sqs)"
    using track_sequence_run [of ?sqs] by (simp_all add: st Let_def)
  moreover have "bad_batches st = 0" "batches st = length bs"
    by (simp_all add: st track_sequence_start_frame init_stats_def)
  ultimately show ?thesis unfolding Let_def by (intro exI conjI) (assumption | simp)+
qed

lemma late_positions_sorted:
  assumes "sorted sqs"
  shows "late_positions sqs = {}"
  using assms by (auto simp: late_positions_def) (meson leD less_imp_le sorted_nth_mono)

lemma complete_session:
  assumes "list_all2 (session_batch n count) [0 ..< count] bs" and "0 < count" and "20 < n"
    and "count < 2 ^ 32" and "concat ds = concat bs" and "cli = None \<or> cli = Some count"
  shows "\<exists>st. session_stats cli ds = Some st \<and> batches st = count \<and> bad_batches st = 0 \<and> lost st = 0 \<and>
    duplicates st = 0 \<and> out_of_order st = 0"
proof -
  let ?sqs = "map (hdr_seq \<circ> read_header) bs"
  have len: "length bs = count" using list_all2_lengthD [OF assms(1)] by simp
  have s: "?sqs = map of_nat [0 ..< count]" using session_batches_seqs [OF assms(1)] .
  have inj: "inj_on (of_nat :: nat \<Rightarrow> u32) {0 ..< count}"
    using assms(4) by (rule seqs_inj)
  have card: "card (set ?sqs) = count" unfolding s using card_image [OF inj] by simp
  have "sorted ?sqs"
    unfolding s sorted_iff_nth_mono using assms(4) by (auto simp: word_le_nat_alt unat_of_nat_u32)
  then have late: "late_positions ?sqs = {}" by (rule late_positions_sorted)
  have "bs \<noteq> []" using len assms(2) by auto
  moreover have "\<forall>b \<in> set bs. \<exists>i < count. session_batch n count i b"
    using session_batches_in [OF assms(1)] by fastforce
  ultimately show ?thesis
    using lossy_session [OF _ _ assms(3-6)] card late len by (auto simp: Let_def)
qed

subsection \<open>What a client that completes has sent\<close>

lemma linux_run:
  fixes make_address :: "string \<Rightarrow> 'e + ip_address"
  assumes "run_client_linux make_address socket_fails send_to byte_dist options rng w = Some (Inr lines, w')"
  obtains remote where
    "client_run (send_batch_fallback (send_to remote) (opt_mss options)) byte_dist options rng w =
       Some (Inr lines :: 'e client_error + client_line list, w')"
  using assms by (auto simp: run_client_linux_def Let_def split: sum.split_asm option.split_asm)

lemma wire_adapters:
  "ipv4_on_interface_index (recorded api) i s = (r, s') \<Longrightarrow> wire s' = wire s"
  "ipv4_egress_for_destination (recorded api) dest s = (r', s') \<Longrightarrow> wire s' = wire s"
proof -
  show i: "ipv4_on_interface_index (recorded api) i s = (r, s') \<Longrightarrow> wire s' = wire s" for i s r s'
    by (auto simp: ipv4_on_interface_index_def Let_def dest!: silent_wire
        split: adapters_result.splits prod.splits)
  show "ipv4_egress_for_destination (recorded api) dest s = (r', s') \<Longrightarrow> wire s' = wire s"
    by (auto simp: ipv4_egress_for_destination_def dest!: silent_wire i
        split: ip_address.splits option.splits prod.splits)
qed

lemma wire_resolve:
  "resolve_uso_bind_address (recorded api) make_address to_string source dest s = (r, s') \<Longrightarrow> wire s' = wire s"
  by (auto simp: resolve_uso_bind_address_def Let_def dest!: wire_adapters wire_lookups(2)
      split: if_splits sum.splits option.splits prod.splits ip_address.splits)

lemma wire_close [simp]: "wire (api_closesocket (recorded api) sock s) = wire s"
  by (simp add: recorded_def lift_api_def)

lemma wire_socket:
  "create_uso_udp_socket (recorded api) make_address addr ws s = (r1, s1) \<Longrightarrow> wire s1 = wire s"
  "uso_socket_local_endpoint (recorded api) sock s = (r2, s2) \<Longrightarrow> wire s2 = wire s"
  "wire (close_uso_udp_socket (recorded api) sock s) = wire s"
  by (auto simp: create_uso_udp_socket_def ensure_winsock_initialized_def uso_socket_local_endpoint_def
      close_uso_udp_socket_def Let_def dest!: silent_wire
      split: if_splits sum.splits option.splits prod.splits ip_address.splits)

lemma windows_run:
  fixes make_address :: "string \<Rightarrow> 'e + ip_address"
  assumes "run_client_windows (recorded api) make_address to_string byte_dist options ws rng s = Some (Inr lines, s')"
  obtains remote source i s1 s2 where
    "client_run (send_batch_windows (recorded api) remote source i (opt_no_pktinfo options)
       (opt_completion_routine options) (opt_mss options)) byte_dist options rng s1 =
       Some (Inr lines :: 'e client_error + client_line list, s2)"
    and "wire s1 = wire s" and "wire s' = wire s2"
  using assms
  by (auto simp: run_client_windows_def Let_def wire_socket(3)
      dest!: wire_resolve wire_socket(1,2) split: sum.split_asm option.split_asm prod.split_asm)

text \<open>The batches of a client's options, and what they are worth once they can all be built.\<close>

definition client_built :: "('g \<Rightarrow> int \<times> 'g) \<Rightarrow> client_options \<Rightarrow> 'g \<Rightarrow> byte list list option" where
  "client_built byte_dist options rng =
     built_batches byte_dist (opt_send_count options) (opt_send_count options) 0
       (replicate (opt_batch_size options) 0) rng"

lemma client_built_ok:
  assumes "client_built byte_dist options rng = Some bs" and "batch_size_ok (opt_batch_size options)"
  shows "list_all2 (session_batch (opt_batch_size options) (opt_send_count options)) [0 ..< opt_send_count options] bs"
    and "opt_send_count options < 2 ^ 32"
  using assms built_batches_ok [of byte_dist "opt_send_count options" "opt_send_count options" 0
      "replicate (opt_batch_size options) 0" rng bs]
    built_batches_count [of byte_dist "opt_send_count options" "replicate (opt_batch_size options) 0" rng bs]
  by (simp_all add: client_built_def)

lemma linux_sent:
  assumes "run_client_linux make_address socket_fails (\<lambda>ep. logged (send_to ep)) byte_dist options rng (w, log) =
      Some (Inr lines, w', log')"
    and "batch_size_ok (opt_batch_size options)"
  shows "\<exists>bs. client_built byte_dist options rng = Some bs \<and> log' = log @ concat (map (chunks (opt_mss options)) bs)"
  using linux_run [OF assms(1)] fallback.run_sent [OF _ assms(2)]
  by (metis client_built_def snd_conv)

lemma windows_sent:
  assumes "run_client_windows (recorded api) make_address to_string byte_dist options ws rng s = Some (Inr lines, s')"
    and "batch_size_ok (opt_batch_size options)"
  shows "\<exists>bs. client_built byte_dist options rng = Some bs \<and>
    wire s' = wire s @ concat (map (chunks (opt_mss options)) bs)"
  using windows_run [OF assms(1)] uso.run_sent [OF _ assms(2)]
  by (metis client_built_def)

lemma concat_sent: "concat (concat (map (chunks mss) bs)) = concat bs"
  by (induction bs) simp_all

lemma session_counters:
  assumes "run_receive_loop pf options uro turns = SessionDone x rest"
    and "session_stats (opt_batch_count options) (received x) = Some st"
  shows "batches (stats (srv x)) = batches st" "bad_batches (stats (srv x)) = bad_batches st"
    "lost (stats (srv x)) = lost st" "duplicates (stats (srv x)) = duplicates st"
    "out_of_order (stats (srv x)) = out_of_order st"
  using view_counters [of "srv x" st] session_done(1) [OF assms(1)] assms(2) by simp_all

text \<open>The report of a session in which everything arrived.\<close>

definition all_counted :: "nat \<Rightarrow> server_stats \<Rightarrow> bool" where
  "all_counted count st \<longleftrightarrow> batches st = count \<and> bad_batches st = 0 \<and> lost st = 0 \<and> duplicates st = 0 \<and>
     out_of_order st = 0"

lemma all_arrived:
  assumes "client_built byte_dist options rng = Some bs" and "batch_size_ok (opt_batch_size options)"
    and "opt_batch_size options \<noteq> kPacketHeaderSize" and "0 < opt_send_count options"
    and "run_receive_loop pf soptions uro turns = SessionDone x rest"
    and "concat (received x) = concat (concat (map (chunks mss) bs))"
    and "opt_batch_count soptions = None \<or> opt_batch_count soptions = Some (opt_send_count options)"
  shows "all_counted (opt_send_count options) (stats (srv x))"
proof -
  have "20 < opt_batch_size options" using assms(2,3) by (simp add: batch_size_ok_def kPacketHeaderSize_def)
  from complete_session [OF client_built_ok(1) [OF assms(1,2)] assms(4) this client_built_ok(2) [OF assms(1,2)]
      assms(6) [unfolded concat_sent] assms(7)]
  show ?thesis using session_counters [OF assms(5)] by (auto simp: all_counted_def)
qed

subsection \<open>A session for every list of datagrams\<close>

text \<open>Datagrams that arrive one after the other, then silence.\<close>

definition arrival :: "byte list \<Rightarrow> turn" where
  "arrival d = traffic_turn\<lparr>got := Inr d\<rparr>"

lemma arrival_received:
  assumes "reasm_inv s"
  obtains s' where "receive_one False v (arrival d) s = Inr (Some d, s')"
  using ingested_ok [OF assms, of v d]
  by (auto simp: receive_one_def receive_datagram_def arrival_def)

lemma arrival_times [simp]:
  "now_check (arrival d) = 0" "now_after (arrival d) = 1000" "poll_rc (arrival d) = 1" "poll_flag (arrival d)"
  by (simp_all add: arrival_def traffic_turn_def)

lemma arrivals_blocked:
  assumes "rx_inv x" and "deadline x = None \<or> deadline x = Some (1000 + kIdleTimeout)"
  shows "\<exists>y. idle_loop Linux False v (map arrival ds) x = Blocked y \<and> rx_inv y \<and>
    received y = received x @ ds \<and> (ds \<noteq> [] \<longrightarrow> deadline y = Some (1000 + kIdleTimeout))"
  using assms
proof (induction ds arbitrary: x)
  case Nil
  then show ?case by simp
next
  case (Cons d ds)
  let ?x1 = "push_timeout (clear_receive_timeout Linux) x"
  have "reasm_inv (srv x)" using Cons.prems(1) by (simp add: rx_inv_def)
  then obtain s where s: "receive_one False v (arrival d) (srv x) = Inr (Some d, s)"
    by (rule arrival_received)
  let ?y = "got_datagram (arrival d) d s ?x1"
  have k: "\<not> 1000 + kIdleTimeout \<le> 0" "\<not> to_millis (1000 + kIdleTimeout) \<le> 0"
    by (simp_all add: kIdleTimeout_def to_millis_def sdiv_smod_nonneg)
  have go: "idle_loop Linux False v (map arrival (d # ds)) x = idle_loop Linux False v (map arrival ds) ?y"
    using s Cons.prems(2) k by (auto simp: idle_loop.simps(2) Let_def wait_udp_readable_def)
  have "rx_inv ?y" using s Cons.prems(1) by (intro rx_inv_datagram) simp_all
  from Cons.IH [OF this] go show ?case by auto
qed

lemma session_exists:
  assumes "ds \<noteq> []"
  shows "\<exists>x. run_receive_loop Linux (sample_options None) False (map arrival ds @ [silent_turn]) = SessionDone x [] \<and>
    received x = ds"
proof -
  let ?o = "sample_options None" let ?v = "opt_verbose ?o" and ?x = "session_start ?o False"
  have d: "deadline ?x = None" "received ?x = []" by (simp_all add: session_start_def init_rx_def)
  obtain y where y: "idle_loop Linux False ?v (map arrival ds) ?x = Blocked y" "rx_inv y" "received y = ds"
    "deadline y = Some (1000 + kIdleTimeout)"
    using arrivals_blocked [of ?x ?v ds] session_start_inv(1) [of ?o False] d assms by auto
  have "idle_loop Linux False ?v [silent_turn] y = Left (idle_break ?v y) []"
    using sample_quiet [OF y(4)] y(4)
    by (auto simp: quiet_turn_def idle_loop.simps Let_def wait_udp_readable_def split: if_splits)
  then have l: "idle_loop Linux False ?v (map arrival ds @ [silent_turn]) ?x = Left (idle_break ?v y) []"
    using y(1) by (simp add: idle_loop_append)
  obtain z where "close_session ?v None (srv (idle_break ?v y)) = Some z"
    using close_session_idle [of "idle_break ?v y" ?v] y(2) by auto
  then show ?thesis using l y(3) by (simp add: idle_session end_session_def)
qed

subsection \<open>The datagrams of a client\<close>

definition datagrams_of :: "client_options \<Rightarrow> nat" where
  "datagrams_of options = opt_send_count options *
     (if opt_mss options = 0 then 1 else (opt_batch_size options + opt_mss options - 1) div opt_mss options)"

lemma sent_datagrams:
  assumes "client_built byte_dist options rng = Some bs" and "batch_size_ok (opt_batch_size options)"
    and "sent = concat (map (chunks (opt_mss options)) bs)"
  shows "length sent = datagrams_of options"
    and "d \<in> set sent \<Longrightarrow> d \<noteq> [] \<and> (opt_mss options \<noteq> 0 \<longrightarrow> length d \<le> opt_mss options)"
    and "0 < opt_send_count options \<Longrightarrow> sent \<noteq> []"
proof -
  let ?count = "opt_send_count options" and ?n = "opt_batch_size options" and ?mss = "opt_mss options"
  note all = client_built_ok(1) [OF assms(1,2)]
  have size: "length b = ?n" if "b \<in> set bs" for b
    using session_batches_in [OF all that] by (auto simp: session_batch_def)
  have each: "length (chunks ?mss b) = (if ?mss = 0 then 1 else (?n + ?mss - 1) div ?mss)" if "b \<in> set bs" for b
    using size [OF that] length_chunks [of ?mss b] by (cases "?mss = 0") simp_all
  have "length sent = sum_list (map (length \<circ> chunks ?mss) bs)"
    by (simp add: assms(3) length_concat map_map)
  also have "\<dots> = length bs * (if ?mss = 0 then 1 else (?n + ?mss - 1) div ?mss)"
    using each by (simp add: sum_list_replicate map_replicate_const cong: map_cong)
  finally show len: "length sent = datagrams_of options"
    using list_all2_lengthD [OF all] by (simp add: datagrams_of_def)
  have nz: "0 < ?n" using assms(2) by (simp add: batch_size_ok_def kPacketHeaderSize_def)
  show "d \<noteq> [] \<and> (?mss \<noteq> 0 \<longrightarrow> length d \<le> ?mss)" if ds: "d \<in> set sent"
  proof -
    obtain b where b: "b \<in> set bs" "d \<in> set (chunks ?mss b)"
      using ds unfolding assms(3) set_concat set_map by blast
    have "b \<noteq> []" using size [OF b(1)] nz by auto
    with b show ?thesis using chunks_bound [of ?mss d b] by (cases "?mss = 0") simp_all
  qed
  show "sent \<noteq> []" if pos: "0 < ?count"
  proof -
    have "0 < (?n + ?mss - 1) div ?mss" if "?mss \<noteq> 0"
      using that nz by (simp add: div_greater_zero_iff)
    then have "0 < datagrams_of options" using pos by (simp add: datagrams_of_def)
    with len show ?thesis by auto
  qed
qed

subsection \<open>A network that takes every datagram\<close>

lemma ideal_client:
  fixes make_address :: "string \<Rightarrow> 'e + ip_address"
  assumes "parse_address make_address (opt_dest_address options) = Inr dest"
    and "parse_address make_address (opt_source_address options) = Inr source"
    and "batch_size_ok (opt_batch_size options)" and "opt_send_count options < 2 ^ 32"
  obtains lines w' sent where "run_client_linux make_address None (\<lambda>ep. logged all_sent) byte_dist options rng (w, []) =
      Some (Inr lines, w', sent)"
    and "0 < opt_send_count options \<Longrightarrow> sent \<noteq> []"
proof -
  let ?count = "opt_send_count options" and ?n = "opt_batch_size options" and ?mss = "opt_mss options"
  let ?send = "send_batch_fallback (logged all_sent) ?mss :: byte list \<Rightarrow> _ \<Rightarrow>
    (('e client_error + client_line) \<times> _) option"
  have rel: "reliable_sender ?send snd ?mss ?n" using assms(3) by (rule ideal_fallback)
  obtain lines w' sent where
    "client_batches ?send byte_dist ?count ?count 0 (replicate ?n 0) rng [] (w, []) = Some (Inr lines, w', sent)"
    using reliable_sender.batches_complete [OF rel, where batch = "replicate ?n 0" and i = 0 and
        k = ?count and count = ?count and byte_dist = byte_dist and rng = rng and lines = "[]" and w = "(w, [])"]
      assms(4) by auto
  then obtain lines' where r: "run_client_linux make_address None (\<lambda>ep. logged all_sent) byte_dist options rng (w, []) =
      Some (Inr lines', w', sent)"
    using assms(1,2) by (simp add: run_client_linux_def client_run_def Let_def)
  obtain bs where bs: "client_built byte_dist options rng = Some bs" "sent = concat (map (chunks ?mss) bs)"
    using linux_sent [OF r assms(3)] by auto
  show thesis by (rule that [OF r]) (rule sent_datagrams(3) [OF bs(1) assms(3) bs(2)])
qed

text \<open>On Windows, a Winsock on which every socket call succeeds as well.\<close>

definition sockets_ok :: "'w uso_api \<Rightarrow> bool" where
  "sockets_ok api \<longleftrightarrow>
     (\<forall>w. fst (api_startup api w) \<and> (\<exists>k. fst (api_socket api w) = Inr k)) \<and>
     (\<forall>k w. fst (api_set_reuseaddr api k w) = None \<and> fst (api_set_sndbuf api k w) = None \<and>
        (\<forall>a. fst (api_bind api k a w) = None) \<and> (\<exists>r. fst (api_getsockname api k w) = Inr r))"

lemma sockets_ok_recorded: "sockets_ok api \<Longrightarrow> sockets_ok (recorded api)"
  by (simp add: sockets_ok_def)

lemma sockets_okD:
  assumes "sockets_ok api"
  shows "\<exists>w'. api_startup api w = (True, w')" "\<exists>k w'. api_socket api w = (Inr k, w')"
    "\<exists>w'. api_set_reuseaddr api k w = (None, w')" "\<exists>w'. api_set_sndbuf api k w = (None, w')"
    "\<exists>w'. api_bind api k a w = (None, w')" "\<exists>r w'. api_getsockname api k w = (Inr r, w')"
  using assms unfolding sockets_ok_def by (metis prod.collapse)+

definition fresh_winsock :: winsock where
  "fresh_winsock = \<lparr>ws_initialized = False, ws_ok = False\<rparr>"

lemma create_ok:
  assumes "sockets_ok api" and "parse_address make_address addr = Inr (V4 bytes)"
  shows "\<exists>sock ws' w'. create_uso_udp_socket api make_address addr fresh_winsock w = ((Inr sock, ws'), w')"
proof -
  obtain w1 where 1: "api_startup api w = (True, w1)" using sockets_okD(1) [OF assms(1)] by blast
  obtain k w2 where 2: "api_socket api w1 = (Inr k, w2)" using sockets_okD(2) [OF assms(1)] by blast
  obtain w3 where 3: "api_set_reuseaddr api k w2 = (None, w3)" using sockets_okD(3) [OF assms(1)] by blast
  obtain w4 where 4: "api_set_sndbuf api k w3 = (None, w4)" using sockets_okD(4) [OF assms(1)] by blast
  obtain w5 where 5: "api_bind api k (SaIn 0 bytes) w4 = (None, w5)" using sockets_okD(5) [OF assms(1)] by blast
  show ?thesis
    by (simp add: create_uso_udp_socket_def ensure_winsock_initialized_def fresh_winsock_def 1 2 3 4 5 assms(2))
qed

lemma resolve_ok:
  assumes "parse_address make_address source = Inr a"
  shows "\<exists>info w'. resolve_uso_bind_address api make_address to_string source dest w = (Inr info, w') \<and>
    (info_bind_address info = source \<or> (\<exists>bytes. info_bind_address info = to_string bytes))"
  using assms
  by (auto simp: resolve_uso_bind_address_def Let_def split: prod.split option.split ip_address.split)

lemma healthy_client:
  fixes make_address :: "string \<Rightarrow> 'e + ip_address"
  assumes "healthy api" and "sockets_ok api"
    and "parse_address make_address (opt_dest_address options) = Inr dest"
    and "parse_address make_address (opt_source_address options) = Inr (V4 source)"
    and "\<And>bytes. \<exists>b. parse_address make_address (to_string bytes) = Inr (V4 b)"
    and "batch_size_ok (opt_batch_size options)" and "opt_send_count options < 2 ^ 32"
    and "opt_mss options \<le> kUsoMaxSegmentSize" and "\<not> opt_completion_routine options"
  obtains lines s' where "run_client_windows (recorded api) make_address to_string byte_dist options fresh_winsock rng s =
      Some (Inr lines, s')"
proof -
  let ?count = "opt_send_count options" and ?n = "opt_batch_size options" and ?api = "recorded api"
  let ?remote = "\<lparr>ep_address = dest, ep_port = opt_dest_port options\<rparr>"
  obtain info s1 where info: "resolve_uso_bind_address ?api make_address to_string (opt_source_address options) ?remote s =
      (Inr info, s1)"
    and bind: "info_bind_address info = opt_source_address options \<or> (\<exists>bytes. info_bind_address info = to_string bytes)"
    using resolve_ok [OF assms(4), where api = ?api and to_string = to_string and dest = ?remote and w = s] by blast
  obtain b where "parse_address make_address (info_bind_address info) = Inr (V4 b)"
    using bind assms(4,5) by metis
  from create_ok [OF sockets_ok_recorded [OF assms(2)] this] obtain sock ws' s2 where
    sock: "create_uso_udp_socket ?api make_address (info_bind_address info) fresh_winsock s1 = ((Inr sock, ws'), s2)"
    by blast
  obtain r s3 where "api_getsockname ?api sock s2 = (Inr r, s3)"
    using sockets_okD(6) [OF sockets_ok_recorded [OF assms(2)]] by blast
  then obtain bound where bound: "uso_socket_local_endpoint ?api sock s2 = (Inr bound :: 'e socket_error + endpoint, s3)"
    by (cases r) (simp add: uso_socket_local_endpoint_def)
  let ?send = "send_batch_windows ?api ?remote (ep_address bound) (info_interface_index info)
    (opt_no_pktinfo options) False (opt_mss options) :: _ \<Rightarrow> _ \<Rightarrow> (('e client_error + client_line) \<times> _) option"
  have rel: "reliable_sender ?send wire (opt_mss options) ?n" using assms(1,6,8) by (rule healthy_windows)
  obtain lines s4 where
    "client_batches ?send byte_dist ?count ?count 0 (replicate ?n 0) rng [] s3 = Some (Inr lines, s4)"
    using reliable_sender.batches_complete [OF rel, where batch = "replicate ?n 0" and i = 0 and
        k = ?count and count = ?count and byte_dist = byte_dist and rng = rng and lines = "[]" and w = s3]
      assms(7) by auto
  then show thesis
    using that assms(3,9) info sock bound by (simp add: run_client_windows_def client_run_def Let_def)
qed

subsection \<open>Properties\<close>

text \<open>
  C1. Client and server agree (Linux). Whenever the client completes and a server session ingests the
  bytes it sent, in order but cut into datagrams in any way, the session reports every batch
  accepted and none bad, lost, duplicated or out of order, in idle mode and with the client's
  \<open>--count\<close>. Batches that are all header are excluded.
\<close>

theorem linux_session_complete:
  assumes "run_client_linux make_address socket_fails (\<lambda>ep. logged (send_to ep)) byte_dist options rng (w, []) =
      Some (Inr lines, w', sent)"
    and "batch_size_ok (opt_batch_size options)" and "opt_batch_size options \<noteq> kPacketHeaderSize"
    and "0 < opt_send_count options"
    and "run_receive_loop pf soptions uro turns = SessionDone x rest" and "concat (received x) = concat sent"
    and "opt_batch_count soptions = None \<or> opt_batch_count soptions = Some (opt_send_count options)"
  shows "batches (stats (srv x)) = opt_send_count options \<and> bad_batches (stats (srv x)) = 0 \<and>
    lost (stats (srv x)) = 0 \<and> duplicates (stats (srv x)) = 0 \<and> out_of_order (stats (srv x)) = 0"
proof -
  obtain bs where bs: "client_built byte_dist options rng = Some bs"
    "sent = concat (map (chunks (opt_mss options)) bs)" using linux_sent [OF assms(1,2)] by auto
  from all_arrived [OF bs(1) assms(2-5) assms(6) [unfolded bs(2)] assms(7)]
  show ?thesis unfolding all_counted_def .
qed

text \<open>
  C8. Client and server agree (Windows). The same for the segmented send path, with any Winsock
  interface, any bind address selection and any sequence of fallback attempts, as long as a
  \<open>WSASendMsg\<close> that does not report all bytes has sent none.
\<close>

theorem windows_session_complete:
  assumes "run_client_windows (recorded api) make_address to_string byte_dist options ws rng s = Some (Inr lines, s')"
    and "wire s = []"
    and "batch_size_ok (opt_batch_size options)" and "opt_batch_size options \<noteq> kPacketHeaderSize"
    and "0 < opt_send_count options"
    and "run_receive_loop pf soptions uro turns = SessionDone x rest" and "concat (received x) = concat (wire s')"
    and "opt_batch_count soptions = None \<or> opt_batch_count soptions = Some (opt_send_count options)"
  shows "batches (stats (srv x)) = opt_send_count options \<and> bad_batches (stats (srv x)) = 0 \<and>
    lost (stats (srv x)) = 0 \<and> duplicates (stats (srv x)) = 0 \<and> out_of_order (stats (srv x)) = 0"
proof -
  obtain bs where bs: "client_built byte_dist options rng = Some bs"
    "wire s' = concat (map (chunks (opt_mss options)) bs)" using windows_sent [OF assms(1,3)] assms(2) by auto
  from all_arrived [OF bs(1) assms(3-6) assms(7) [unfolded bs(2)] assms(8)]
  show ?thesis unfolding all_counted_def .
qed

text \<open>
  C10. Both platforms put the same datagrams on the network: a Linux and a Windows client with the
  same options and the same random bytes that both complete have sent the same list of datagrams,
  each batch cut into pieces of \<open>--mss\<close> bytes and a shorter last one (as above, a \<open>WSASendMsg\<close> that
  does not report all bytes is taken to have sent none).
\<close>

theorem platforms_send_the_same:
  assumes "run_client_linux make_address socket_fails (\<lambda>ep. logged (send_to ep)) byte_dist options rng (w, []) =
      Some (Inr lines, w', sent)"
    and "run_client_windows (recorded api) make_address' to_string byte_dist options ws rng s = Some (Inr lines', s')"
    and "wire s = []" and "batch_size_ok (opt_batch_size options)"
  shows "wire s' = sent \<and>
    (\<exists>bs. client_built byte_dist options rng = Some bs \<and> sent = concat (map (chunks (opt_mss options)) bs))"
  using linux_sent [OF assms(1,4)] windows_sent [OF assms(2,4)] assms(3) by auto


text \<open>
  C36. On a network that takes every datagram the Linux client completes, for every option set the
  command line accepts with fewer than \<open>2 ^ 32\<close> batches: it sends each batch in
  \<open>ceil (size / mss)\<close> non-empty datagrams of at most \<open>mss\<close> bytes, or in one when \<open>mss\<close> is 0.
\<close>

theorem linux_client_completes:
  fixes make_address :: "string \<Rightarrow> 'e + ip_address"
  assumes "parse_address make_address (opt_dest_address options) = Inr dest"
    and "parse_address make_address (opt_source_address options) = Inr source"
    and "batch_size_ok (opt_batch_size options)" and "opt_send_count options < 2 ^ 32"
  shows "\<exists>lines w' sent. run_client_linux make_address None (\<lambda>ep. logged all_sent) byte_dist options rng (w, []) =
      Some (Inr lines, w', sent) \<and>
    length sent = datagrams_of options \<and>
    (\<forall>d \<in> set sent. d \<noteq> [] \<and> (opt_mss options \<noteq> 0 \<longrightarrow> length d \<le> opt_mss options))"
proof -
  obtain lines w' sent where r: "run_client_linux make_address None (\<lambda>ep. logged all_sent) byte_dist options rng (w, []) =
      Some (Inr lines, w', sent)" using ideal_client [OF assms] by metis
  obtain bs where bs: "client_built byte_dist options rng = Some bs" "sent = concat (map (chunks (opt_mss options)) bs)"
    using linux_sent [OF r assms(3)] by auto
  note all = sent_datagrams [OF bs(1) assms(3) bs(2)]
  show ?thesis using r all(1,2) by blast
qed

text \<open>
  C37. The Windows client completes as well, on a system where the socket calls and the sends succeed
  (without \<open>--completion-routine\<close>), whatever the interface lookups answer, and sends the same
  number of datagrams.
\<close>

theorem windows_client_completes:
  fixes make_address :: "string \<Rightarrow> 'e + ip_address"
  assumes "healthy api" and "sockets_ok api"
    and "parse_address make_address (opt_dest_address options) = Inr dest"
    and "parse_address make_address (opt_source_address options) = Inr (V4 source)"
    and "\<And>bytes. \<exists>b. parse_address make_address (to_string bytes) = Inr (V4 b)"
    and "batch_size_ok (opt_batch_size options)" and "opt_send_count options < 2 ^ 32"
    and "opt_mss options \<le> kUsoMaxSegmentSize" and "\<not> opt_completion_routine options" and "wire s = []"
  shows "\<exists>lines s'. run_client_windows (recorded api) make_address to_string byte_dist options fresh_winsock rng s =
      Some (Inr lines, s') \<and> length (wire s') = datagrams_of options \<and>
    (\<forall>d \<in> set (wire s'). d \<noteq> [] \<and> (opt_mss options \<noteq> 0 \<longrightarrow> length d \<le> opt_mss options))"
proof -
  obtain lines s' where r: "run_client_windows (recorded api) make_address to_string byte_dist options fresh_winsock rng s =
      Some (Inr lines, s')" by (rule healthy_client [OF assms(1-9)])
  obtain bs where bs: "client_built byte_dist options rng = Some bs"
    "wire s' = concat (map (chunks (opt_mss options)) bs)" using windows_sent [OF r assms(6)] assms(10) by auto
  show ?thesis using r sent_datagrams(1,2) [OF bs(1) assms(6) bs(2)] by blast
qed

text \<open>
  C38. The batch count is cast to 32 bits for the header. A client asked for \<open>2 ^ 32\<close> batches or more
  never completes, whatever the network does: with a count that is a multiple of \<open>2 ^ 32\<close> it fails
  on the first batch without sending anything.
\<close>

theorem client_count_overflow:
  assumes "2 ^ 32 \<le> opt_send_count options" and "batch_size_ok (opt_batch_size options)"
  shows "client_run send byte_dist options rng w \<noteq> Some (Inr lines, w') \<and>
    (opt_send_count options mod 2 ^ 32 = 0 \<longrightarrow>
       client_run send byte_dist options rng w = Some (Inl (BuildFailed InvalidSeqBatchTotal), w))"
proof
  show "client_run send byte_dist options rng w \<noteq> Some (Inr lines, w')"
  proof
    assume "client_run send byte_dist options rng w = Some (Inr lines, w')"
    then obtain bs where "client_built byte_dist options rng = Some bs"
      using client_run_batches client_batches_built by (fastforce simp: client_built_def)
    from client_built_ok(2) [OF this assms(2)] assms(1) show False by simp
  qed
  show "opt_send_count options mod 2 ^ 32 = 0 \<longrightarrow>
      client_run send byte_dist options rng w = Some (Inl (BuildFailed InvalidSeqBatchTotal), w)"
  proof
    assume "opt_send_count options mod 2 ^ 32 = 0"
    then have "(of_nat (opt_send_count options) :: u32) = 0"
      by (simp add: word_of_nat_eq_0_iff dvd_eq_mod_eq_0)
    moreover obtain k where "opt_send_count options = Suc k"
      using assms(1) by (cases "opt_send_count options") auto
    ultimately show "client_run send byte_dist options rng w = Some (Inl (BuildFailed InvalidSeqBatchTotal), w)"
      using assms(2) by (simp add: client_run_def build_batch_def batch_size_ok_def)
  qed
qed

subsection \<open>Sample runs\<close>

definition sample_client :: "nat \<Rightarrow> client_options" where
  "sample_client mss = default_client_options\<lparr>opt_dest_address := ''*'', opt_dest_port := 5000,
     opt_batch_size := 30, opt_send_count := 3, opt_mss := mss\<rparr>"

definition sample_random :: "nat \<Rightarrow> int \<times> nat" where
  "sample_random g = (int g mod 256, g + 1)"

lemma sample_client_simps [simp]:
  "opt_batch_size (sample_client mss) = 30" "opt_send_count (sample_client mss) = 3"
  "opt_mss (sample_client mss) = mss" "opt_source_address (sample_client mss) = ''0.0.0.0''"
  "opt_dest_address (sample_client mss) = ''*''" "batch_size_ok 30"
  by (simp_all add: sample_client_def default_client_options_def batch_size_ok_def packet_consts)

lemma sample_address [simp]:
  "parse_address m ''*'' = Inr (V4 [0, 0, 0, 0])" "parse_address m ''0.0.0.0'' = Inr (V4 [0, 0, 0, 0])"
  by (simp_all add: parse_address_def numeral_eq_Suc)

text \<open>A Linux client on the ideal network, and a server that gets what it sent.\<close>

lemma sample_pair:
  obtains lines w' sent x where
    "run_client_linux (\<lambda>_. Inl ()) None (\<lambda>ep. logged all_sent) sample_random (sample_client mss) 0 ((), []) =
       Some (Inr lines, w', sent)"
    and "run_receive_loop Linux (sample_options None) False (map arrival sent @ [silent_turn]) = SessionDone x []"
    and "received x = sent" and "sent \<noteq> []"
proof -
  obtain lines w' sent where r: "run_client_linux (\<lambda>_. Inl ()) None (\<lambda>ep. logged all_sent) sample_random
      (sample_client mss) 0 ((), []) = Some (Inr lines, w', sent)" "sent \<noteq> []"
    by (rule ideal_client [where make_address = "\<lambda>_. Inl ()" and options = "sample_client mss"
          and byte_dist = sample_random and rng = 0 and w = "()"]) simp_all
  from session_exists [OF r(2)] r that show thesis by blast
qed

theorem linux_session_complete_witness:
  "\<exists>lines w' sent x.
     run_client_linux (\<lambda>_. Inl ()) None (\<lambda>ep. logged all_sent) sample_random (sample_client 8) 0 ((), []) =
       Some (Inr lines, w', sent) \<and>
     run_receive_loop Linux (sample_options None) False (map arrival sent @ [silent_turn]) = SessionDone x [] \<and>
     batches (stats (srv x)) = 3 \<and> bad_batches (stats (srv x)) = 0 \<and> lost (stats (srv x)) = 0"
proof -
  obtain lines w' sent x where
    r: "run_client_linux (\<lambda>_. Inl ()) None (\<lambda>ep. logged all_sent) sample_random (sample_client 8) 0 ((), []) =
       Some (Inr lines, w', sent)"
    "run_receive_loop Linux (sample_options None) False (map arrival sent @ [silent_turn]) = SessionDone x []"
    "received x = sent" by (rule sample_pair)
  have "batches (stats (srv x)) = opt_send_count (sample_client 8) \<and> bad_batches (stats (srv x)) = 0 \<and>
      lost (stats (srv x)) = 0 \<and> duplicates (stats (srv x)) = 0 \<and> out_of_order (stats (srv x)) = 0"
    by (rule linux_session_complete [OF r(1) _ _ _ r(2)]) (simp_all add: r(3) kPacketHeaderSize_def)
  with r show ?thesis by auto
qed


theorem linux_client_completes_witness:
  "\<exists>lines w' sent.
     run_client_linux (\<lambda>_. Inl ()) None (\<lambda>ep. logged all_sent) sample_random (sample_client 8) 0 ((), []) =
       Some (Inr lines, w', sent) \<and> length sent = 12 \<and> (\<forall>d \<in> set sent. d \<noteq> [] \<and> length d \<le> 8)"
  using linux_client_completes [where make_address = "\<lambda>_. Inl ()" and options = "sample_client 8"
      and byte_dist = sample_random and rng = 0 and w = "()"] by (simp add: datagrams_of_def)

theorem client_count_overflow_witness:
  "client_run (send_batch_fallback (logged all_sent) 0) sample_random
     ((sample_client 0)\<lparr>opt_send_count := 2 ^ 32\<rparr>) 0 ((), []) =
   Some (Inl (BuildFailed InvalidSeqBatchTotal :: unit client_error), (), [])"
  using client_count_overflow [where options = "(sample_client 0)\<lparr>opt_send_count := 2 ^ 32\<rparr>"
      and send = "send_batch_fallback (logged all_sent) 0 :: byte list \<Rightarrow> _ \<Rightarrow> ((unit client_error + client_line) \<times> _) option"
      and byte_dist = sample_random and rng = 0 and w = "((), [])"] by simp

text \<open>A Winsock that takes everything, and a Windows client on it.\<close>

definition sample_winsock :: "unit uso_api" where
  "sample_winsock =
     \<lparr>api_set_send_size = None,
      api_setsockopt_send_size = (\<lambda>n w. (None, w)),
      api_sendmsg_available = True,
      api_wsasendmsg = (\<lambda>msg w. (Inr (of_nat (length (msg_buffer msg))), w)),
      api_wsasendmsg_overlapped = (\<lambda>msg w. ((StartError WSA_IO_PENDING, None), w)),
      api_sleep_ex = (\<lambda>w. (None, w)),
      api_sendto = (\<lambda>d len dest dest_len w. (Inr (int (length d)), w)),
      api_startup = (\<lambda>w. (True, w)),
      api_socket = (\<lambda>w. (Inr 3, w)),
      api_set_reuseaddr = (\<lambda>k w. (None, w)),
      api_set_sndbuf = (\<lambda>k w. (None, w)),
      api_bind = (\<lambda>k a w. (None, w)),
      api_getsockname = (\<lambda>k w. (Inr (0, [10, 0, 0, 1]), w)),
      api_closesocket = (\<lambda>k w. w),
      api_best_interface = (\<lambda>a w. (None, w)),
      api_adapters = (\<lambda>n w. (AdaptersError, w))\<rparr>"

lemma sample_winsock_ok [simp]: "healthy sample_winsock" "sockets_ok sample_winsock"
  by (simp_all add: healthy_def sockets_ok_def sample_winsock_def configure_udp_send_segment_size_def)

definition sample_parse :: "string \<Rightarrow> unit + ip_address" where
  "sample_parse text = Inr (V4 [10, 0, 0, 1])"

lemma sample_parse_v4 [simp]: "parse_address sample_parse ''10.0.0.1'' = Inr (V4 [10, 0, 0, 1])"
  by (simp add: parse_address_def sample_parse_def)

definition sample_recorder :: "unit recorder" where
  "sample_recorder = \<lparr>sys = (), sends = [], in_flight = None\<rparr>"

lemma sample_client_flags [simp]: "\<not> opt_completion_routine (sample_client mss)"
  by (simp add: sample_client_def default_client_options_def)

lemma sample_windows:
  assumes "mss \<le> kUsoMaxSegmentSize"
  obtains lines s' where "run_client_windows (recorded sample_winsock) sample_parse (\<lambda>_. ''10.0.0.1'') sample_random
      (sample_client mss) fresh_winsock 0 sample_recorder = Some (Inr lines, s')"
  by (rule healthy_client [where api = sample_winsock and make_address = sample_parse and to_string = "\<lambda>_. ''10.0.0.1''"
        and options = "sample_client mss" and byte_dist = sample_random and rng = 0 and s = sample_recorder])
    (use assms in simp_all)

theorem windows_client_completes_witness:
  "\<exists>lines s'. run_client_windows (recorded sample_winsock) sample_parse (\<lambda>_. ''10.0.0.1'') sample_random
      (sample_client 8) fresh_winsock 0 sample_recorder = Some (Inr lines, s') \<and> length (wire s') = 12"
proof -
  have "\<exists>lines s'. run_client_windows (recorded sample_winsock) sample_parse (\<lambda>_. ''10.0.0.1'') sample_random
      (sample_client 8) fresh_winsock 0 sample_recorder = Some (Inr lines, s') \<and>
      length (wire s') = datagrams_of (sample_client 8) \<and>
      (\<forall>d \<in> set (wire s'). d \<noteq> [] \<and> (opt_mss (sample_client 8) \<noteq> 0 \<longrightarrow> length d \<le> opt_mss (sample_client 8)))"
    by (rule windows_client_completes [where dest = "V4 [0, 0, 0, 0]" and source = "[0, 0, 0, 0]"])
      (simp_all add: kUsoMaxSegmentSize_def sample_recorder_def)
  then show ?thesis by (auto simp: datagrams_of_def)
qed

theorem windows_session_complete_witness:
  "\<exists>lines s' x. run_client_windows (recorded sample_winsock) sample_parse (\<lambda>_. ''10.0.0.1'') sample_random
      (sample_client 8) fresh_winsock 0 sample_recorder = Some (Inr lines, s') \<and>
     run_receive_loop Linux (sample_options None) False (map arrival (wire s') @ [silent_turn]) = SessionDone x [] \<and>
     batches (stats (srv x)) = 3 \<and> bad_batches (stats (srv x)) = 0 \<and> lost (stats (srv x)) = 0"
proof -
  obtain lines s' where r: "run_client_windows (recorded sample_winsock) sample_parse (\<lambda>_. ''10.0.0.1'') sample_random
      (sample_client 8) fresh_winsock 0 sample_recorder = Some (Inr lines, s')"
    by (rule sample_windows [of 8]) (simp add: kUsoMaxSegmentSize_def)
  have w: "wire sample_recorder = []" by (simp add: sample_recorder_def)
  obtain bs where "client_built sample_random (sample_client 8) 0 = Some bs"
    "wire s' = concat (map (chunks (opt_mss (sample_client 8))) bs)" using windows_sent [OF r] w by auto
  from sent_datagrams(3) [OF this(1) _ this(2)] have "wire s' \<noteq> []" by simp
  from session_exists [OF this] obtain x where
    x: "run_receive_loop Linux (sample_options None) False (map arrival (wire s') @ [silent_turn]) = SessionDone x []"
      "received x = wire s'" by blast
  have "batches (stats (srv x)) = opt_send_count (sample_client 8) \<and> bad_batches (stats (srv x)) = 0 \<and>
      lost (stats (srv x)) = 0 \<and> duplicates (stats (srv x)) = 0 \<and> out_of_order (stats (srv x)) = 0"
    by (rule windows_session_complete [OF r w _ _ _ x(1)]) (simp_all add: x(2) kPacketHeaderSize_def)
  with r x show ?thesis by auto
qed

theorem platforms_send_the_same_witness:
  "\<exists>lines lines' w' sent s'.
     run_client_linux (\<lambda>_. Inl ()) None (\<lambda>ep. logged all_sent) sample_random (sample_client 8) 0 ((), []) =
       Some (Inr lines, w', sent) \<and>
     run_client_windows (recorded sample_winsock) sample_parse (\<lambda>_. ''10.0.0.1'') sample_random
       (sample_client 8) fresh_winsock 0 sample_recorder = Some (Inr lines', s') \<and> wire s' = sent"
proof -
  obtain lines w' sent x where
    l: "run_client_linux (\<lambda>_. Inl ()) None (\<lambda>ep. logged all_sent) sample_random (sample_client 8) 0 ((), []) =
       Some (Inr lines, w', sent)" by (rule sample_pair)
  obtain lines' s' where r: "run_client_windows (recorded sample_winsock) sample_parse (\<lambda>_. ''10.0.0.1'') sample_random
      (sample_client 8) fresh_winsock 0 sample_recorder = Some (Inr lines', s')"
    by (rule sample_windows [of 8]) (simp add: kUsoMaxSegmentSize_def)
  have "wire sample_recorder = []" by (simp add: sample_recorder_def)
  from platforms_send_the_same [OF l r this] l r show ?thesis by auto
qed

end
