(* ===== verification/Send_Properties.thy ===== *)
theory Send_Properties
  imports End_To_End
begin

section \<open>Properties of the two send paths\<close>

text \<open>
  What one batch asks of the network on each platform, the outcome of an overlapped send, and the
  ownership of the socket.
\<close>

text \<open>
  C35. The Linux send, on any network: it hands over the pieces of the batch in order, all of them on
  success with their true number in the report, and on an error those up to the one that failed.
\<close>

theorem fallback_sends_pieces:
  "case (send_batch_fallback (logged send_to) mss b (w, log)
      :: (('e client_error + client_line) \<times> _) option) of
    Some (Inr line, w', log') \<Rightarrow> log' = log @ chunks mss b \<and>
      line = (if mss = 0 then LinePlain (length b)
              else LineSent (length b) ((length b + mss - 1) div mss) mss)
  | Some (Inl e, w', log') \<Rightarrow> \<exists>j < length (chunks mss b). log' = log @ take (Suc j) (chunks mss b)
  | None \<Rightarrow> False"
  by (rule send_batch_fallback_log)



text \<open>A Winsock whose first \<open>WSASendMsg\<close> reports two bytes only, and whose third sleep runs the routine.\<close>

definition slow_winsock :: "nat uso_api" where
  "slow_winsock = (lift_api (\<lambda>_. ()) (\<lambda>_ n. n) sample_winsock)
     \<lparr>api_wsasendmsg := (\<lambda>msg n. (Inr (if n = 0 then 2 else of_nat (length (msg_buffer msg))), n + 1)),
      api_sleep_ex := (\<lambda>n. (if n = 2 then Some (0, 5) else None, n + 1))\<rparr>"


text \<open>
  C39. The outcome of an overlapped \<open>WSASendMsg\<close>. It does not return exactly when the send is pending
  and no alertable sleep ever runs the completion routine. Otherwise a send that is accepted at once
  succeeds, with the bytes the routine was given if it has run and those of the call if not; one that
  is refused fails with its error; and a pending one takes the error and the bytes of the first run of
  the routine, after which it does not sleep again.
\<close>

theorem overlapped_send_outcome:
  "(case api_wsasendmsg_overlapped api msg w of
      ((rc, c), w1) \<Rightarrow>
        invoke_wsasendmsg api msg True w = None \<longleftrightarrow>
          rc = StartError WSA_IO_PENDING \<and> c = None \<and>
          (\<forall>k. fst (api_sleep_ex api (after_sleeps (api_sleep_ex api) k w1)) = None)) \<and>
   (invoke_wsasendmsg api msg True w = Some ((ok, n, err), w') \<longleftrightarrow>
     (case api_wsasendmsg_overlapped api msg w of
        ((StartedOk sync_bytes, c), w1) \<Rightarrow>
          ok \<and> n = (case c of Some (_, m) \<Rightarrow> m | None \<Rightarrow> sync_bytes) \<and> err = 0 \<and> w' = w1
      | ((StartError e, c), w1) \<Rightarrow>
          if e \<noteq> WSA_IO_PENDING then \<not> ok \<and> n = 0 \<and> err = e \<and> w' = w1
          else \<exists>error m. first_completion (api_sleep_ex api) c w1 (error, m) w' \<and>
            (if error = 0 then ok \<and> n = m \<and> err = e else \<not> ok \<and> n = 0 \<and> err = sint error)))"
  by (rule conjI, subst invoke_overlapped_None, simp add: split_beta, rule invoke_overlapped)

theorem overlapped_send_outcome_witness:
  "\<forall>msg. invoke_wsasendmsg slow_winsock msg True 0 = Some ((True, 5, 997), 3)"
proof
  fix msg
  let ?sleep = "api_sleep_ex slow_winsock"
  have "first_completion ?sleep None 0 (0, 5) 3"
    unfolding first_completion_def
    by (simp only: option.case, rule exI [of _ 2])
      (simp add: slow_winsock_def numeral_2_eq_2 All_less_Suc2)
  moreover have "api_wsasendmsg_overlapped slow_winsock msg 0 = ((StartError WSA_IO_PENDING, None), 0)"
    by (simp add: slow_winsock_def lift_api_def lift_call_def sample_winsock_def)
  ultimately show "invoke_wsasendmsg slow_winsock msg True 0 = Some ((True, 5, 997), 3)"
    using overlapped_send_outcome [of slow_winsock msg 0 True 5 997 3]
    by (force simp: WSA_IO_PENDING_def)
qed

subsection \<open>Sockets\<close>

text \<open>The interface with the list of sockets opened and closed.\<close>

definition tracked :: "'w uso_api \<Rightarrow> ('w \<times> nat list \<times> nat list) uso_api" where
  "tracked api = (lift_api fst (\<lambda>w (_, l). (w, l)) api)
     \<lparr>api_socket := (\<lambda>(w, opened, closed). let (r, w') = api_socket api w in
        (r, w', case r of Inr sock \<Rightarrow> opened @ [sock] | Inl _ \<Rightarrow> opened, closed)),
      api_closesocket := (\<lambda>sock (w, opened, closed). (api_closesocket api sock w, opened, closed @ [sock]))\<rparr>"

lemma tracked_call [simp]:
  "api_startup (tracked api) (w, l) = map_prod id (\<lambda>v. (v, l)) (api_startup api w)"
  "api_set_reuseaddr (tracked api) k (w, l) = map_prod id (\<lambda>v. (v, l)) (api_set_reuseaddr api k w)"
  "api_set_sndbuf (tracked api) k (w, l) = map_prod id (\<lambda>v. (v, l)) (api_set_sndbuf api k w)"
  "api_bind (tracked api) k a (w, l) = map_prod id (\<lambda>v. (v, l)) (api_bind api k a w)"
  "api_closesocket (tracked api) k (w, os, cs) = (api_closesocket api k w, os, cs @ [k])"
  "api_socket (tracked api) (w, os, cs) = map_prod id
     (\<lambda>v. (v, case fst (api_socket api w) of Inr sock \<Rightarrow> os @ [sock] | Inl _ \<Rightarrow> os, cs)) (api_socket api w)"
  by (simp_all add: tracked_def lift_api_def lift_call_def Let_def split_beta prod_eq_iff split: sum.split)

lemma tracked_startup:
  "\<exists>ok ws' w'. ensure_winsock_initialized (tracked api) ws (w, l) = ((ok, ws'), w', l)"
  by (simp add: ensure_winsock_initialized_def Let_def split_beta)

text \<open>
  C40. \<open>create_uso_udp_socket\<close> opens at most one socket. It hands it to the caller on success and
  closes it on every error after opening it but one: with a bind address that cannot be parsed the
  exception leaves it open.
\<close>

theorem socket_ownership:
  "case create_uso_udp_socket (tracked api) make_address addr ws (w, [], []) of
     ((r, ws'), w', opened, closed) \<Rightarrow>
       (case r of
          Inr sock \<Rightarrow> opened = [sock] \<and> closed = []
        | Inl (BindAddressInvalid e) \<Rightarrow> length opened = 1 \<and> closed = []
        | Inl e \<Rightarrow> closed = opened \<and> length opened \<le> 1)"
proof -
  obtain ok ws1 w1 where 1: "ensure_winsock_initialized (tracked api) ws (w, [], []) = ((ok, ws1), w1, [], [])"
    using tracked_startup [of api ws w "([], [])"] by blast
  note defs = create_uso_udp_socket_def 1
  obtain r w2 where 2: "api_socket api w1 = (r, w2)" by fastforce
  show ?thesis
  proof (cases "ok \<and> \<not> isl r")
    case False
    then show ?thesis by (cases r) (auto simp: defs 2)
  next
    case True
    then obtain sock where ok: ok and r: "r = Inr sock" by (cases r) auto
    obtain e3 w3 where 3: "api_set_reuseaddr api sock w2 = (e3, w3)" by fastforce
    obtain e4 w4 where 4: "api_set_sndbuf api sock w3 = (e4, w4)" by fastforce
    note defs = defs ok 2 r 3 4
    show ?thesis
    proof (cases "e3 = None \<and> e4 = None")
      case False
      then show ?thesis by (cases e3; cases e4) (simp_all add: defs)
    next
      case True
      then have e: "e3 = None" "e4 = None" by simp_all
      show ?thesis
      proof (cases "parse_address make_address addr")
        case (Inl err)
        then show ?thesis by (simp add: defs e)
      next
        case (Inr a)
        show ?thesis
        proof (cases a)
          case (V6 bytes scope)
          then show ?thesis by (simp add: defs e Inr)
        next
          case (V4 bytes)
          then show ?thesis
            by (cases "api_bind api sock (SaIn 0 bytes) w4"; cases "fst (api_bind api sock (SaIn 0 bytes) w4)")
              (simp_all add: defs e Inr)
        qed
      qed
    qed
  qed
qed

end
