(* ===== verification/Segment_Report.thy ===== *)
theory Segment_Report
  imports Client_Correct Reassembly_Correct
begin

section \<open>The segment size the server reports\<close>

text \<open>
  With \<open>-v\<close> the server prints for each batch the segment size it has inferred from the slices the
  batch came in. Here the slices are computed for a batch that arrives as the client cut it, datagram
  by datagram, and the inferred size is compared with the sender's \<open>--mss\<close>.
\<close>

subsection \<open>A batch being collected\<close>

definition between_batches :: "u32 \<Rightarrow> server_state \<Rightarrow> bool" where
  "between_batches t s \<longleftrightarrow> reasm s = init_reassembly \<and>
     (wire_batch_total (stats s) = None \<or> wire_batch_total (stats s) = Some t)"

definition collecting :: "u32 \<Rightarrow> byte list \<Rightarrow> nat \<Rightarrow> nat list \<Rightarrow> server_state \<Rightarrow> bool" where
  "collecting t b f sizes s \<longleftrightarrow>
     reasm s = \<lparr>buffer = take f b @ replicate (length b - f) 0, filled = f, expected = length b,
       active = True, fragment_sizes = sizes\<rparr> \<and>
     wire_batch_total (stats s) = Some t"

text \<open>The lines a batch adds to the output.\<close>

definition opened_line :: "byte list \<Rightarrow> log_line" where
  "opened_line b = LogReassemble (hdr_seq (read_header b)) (hdr_batch_total (read_header b)) 20 (length b)"

definition accepted_line :: "byte list \<Rightarrow> nat list \<Rightarrow> log_line" where
  "accepted_line b sizes =
     LogOk (hdr_seq (read_header b)) (hdr_batch_total (read_header b)) (length b)
       (if 1 < length sizes then Some (infer_detected_mss sizes, length sizes) else None)"

lemma clean_batch_facts:
  assumes "clean_batch t b"
  shows "peek_batch_length b = hdr_length (read_header b)" "peek_batch_length b \<noteq> 0"
    "unat (hdr_length (read_header b)) = length b" "20 < length b" "length b \<le> 65536"
    "header_meta_plausible (hdr_seq (read_header b)) (hdr_batch_total (read_header b)) (hdr_length (read_header b))"
    "hdr_batch_total (read_header b) = t" "validate_batch b = Valid"
proof -
  have v: "validate_batch b = Valid" "hdr_batch_total (read_header b) = t" "20 < length b"
    using assms by (simp_all add: clean_batch_def)
  note f = v(1) [unfolded validate_batch_Valid_iff]
  show m: "header_meta_plausible (hdr_seq (read_header b)) (hdr_batch_total (read_header b)) (hdr_length (read_header b))"
    unfolding header_meta_plausible_iff using f by presburger
  show nz: "peek_batch_length b \<noteq> 0" unfolding peek_batch_length_nz using f m by blast
  show "peek_batch_length b = hdr_length (read_header b)" by (rule peek_batch_length_eq [OF nz])
  show "unat (hdr_length (read_header b)) = length b" "length b \<le> 65536" using f by blast+
qed (use assms in \<open>simp_all add: clean_batch_def\<close>)

lemma open_round:
  assumes "clean_batch t b" and "between_batches t s" and "20 < m"
  shows "\<exists>s'. ingest_inactive v (take m b) s = Continues (drop 20 (take m b)) s' \<and>
    collecting t b 20 [] s' \<and> out s' = out s @ (if v then [opened_line b] else []) \<and> stats s' = (stats s)\<lparr>wire_batch_total := Some t\<rparr>"
proof -
  note c = clean_batch_facts [OF assms(1)]
  let ?d = "take m b" and ?h = "read_header b"
  have ld: "20 \<le> length ?d" using assms(3) c(4) by simp
  have t20: "take 20 ?d = take 20 b" using assms(3) by (simp add: min_def)
  have pd: "peek_batch_length ?d \<noteq> 0"
    using peek_batch_length_take20 [OF ld] peek_batch_length_take20 [of b] c(2,4) t20 by simp
  have al: "find_batch_header_offset ?d = 0" "?d \<noteq> []"
    using ld pd by (auto simp: find_batch_header_offset_unfold [of ?d])
  have p20: "peek_batch_length (take 20 b) = hdr_length ?h" "read_header (take 20 b) = ?h"
    using peek_batch_length_take20 [of b] c(1,4) read_header_take [of 20 b] by simp_all
  have nz: "hdr_length ?h \<noteq> 0" using c(1,2) by simp
  have r: "buffer (reasm s) = []" "reasm s = init_reassembly"
    using assms(2) by (simp_all add: between_batches_def init_reassembly_def)
  have ses: "validate_batch_session ?h (wire_batch_total (stats s)) = (Valid, Some t)"
    using assms(2) c(6,7) by (auto simp: validate_batch_session_def between_batches_def)
  have fh: "fill_header [] ?d = (take 20 b, drop 20 ?d)" by (simp add: fill_header_eq t20 [simplified])
  have "ingest_inactive v ?d s = hunt_header v ?d s" using al r ld by (auto simp: ingest_inactive_def Let_def)
  moreover have "\<exists>s'. hunt_header v ?d s = Continues (drop 20 ?d) s' \<and> collecting t b 20 [] s' \<and>
      out s' = out s @ (if v then [opened_line b] else []) \<and> stats s' = (stats s)\<lparr>wire_batch_total := Some t\<rparr>"
    using c(3-5,7) fh r nz ses p20
    by (auto simp: hunt_header_def collecting_def opened_line_def kPacketHeaderSize_def kMaxBatchSize_def
        Let_def init_reassembly_def say_def set_wire_def)
  ultimately show ?thesis by simp
qed

lemma collect_round:
  assumes "clean_batch t b" and "collecting t b f sizes s" and "20 \<le> f" and "f \<le> length b"
    and "0 < n" and "f + n < length b"
  shows "\<exists>s'. ingest_active ing v (take n (drop f b)) s = Inr ([], s') \<and>
    collecting t b (f + n) (sizes @ [n]) s' \<and> out s' = out s"
proof -
  have "length (take n (drop f b)) = n" using assms(6) by simp
  moreover have "take f b @ take n (drop f b) = take (f + n) b" by (simp add: take_add)
  ultimately show ?thesis
    using assms(2-6) by (simp add: ingest_active_def collecting_def Let_def)
qed

lemma complete_round:
  assumes "clean_batch t b" and "collecting t b f sizes s" and "20 \<le> f" and "f < length b"
  shows "\<exists>s'. ingest_active ing v (drop f b) s = Inr ([], s') \<and> between_batches t s' \<and>
    wire_batch_total (stats s') = Some t \<and>
    out s' = out s @ (if v then [accepted_line b (sizes @ [length b - f])] else [])"
proof -
  note c = clean_batch_facts [OF assms(1)]
  let ?h = "read_header b"
  have ses: "validate_batch_session ?h (Some t) = (Valid, Some t)"
    using c(6,7) by (simp add: validate_batch_session_def)
  have h: "read_header (take 20 b) = ?h" by (simp add: read_header_take)
  have "ingest_active ing v (drop f b) s =
      (let r' = (reasm s)\<lparr>fragment_sizes := sizes @ [length b - f], buffer := b, filled := length b\<rparr>
       in case try_complete_batch ing v (s\<lparr>reasm := r'\<rparr>) of Inl e \<Rightarrow> Inl e | Inr (ok, s'') \<Rightarrow> Inr ([], s''))"
    using assms(2-4) by (simp add: ingest_active_def collecting_def Let_def split: sum.split prod.split)
  moreover have "wire_batch_total (count_batch st q) = wire_batch_total st" for st q
    by (simp add: count_batch_def track_sequence_def Let_def)
  ultimately show ?thesis
    using assms(2-4) c(4,7,8) ses h
    by (simp add: try_complete_batch_def collecting_def between_batches_def kPacketHeaderSize_def Let_def
        say_def set_wire_def reset_server_def reset_reassembly_def init_reassembly_def ok_line_def accepted_line_def)
qed

subsection \<open>A datagram at a time\<close>

lemma ingest_fuel_ge: "data \<noteq> [] \<Longrightarrow> \<exists>k. ingest_fuel data s = Suc (Suc (Suc k))"
proof -
  assume "data \<noteq> []"
  then obtain m where m: "length data = Suc m" by (cases data) auto
  define n where "n = length (buffered (reasm s)) + length data"
  have "1 \<le> n * n" using m by (simp add: n_def)
  then have "3 \<le> ingest_fuel data s" using m by (simp add: ingest_fuel_def Let_def n_def)
  then show ?thesis by (metis add_Suc le_Suc_ex numeral_3_eq_3 plus_nat.add_0)
qed

lemma collecting_active: "collecting t b f sizes s \<Longrightarrow> active (reasm s)"
  by (simp add: collecting_def)

lemma collecting_fragment [simp]:
  "collecting t b f sizes (add_fragment s) = collecting t b f sizes s"
  "between_batches t (add_fragment s) = between_batches t s" "out (add_fragment s) = out s"
  by (simp_all add: collecting_def between_batches_def add_fragment_def)

lemma ingest_more:
  assumes "clean_batch t b" and "collecting t b f sizes s" and "20 \<le> f" and "0 < n" and "f + n < length b"
  shows "\<exists>s'. ingest_fragment v (take n (drop f b)) s = Inr s' \<and> collecting t b (f + n) (sizes @ [n]) s' \<and>
    out s' = out s"
proof -
  let ?d = "take n (drop f b)"
  have ne: "?d \<noteq> []" using assms(4,5) by simp
  obtain k where k: "ingest_fuel ?d s = Suc (Suc (Suc k))" using ingest_fuel_ge [OF ne] by blast
  have le: "f \<le> length b" using assms(5) by simp
  obtain s' where "ingest_active (\<lambda>carry s'. ingest_loop (Suc (Suc k)) v carry (add_fragment s')) v ?d (add_fragment s) =
      Inr ([], s')" "collecting t b (f + n) (sizes @ [n]) s'" "out s' = out s"
    using collect_round [OF assms(1) _ assms(3) le assms(4,5), of sizes "add_fragment s"] assms(2) by auto
  then show ?thesis
    using ne k collecting_active [of t b f sizes "add_fragment s"] assms(2) by (simp add: ingest_fragment_def)
qed

lemma ingest_last:
  assumes "clean_batch t b" and "collecting t b f sizes s" and "20 \<le> f" and "f < length b"
  shows "\<exists>s'. ingest_fragment v (drop f b) s = Inr s' \<and> between_batches t s' \<and>
    out s' = out s @ (if v then [accepted_line b (sizes @ [length b - f])] else [])"
proof -
  let ?d = "drop f b"
  have ne: "?d \<noteq> []" using assms(4) by simp
  obtain k where k: "ingest_fuel ?d s = Suc (Suc (Suc k))" using ingest_fuel_ge [OF ne] by blast
  obtain s' where "ingest_active (\<lambda>carry s'. ingest_loop (Suc (Suc k)) v carry (add_fragment s')) v ?d (add_fragment s) =
      Inr ([], s')" "between_batches t s'" "out s' = out s @ (if v then [accepted_line b (sizes @ [length b - f])] else [])"
    using complete_round [OF assms(1) _ assms(3,4), of sizes "add_fragment s"] assms(2)
    by (metis collecting_fragment(1,3))
  then show ?thesis
    using ne k collecting_active [of t b f sizes "add_fragment s"] assms(2) by (simp add: ingest_fragment_def)
qed

lemma ingest_first:
  assumes "clean_batch t b" and "between_batches t s" and "20 < m"
  shows "m < length b \<Longrightarrow> \<exists>s'. ingest_fragment v (take m b) s = Inr s' \<and> collecting t b m [m - 20] s' \<and>
      out s' = out s @ (if v then [opened_line b] else [])"
    and "length b \<le> m \<Longrightarrow> \<exists>s'. ingest_fragment v b s = Inr s' \<and> between_batches t s' \<and>
      out s' = out s @ (if v then [opened_line b, accepted_line b [length b - 20]] else [])"
proof -
  have n: "20 < length b" by (rule clean_batch_facts(4) [OF assms(1)])
  let ?d = "take m b"
  have ne: "?d \<noteq> []" using n assms(3) by auto
  obtain k where k: "ingest_fuel ?d s = Suc (Suc (Suc k))" using ingest_fuel_ge [OF ne] by blast
  obtain s1 where s1: "ingest_inactive v ?d (add_fragment s) = Continues (drop 20 ?d) s1"
    "collecting t b 20 [] s1" "out s1 = out s @ (if v then [opened_line b] else [])"
    using open_round [OF assms(1) _ assms(3), of "add_fragment s"] assms(2) by (metis collecting_fragment(2,3))
  have na: "\<not> active (reasm (add_fragment s))"
    using assms(2) by (simp add: between_batches_def init_reassembly_def add_fragment_def)
  have nd: "drop 20 ?d \<noteq> []" using n assms(3) by simp
  let ?ing = "\<lambda>carry s'. ingest_loop (Suc k) v carry (add_fragment s')"
  have go: "ingest_fragment v ?d s = (case ingest_active ?ing v (drop 20 ?d) s1 of
      Inl e \<Rightarrow> Inl e | Inr (rest', s') \<Rightarrow> ingest_loop (Suc k) v rest' s')"
    using ne nd k na s1(1) collecting_active [OF s1(2)] by (simp add: ingest_fragment_def)
  show "\<exists>s'. ingest_fragment v ?d s = Inr s' \<and> collecting t b m [m - 20] s' \<and>
      out s' = out s @ (if v then [opened_line b] else [])" if m: "m < length b"
  proof -
    have d: "drop 20 ?d = take (m - 20) (drop 20 b)" by (simp add: drop_take)
    have "20 \<le> length b" "0 < m - 20" "20 + (m - 20) < length b" using m assms(3) by simp_all
    from collect_round [OF assms(1) s1(2) order_refl this, of ?ing v] obtain s' where
      "ingest_active ?ing v (drop 20 ?d) s1 = Inr ([], s')" "collecting t b m [m - 20] s'" "out s' = out s1"
      using assms(3) unfolding d by auto
    then show ?thesis using go s1(3) by simp
  qed
  show "\<exists>s'. ingest_fragment v b s = Inr s' \<and> between_batches t s' \<and>
      out s' = out s @ (if v then [opened_line b, accepted_line b [length b - 20]] else [])" if m: "length b \<le> m"
  proof -
    have d: "?d = b" using m by simp
    obtain s' where "ingest_active ?ing v (drop 20 b) s1 = Inr ([], s')" "between_batches t s'"
      "out s' = out s1 @ (if v then [accepted_line b ([] @ [length b - 20])] else [])"
      using complete_round [OF assms(1) s1(2) order_refl n, of ?ing v] by blast
    then show ?thesis using go s1(3) unfolding d by simp
  qed
qed

subsection \<open>A batch as the client cuts it\<close>

definition slice_sizes :: "nat \<Rightarrow> 'a list \<Rightarrow> nat list" where
  "slice_sizes m xs = (case map length (chunks m xs) of [] \<Rightarrow> [] | l # ls \<Rightarrow> (l - 20) # ls)"

lemma ingest_pieces:
  assumes "clean_batch t b" and "collecting t b f sizes s" and "20 \<le> f" and "f < length b" and "0 < m"
  shows "\<exists>s'. run_steps (ingest_fragment v) (chunks m (drop f b)) s = Inr s' \<and> between_batches t s' \<and>
    out s' = out s @ (if v then [accepted_line b (sizes @ map length (chunks m (drop f b)))] else [])"
  using assms
proof (induction "length b - f" arbitrary: f sizes s rule: less_induct)
  case less
  have c: "chunks m (drop f b) = take m (drop f b) # chunks m (drop (m + f) b)"
    using less.prems(4,5) by (simp add: chunks_more [of m "drop f b"])
  show ?case
  proof (cases "f + m < length b")
    case True
    obtain s1 where s1: "ingest_fragment v (take m (drop f b)) s = Inr s1" "collecting t b (f + m) (sizes @ [m]) s1"
      "out s1 = out s" using ingest_more [OF less.prems(1-3,5) True] by blast
    have "length b - (f + m) < length b - f" "20 \<le> f + m" using True less.prems(3,5) by simp_all
    from less.hyps [OF this(1) less.prems(1) s1(2) this(2) True less.prems(5)] obtain s' where
      "run_steps (ingest_fragment v) (chunks m (drop (f + m) b)) s1 = Inr s'" "between_batches t s'"
      "out s' = out s1 @ (if v then [accepted_line b ((sizes @ [m]) @ map length (chunks m (drop (f + m) b)))] else [])"
      by blast
    moreover have "length (take m (drop f b)) = m" using True by simp
    ultimately show ?thesis using s1 c by (simp add: add.commute)
  next
    case False
    then have l: "take m (drop f b) = drop f b" "chunks m (drop (m + f) b) = []"
      using less.prems(5) by simp_all
    show ?thesis using ingest_last [OF less.prems(1-4), of v] c l by auto
  qed
qed

lemma ingest_chunks:
  assumes "clean_batch t b" and "between_batches t s" and "m = 0 \<or> 20 < m"
  shows "\<exists>s'. run_steps (ingest_fragment v) (chunks m b) s = Inr s' \<and> between_batches t s' \<and>
    out s' = out s @ (if v then [opened_line b, accepted_line b (slice_sizes m b)] else [])"
proof -
  have n: "20 < length b" by (rule clean_batch_facts(4) [OF assms(1)])
  then have ne: "b \<noteq> []" by auto
  show ?thesis
  proof (cases "m = 0 \<or> length b \<le> m")
    case True
    then have c: "chunks m b = [b]" using ne by (cases "m = 0") (simp_all add: chunks_single)
    then show ?thesis
      using ingest_first(2) [OF assms(1,2) n order_refl, of v] by (auto simp: slice_sizes_def)
  next
    case False
    then have m: "20 < m" "m < length b" using assms(3) by auto
    have c: "chunks m b = take m b # chunks m (drop m b)" using m ne by (simp add: chunks_more [of m b])
    obtain s1 where s1: "ingest_fragment v (take m b) s = Inr s1" "collecting t b m [m - 20] s1"
      "out s1 = out s @ (if v then [opened_line b] else [])"
      using ingest_first(1) [OF assms(1,2) m] by blast
    have "20 \<le> m" "0 < m" using m by simp_all
    from ingest_pieces [OF assms(1) s1(2) this(1) m(2) this(2), of v] s1 c m(2) show ?thesis
      by (auto simp: slice_sizes_def)
  qed
qed

subsection \<open>The inferred size\<close>

lemma chunk_lengths:
  assumes "xs \<noteq> []" and "0 < m"
  shows "\<exists>q l. map length (chunks m xs) = replicate q m @ [l] \<and> length xs = q * m + l \<and> 0 < l \<and> l \<le> m"
  using assms
proof (induction m xs rule: chunks.induct)
  case (1 m xs)
  have c: "chunks m xs = take m xs # chunks m (drop m xs)" using 1 by (simp add: chunks_more [of m xs])
  show ?case
  proof (cases "length xs \<le> m")
    case True
    then show ?thesis using 1 c by (intro exI [of _ 0] exI [of _ "length xs"]) simp
  next
    case False
    then have "drop m xs \<noteq> []" "m \<noteq> 0" using 1 by simp_all
    from "1.IH" [OF this(2) "1.prems"(1) this(1) "1.prems"(2)] obtain q l where
      "map length (chunks m (drop m xs)) = replicate q m @ [l]" "length xs - m = q * m + l" "0 < l" "l \<le> m"
      by auto
    then show ?thesis using c False by (intro exI [of _ "Suc q"] exI [of _ l]) simp
  qed
qed

lemma count_replicate: "count_list (replicate k m) w = (if w = m then k else 0)"
  by (induction k) auto

text \<open>
  The first slice lacks the header. The most frequent size is the sender's, except with two slices
  whose last is short, and with three whose last is exactly as long as the first.
\<close>

lemma infer_slices:
  assumes "20 < m" and "0 < l" and "l \<le> m"
  shows "infer_detected_mss ((m - 20) # replicate k m @ [l]) = Some m \<longleftrightarrow>
    2 \<le> k \<or> (k = 1 \<and> l \<noteq> m - 20) \<or> l = m"
proof
  assume "2 \<le> k \<or> (k = 1 \<and> l \<noteq> m - 20) \<or> l = m"
  then show "infer_detected_mss ((m - 20) # replicate k m @ [l]) = Some m"
    by (rule infer_segment_size [OF assms])
next
  let ?sizes = "(m - 20) # replicate k m @ [l]"
  assume i: "infer_detected_mss ?sizes = Some m"
  show "2 \<le> k \<or> (k = 1 \<and> l \<noteq> m - 20) \<or> l = m"
  proof (rule ccontr)
    assume n: "\<not> (2 \<le> k \<or> (k = 1 \<and> l \<noteq> m - 20) \<or> l = m)"
    then have "k = 0 \<or> k = 1 \<and> l = m - 20" "l \<noteq> m" by auto
    then show False
    proof (elim disjE conjE)
      assume "k = 0"
      have "m \<in> set ?sizes"
        using i infer_detected_mss_rank [of ?sizes m] by blast
      then show False using \<open>k = 0\<close> \<open>l \<noteq> m\<close> assms(1) by auto
    next
      assume k: "k = 1" and l: "l = m - 20"
      have "infer_detected_mss ?sizes = Some (m - 20)"
        using assms(1) by (intro infer_detected_mss_eqI) (auto simp: k l rank_in_def)
      then show False using i assms(1) by simp
    qed
  qed
qed

lemma slice_sizes_mss:
  assumes "20 < m" and "m < length xs"
  shows "infer_detected_mss (slice_sizes m xs) = Some m \<longleftrightarrow>
    m dvd length xs \<or> (2 * m < length xs \<and> length xs \<noteq> 3 * m - 20)"
proof -
  have "xs \<noteq> []" "0 < m" using assms by auto
  from chunk_lengths [OF this] obtain q l where
    q: "map length (chunks m xs) = replicate q m @ [l]" "length xs = q * m + l" "0 < l" "l \<le> m" by blast
  have "q \<noteq> 0" using q(2,4) assms(2) by (cases q) auto
  then obtain k where k: "q = Suc k" by (cases q) auto
  have s: "slice_sizes m xs = (m - 20) # replicate k m @ [l]" by (simp add: slice_sizes_def q(1) k)
  have d: "m dvd length xs \<longleftrightarrow> l = m"
  proof
    assume "m dvd length xs"
    then have "m dvd l" using q(2) by (simp add: dvd_add_right_iff)
    then have "m \<le> l" using q(3) by (rule dvd_imp_le)
    then show "l = m" using q(4) by simp
  qed (simp add: q(2))
  have n: "length xs = m + k * m + l" using q(2) k by simp
  have "2 * m < length xs \<longleftrightarrow> 1 \<le> k" if "l \<noteq> m"
  proof (cases k)
    case (Suc j)
    have "0 < j * m + l" using q(3) by simp
    then show ?thesis using n Suc by simp
  qed (use n q(4) that in simp)
  moreover have "length xs = 3 * m - 20 \<longleftrightarrow> k = 1 \<and> l = m - 20" if "l \<noteq> m" and k1: "1 \<le> k"
  proof (cases "k = 1")
    case False
    then have "k = Suc (Suc (k - 2))" using k1 by simp
    then obtain j where "k = Suc (Suc j)" ..
    then have "3 * m < length xs" using n q(3) by simp
    then show ?thesis using False by simp
  qed (use n assms(1) in auto)
  ultimately show ?thesis unfolding s infer_slices [OF assms(1) q(3,4)] d by auto
qed

subsection \<open>A session\<close>

lemma run_steps_append:
  "run_steps step (xs @ ys) c = (case run_steps step xs c of Inl e \<Rightarrow> Inl e | Inr c' \<Rightarrow> run_steps step ys c')"
  by (induction xs arbitrary: c) (auto split: sum.split)

definition batch_lines :: "nat \<Rightarrow> byte list \<Rightarrow> log_line list" where
  "batch_lines m b = [opened_line b, accepted_line b (slice_sizes m b)]"

lemma ingest_session:
  assumes "\<forall>b \<in> set bs. clean_batch t b" and "between_batches t s" and "m = 0 \<or> 20 < m"
  shows "\<exists>s'. run_steps (ingest_fragment v) (concat (map (chunks m) bs)) s = Inr s' \<and>
    out s' = out s @ (if v then concat (map (batch_lines m) bs) else [])"
  using assms(1,2)
proof (induction bs arbitrary: s)
  case Nil
  then show ?case by simp
next
  case (Cons b bs)
  obtain s1 where s1: "run_steps (ingest_fragment v) (chunks m b) s = Inr s1" "between_batches t s1"
    "out s1 = out s @ (if v then batch_lines m b else [])"
    using ingest_chunks [of t b s m v] Cons.prems assms(3) by (auto simp: batch_lines_def)
  from Cons.IH [OF _ s1(2)] Cons.prems(1) s1 show ?case by (auto simp: run_steps_append)
qed

end
