(* ===== verification/Main_Properties.thy ===== *)
theory Main_Properties
  imports Send_Properties Cli_Properties Segment_Report
begin

section \<open>The programs as a whole\<close>

text \<open>
  From the command line to the exit status.
\<close>

lemma parsed_client_size:
  assumes "parse_client_options pf args = Inr (Some options)"
  shows "batch_size_ok (opt_batch_size options)"
proof -
  have a: "client_args pf default_client_options args = Inr options" "opt_batch_size options \<noteq> 0"
    using assms by (auto simp: parse_client_options_def then_do_eq_Inr split: if_splits)
  have "client_opts_inv default_client_options"
    by (simp add: client_opts_inv_def default_client_options_def)
  with a(1) have "client_opts_inv options" by (rule client_args_inv)
  with a(2) show ?thesis by (auto simp: client_opts_inv_def batch_size_ok_def cli_consts packet_consts)
qed

lemma client_batches_returns:
  assumes "\<And>b w. \<exists>r w'. send b w = Some (r, w')"
  shows "\<exists>r w'. client_batches send byte_dist count k i batch rng lines w = Some (r, w')"
proof (induction k arbitrary: i batch rng lines w)
  case 0
  then show ?case by simp
next
  case (Suc k)
  show ?case
  proof (cases "build_batch byte_dist batch (of_nat i) (of_nat count) rng")
    case (Inl e)
    then show ?thesis by simp
  next
    case (Inr built)
    obtain b rng' where b: "built = (b, rng')" by fastforce
    obtain r w1 where "send b w = Some (r, w1)" using assms by blast
    then show ?thesis using Inr b Suc by (cases r) simp_all
  qed
qed

lemma fallback_returns: "\<exists>r w'. send_batch_fallback send_to mss b w = Some (r, w')"
  by (auto simp: send_batch_fallback_def split: sum.split prod.split)

lemma linux_client_returns:
  fixes make_address :: "string \<Rightarrow> 'e + ip_address"
  shows "\<exists>r w'. run_client_linux make_address socket_fails send_to byte_dist options rng w = Some (r, w')"
proof -
  have go: "\<exists>r w'. client_run (send_batch_fallback f mss) byte_dist options rng w =
      Some (r :: 'e client_error + client_line list, w')" for f mss
  proof -
    have "\<exists>r w'. client_batches (send_batch_fallback f mss) byte_dist (opt_send_count options)
        (opt_send_count options) 0 (replicate (opt_batch_size options) 0) rng [] w =
      Some (r :: 'e client_error + client_line list, w')"
      by (rule client_batches_returns, rule fallback_returns)
    then show ?thesis by (auto simp: client_run_def)
  qed
  then show ?thesis
    by (auto simp: run_client_linux_def Let_def split: sum.split option.split)
qed

text \<open>
  C5. The Linux client always ends, on any network and with any arguments, and its exit status tells
  whether it did its work: it is 0 only when help was asked for, and nothing was sent, or when the
  arguments are valid and every batch they ask for was built and all its pieces were taken by the
  network, in order and without repetition. Otherwise it is 1.
\<close>

theorem client_exit_status:
  "\<exists>code w' sent.
     client_main (parse_client_options Linux)
       (\<lambda>options. run_client_linux make_address socket_fails (\<lambda>ep. logged (send_to ep)) byte_dist options rng)
       args (w, []) = Some (code, w', sent) \<and>
     (if code = 0
      then parse_client_options Linux args = Inr None \<and> sent = [] \<or>
        (\<exists>options bs. parse_client_options Linux args = Inr (Some options) \<and>
           client_built byte_dist options rng = Some bs \<and> length bs = opt_send_count options \<and>
           sent = concat (map (chunks (opt_mss options)) bs))
      else code = 1)"
proof -
  let ?run = "\<lambda>options. run_client_linux make_address socket_fails (\<lambda>ep. logged (send_to ep)) byte_dist options rng"
  consider (bad) e where "parse_client_options Linux args = Inl e"
    | (usage) "parse_client_options Linux args = Inr None"
    | (ok) options where "parse_client_options Linux args = Inr (Some options)"
    by (cases "parse_client_options Linux args") auto
  then show ?thesis
  proof cases
    case bad
    then show ?thesis by (simp add: client_main_def)
  next
    case usage
    then show ?thesis by (simp add: client_main_def)
  next
    case (ok options)
    obtain r w' sent where r: "?run options (w, []) = Some (r, w', sent)"
      using linux_client_returns [of make_address socket_fails "\<lambda>ep. logged (send_to ep)" byte_dist options rng "(w, [])"]
      by force
    show ?thesis
    proof (cases r)
      case (Inl e)
      then show ?thesis using ok r by (simp add: client_main_def)
    next
      case (Inr lines)
      note size = parsed_client_size [OF ok]
      obtain bs where bs: "client_built byte_dist options rng = Some bs"
        "sent = concat (map (chunks (opt_mss options)) bs)"
        using linux_sent [OF r [unfolded Inr] size] by auto
      have "length bs = opt_send_count options"
        using list_all2_lengthD [OF client_built_ok(1) [OF bs(1) size]] by simp
      then show ?thesis using ok r Inr bs by (auto simp: client_main_def)
    qed
  qed
qed

text \<open>
  C26. What \<open>-v\<close> reports of the segments. When the datagrams of a completed Linux client arrive
  undisturbed, the server prints two lines for each batch, the second with the number of slices and
  the segment size inferred from them. For batches longer than a segment that size is the client's
  \<open>--mss\<close> except in two cases: batches of two slices whose second is short, and batches of three
  slices whose last is as long as the first without its header.
\<close>

theorem reported_segment_size:
  assumes "run_client_linux make_address socket_fails (\<lambda>ep. logged (send_to ep)) byte_dist options rng (w, []) =
      Some (Inr lines, w', sent)"
    and "batch_size_ok (opt_batch_size options)" and "20 < opt_mss options" and "opt_mss options < opt_batch_size options"
  shows "\<exists>s bs. run_steps (ingest_fragment True) sent init_server = Inr s \<and>
    client_built byte_dist options rng = Some bs \<and>
    out s = concat (map (\<lambda>b. [opened_line b, accepted_line b (slice_sizes (opt_mss options) b)]) bs) \<and>
    (\<forall>b \<in> set bs. length (slice_sizes (opt_mss options) b) =
         (opt_batch_size options + opt_mss options - 1) div opt_mss options \<and>
       (infer_detected_mss (slice_sizes (opt_mss options) b) = Some (opt_mss options) \<longleftrightarrow>
          opt_mss options dvd opt_batch_size options \<or>
          (2 * opt_mss options < opt_batch_size options \<and> opt_batch_size options \<noteq> 3 * opt_mss options - 20)))"
proof -
  let ?m = "opt_mss options" and ?n = "opt_batch_size options"
  obtain bs where bs: "client_built byte_dist options rng = Some bs" "sent = concat (map (chunks ?m) bs)"
    using linux_sent [OF assms(1,2)] by auto
  have sb: "\<exists>i < opt_send_count options. session_batch ?n (opt_send_count options) i b" if "b \<in> set bs" for b
    using session_batches_in [OF client_built_ok(1) [OF bs(1) assms(2)] that] by auto
  have clean: "\<forall>b \<in> set bs. clean_batch (of_nat (opt_send_count options)) b"
    using sb session_batch_clean assms(3,4) by (meson less_trans)
  have len: "length b = ?n" if "b \<in> set bs" for b using sb [OF that] by (auto simp: session_batch_def)
  have "between_batches (of_nat (opt_send_count options)) init_server"
    by (simp add: between_batches_def init_server_def init_stats_def)
  from ingest_session [OF clean this, of ?m True] assms(3) obtain s where
    "run_steps (ingest_fragment True) sent init_server = Inr s" "out s = concat (map (batch_lines ?m) bs)"
    unfolding bs(2) by (auto simp: init_server_def)
  moreover have "length (slice_sizes ?m b) = (?n + ?m - 1) div ?m" if "b \<in> set bs" for b
    using length_chunks [of ?m b] assms(3) len [OF that]
    by (cases "chunks ?m b") (simp_all add: slice_sizes_def)
  moreover have "infer_detected_mss (slice_sizes ?m b) = Some ?m \<longleftrightarrow> ?m dvd ?n \<or> (2 * ?m < ?n \<and> ?n \<noteq> 3 * ?m - 20)"
    if "b \<in> set bs" for b
    using slice_sizes_mss [of ?m b] assms(3,4) len [OF that] by simp
  ultimately show ?thesis using bs(1) unfolding batch_lines_def by blast
qed

theorem reported_segment_size_witness:
  "\<exists>lines w' sent s.
     run_client_linux (\<lambda>_. Inl ()) None (\<lambda>ep. logged all_sent) sample_random (sample_client 25) 0 ((), []) =
       Some (Inr lines, w', sent) \<and>
     run_steps (ingest_fragment True) sent init_server = Inr s \<and> length (out s) = 6"
proof -
  obtain lines w' sent x where
    r: "run_client_linux (\<lambda>_. Inl ()) None (\<lambda>ep. logged all_sent) sample_random (sample_client 25) 0 ((), []) =
       Some (Inr lines, w', sent)" by (rule sample_pair)
  obtain s bs where s: "run_steps (ingest_fragment True) sent init_server = Inr s"
    "client_built sample_random (sample_client 25) 0 = Some bs"
    "out s = concat (map (\<lambda>b. [opened_line b, accepted_line b (slice_sizes (opt_mss (sample_client 25)) b)]) bs)"
    using reported_segment_size [OF r] by auto
  have "length bs = 3"
    using list_all2_lengthD [OF client_built_ok(1) [OF s(2)]] by simp
  then have "length (out s) = 6" by (simp add: s(3) length_concat map_map comp_def sum_list_triv)
  with r s(1) show ?thesis by blast
qed

end
