(* ===== verification/Spec2Isabelle.thy ===== *)
theory Spec2Isabelle
  imports Wire_Properties Reassembly_Properties Receive_Properties Cli_Properties Uro_Session Main_Properties
begin

text \<open>
  Verification of udp-test: a client that sends batches of random bytes with a checksum over UDP,
  and a server that puts the batches together again and counts them (\<open>boostudp_client\<close> and
  \<open>boostudp_server\<close>, C++ with Boost.Asio, for Windows and Linux).

  THE PROGRAM. The client builds \<open>--count\<close> batches of \<open>--size\<close> bytes, a 20-byte header (magic, number,
  total, length, CRC-32) and random bytes, and sends each as one datagram or cut into pieces of
  \<open>--mss\<close> bytes: with one \<open>send_to\<close> per piece on Linux, with one \<open>WSASendMsg\<close> and a segment size on
  Windows (USO). The server reads datagrams, on Windows possibly several coalesced into one read
  (URO), and treats what it reads as a stream of bytes: it hunts for headers, collects a batch,
  validates it, and counts batches, bad, lost, duplicate and late ones. A session ends when nothing
  arrives for three seconds after traffic, or with \<open>--count\<close> batches; \<open>--loop\<close> runs sessions again.

  THE THEORIES, with the files under src/ they model. Definitions carry the names of the code; a
  name that is an option of both programs or clashes with HOL has a prefix or suffix.

  \<^item> \<open>Prelude\<close>: machine types, bounds-checked reads, exceptions as sums (\<open>then_do\<close>), decimal numbers.
  \<^item> \<open>Crc32\<close>, \<open>Packet\<close> (packet.hpp): checksum, header layout, \<open>build_batch\<close>, \<open>validate_batch\<close>,
    \<open>validate_batch_session\<close>, \<open>peek_batch_length\<close>. The random source is a function of a state.
  \<^item> \<open>Stats\<close> (server.cpp 33-44, 144-233): the record of counters, \<open>track_sequence\<close>, \<open>finalize_lost\<close>,
    \<open>infer_detected_mss\<close>.
  \<^item> \<open>Reassembly\<close> (server.cpp 46-52, 235-551): the reassembly buffer and \<open>ingest_fragment\<close>, with
    \<open>try_complete_batch\<close> and the header scans; every read and write is bounds-checked.
  \<^item> \<open>Common\<close>, \<open>Cli\<close> (common.hpp, cli.hpp): number parsers with \<open>std::stoull\<close>'s white space, signs and
    wrap-around, both option parsers with every exception.
  \<^item> \<open>Receive_Loop\<close> (server.cpp 54-142, 553-846): receive timeouts, the two session loops, the end of a
    session, \<open>run_server\<close>, \<open>main\<close>. The system is a list of \<open>turn\<close>s: what each round reads from clock
    and socket; a loop that has used them up is blocked.
  \<^item> \<open>Sockaddr\<close>, \<open>Uso_Recv\<close> (uso_recv.hpp, uso_recv_win.cpp) and \<open>Uso_Send\<close> (uso_send.hpp,
    uso_send_win.cpp): addresses, coalesced receive, segmented send, the socket and the choice of its
    address. The Winsock and IP Helper entry points are fields of a record, functions on the state of
    the system.
  \<^item> \<open>Client\<close> (client.cpp): \<open>run_client\<close> on both platforms, the functions that send a batch, \<open>main\<close>.

  SPECIFICATIONS AND WHAT THE LEMMAS SHOW.

  \<^item> \<open>Wire_Properties\<close>: a built batch validates and reads back; \<open>validate_batch\<close> accepts exactly what
    \<open>build_batch\<close> can produce; damage within four bytes on either side of the
    checksum field or inside it is found, and an example shows that damage across its boundary may not be.
  \<^item> \<open>Stream_Spec\<close> gives the abstract server, \<open>parse_stream\<close>: a function of the counters and all bytes
    received. \<open>Reassembly_Correct\<close> proves that \<open>ingest_fragment\<close> implements it (locales
    \<open>incremental_parser\<close> and \<open>stream_receiver\<close>, interpreted on the model), and \<open>Reassembly_Properties\<close>
    that it never faults, does not depend on how the stream is cut into datagrams (the number of
    fragments apart), counts undamaged traffic exactly, loses one batch to a batch damaged in place,
    and counts nothing that was not received.
  \<^item> \<open>Receive_Correct\<close> and \<open>Receive_Properties\<close>: both loops move by the steps \<open>rx_round\<close>; a session
    reports \<open>session_stats\<close> of the datagrams it ingested, whatever the timing; when sessions end, and
    the one case in which they do not.
  \<^item> \<open>Uro_Session\<close>: printing has no effect on the state, and a session with coalesced receive is one
    with plain receives of the same bytes.
  \<^item> \<open>Client_Correct\<close>, \<open>Uso_Send_Correct\<close>: what a send puts on the network is \<open>chunks mss\<close> of the batch.
    The network and Winsock are wrapped to keep a log (\<open>logged\<close>, \<open>recorded\<close>, with the outcome of each
    send); an overlapped send ends with the first run of its completion routine. The locale
    \<open>batch_sender\<close> states what the loop over batches needs of a sender, \<open>reliable_sender\<close> what it
    needs to finish, and both are interpreted on the code's senders.
  \<^item> \<open>Segment_Report\<close>: the slices a batch arrives in when nothing disturbs it, the lines the server
    prints for it, and when the segment size it infers is the sender's.
  \<^item> \<open>End_To_End\<close>, \<open>Send_Properties\<close>, \<open>Main_Properties\<close>: client and server together, over a network that
    keeps the bytes in order and one that loses, repeats and reorders datagrams; both platforms send
    the same; exit status, socket ownership, termination.
  \<^item> \<open>Cli_Properties\<close>: options written as arguments are read back, accepted options are in range.
  \<^item> \<open>Samples\<close> and the last sections of the property theories hold the concrete inputs on which the
    theorems are applied.

  LOOPS AND FUEL. Loops that always end are recursive functions with a measure. \<open>ingest_loop\<close> serves
  the mutual recursion of \<open>ingest_fragment\<close> and \<open>try_complete_batch\<close> and has fuel: \<open>n * n + m + 1\<close> for
  \<open>n\<close> bytes buffered or new, \<open>m\<close> of them new. Each round consumes a byte, or hands on a carry shorter
  than what was there, and \<open>ingest_never_faults\<close> shows that the fuel is enough. Loops that may run
  for ever are partial functions into options, where \<open>None\<close> is not returning: \<open>lost_loop\<close> (it hangs
  when the bound is the largest 32-bit number), \<open>await_completion\<close>, \<open>run_sessions\<close>.

  ASSUMPTIONS ON THE SYSTEM. Operating-system calls, \<open>make_address\<close> and the random source are
  parameters without assumptions, but for these: \<open>WSASendMsg\<close> with \<open>UDP_SEND_MSG_SIZE\<close> asks for the
  consecutive segments of its buffer (built into \<open>recorded\<close>); where the datagrams on the network are
  meant (\<open>wire\<close>, in the properties that join the Windows client to a server or to the Linux client), a
  send that reports all its bytes has put its datagrams there and another none; \<open>closesocket\<close> keeps
  the last error. What a receive reports is arbitrary in every round, a timeout included: that a
  session ends is proved from the rounds in which the system reports that nothing came, and on Linux,
  with \<open>--count\<close>, such a report rests on \<open>SO_RCVTIMEO\<close>, which the code itself calls unreliable there.
  The system runs a completion routine within the overlapped call or an alertable wait, as reported by
  that call (\<open>completion option\<close>). Counters of type
  \<open>std::size_t\<close> are natural numbers; header fields, casts to 32 bits and the number parsers wrap
  as in the code.

  NOT MODELLED. Help texts, the start-up and elapsed-time lines of the client, the text of error
  messages, \<open>log_windows_version\<close> (output only), the lookup of Winsock entry points by name and its
  caching, flushing, the remote endpoint in the server's output, build files and scripts. A
  completion routine that runs after its send has returned is outside the model.
\<close>

end
